(* ===== verification/Prelude.thy ===== *)
theory Prelude
  imports Main "HOL-Library.Word"
begin

unbundle bit_operations_syntax

text \<open>
  Shared vocabulary of the development: the machine integers and byte strings of the
  program, its exceptions as values, the operations that thread a state through code
  that may throw, the network byte order, and the generic list lemmas the components use.
\<close>

section \<open>Types\<close>

type_synonym byte = "8 word"
type_synonym u16 = "16 word"
type_synonym u32 = "32 word"
type_synonym u64 = "64 word"
type_synonym bytes = "byte list"

text \<open>The bytes of a string literal of the source.\<close>

definition bytes_of :: "string \<Rightarrow> bytes" where
  "bytes_of s = map of_char s"

text \<open>The character \<open>.\<close> that separates the labels of a domain name.\<close>

definition dot :: byte where
  "dot = 46"

section \<open>Exceptions and fallible computations\<close>

text \<open>
  The exceptions the DNS code throws. \<open>StdOutOfRange\<close> is the \<open>std::out_of_range\<close> of
  \<open>vector::at\<close>. \<open>UndefinedBehaviour\<close> is no exception of the program: it marks a read
  outside the memory the code owns, or a loop or recursion without end, and no handler
  catches it.
\<close>

datatype exn =
    MessageHeaderException
  | LabelHeaderException
  | NoLabelsException
  | IllegalLabelException
  | IllegalPointereException
  | QuestionHeaderException
  | InvalidQuery
  | Refused
  | UnknownDomain
  | UnknownSubDomain
  | NoSoaRecord
  | Truncated
  | StdOutOfRange
  | UndefinedBehaviour

type_synonym 'a res = "exn + 'a"

fun rbind :: "'e + 'a \<Rightarrow> ('a \<Rightarrow> 'e + 'b) \<Rightarrow> 'e + 'b" where
  "rbind (Inl e) f = Inl e"
| "rbind (Inr x) f = f x"

lemma rbind_eq_Inr [simp]: "rbind m f = Inr y \<longleftrightarrow> (\<exists>x. m = Inr x \<and> f x = Inr y)"
  by (cases m) auto

lemma rbind_eq_Inl: "rbind m f = Inl e \<longleftrightarrow> m = Inl e \<or> (\<exists>x. m = Inr x \<and> f x = Inl e)"
  by (cases m) auto

lemma rbind_case: "rbind m f = (case m of Inl e \<Rightarrow> Inl e | Inr x \<Rightarrow> f x)"
  by (cases m) simp_all

text \<open>A loop that collects results, and ends at the first one that is an error.\<close>

fun map_res :: "('x \<Rightarrow> 'e + 'y) \<Rightarrow> 'x list \<Rightarrow> 'e + 'y list" where
  "map_res f [] = Inr []"
| "map_res f (x # xs) = rbind (f x) (\<lambda>y. rbind (map_res f xs) (\<lambda>ys. Inr (y # ys)))"

lemma map_res_Inr: "map_res f xs = Inr ys \<longleftrightarrow> list_all2 (\<lambda>x y. f x = Inr y) xs ys"
  by (induction xs arbitrary: ys) (auto simp: list_all2_Cons1)

text \<open>
  Code that mutates its reference arguments and may throw: the state reached is returned
  with the outcome, so that what was written before a throw stays visible to the handler.
\<close>

type_synonym ('s, 'a) op = "'s \<Rightarrow> 'a res \<times> 's"

definition op_ret :: "'a \<Rightarrow> ('s, 'a) op" where
  "op_ret x s = (Inr x, s)"

definition op_throw :: "exn \<Rightarrow> ('s, 'a) op" where
  "op_throw e s = (Inl e, s)"

definition op_bind :: "('s, 'a) op \<Rightarrow> ('a \<Rightarrow> ('s, 'b) op) \<Rightarrow> ('s, 'b) op" where
  "op_bind m f s = (case m s of (Inl e, s') \<Rightarrow> (Inl e, s') | (Inr x, s') \<Rightarrow> f x s')"

definition op_upd :: "('s \<Rightarrow> 's) \<Rightarrow> ('s, unit) op" where
  "op_upd f s = (Inr (), f s)"

text \<open>A range-based \<open>for\<close> over a container whose body may throw.\<close>

fun op_for :: "'x list \<Rightarrow> ('x \<Rightarrow> ('s, unit) op) \<Rightarrow> ('s, unit) op" where
  "op_for [] f s = (Inr (), s)"
| "op_for (x # xs) f s = (case f x s of (Inl e, s') \<Rightarrow> (Inl e, s') | (Inr _, s') \<Rightarrow> op_for xs f s')"

text \<open>
  A relation between the state before and after that every operation keeps whatever its
  outcome is kept by sequencing and by loops.
\<close>

definition op_keeps :: "('s \<Rightarrow> 's \<Rightarrow> bool) \<Rightarrow> ('s, 'a) op \<Rightarrow> bool" where
  "op_keeps R m \<longleftrightarrow> (\<forall>s. R s (snd (m s)))"

named_theorems keeps_intros \<open>operations that keep a reflexive, transitive state relation\<close>

lemma op_keepsD: "op_keeps R m \<Longrightarrow> m s = (r, s') \<Longrightarrow> R s s'"
  by (metis op_keeps_def snd_conv)

lemma op_keeps_ret [keeps_intros]: "reflp R \<Longrightarrow> op_keeps R (op_ret x)"
  by (simp add: op_keeps_def op_ret_def reflpD)

lemma op_keeps_throw [keeps_intros]: "reflp R \<Longrightarrow> op_keeps R (op_throw e)"
  by (simp add: op_keeps_def op_throw_def reflpD)

lemma op_keeps_bind [keeps_intros]:
  assumes "transp R" "op_keeps R m" "\<And>x. op_keeps R (f x)"
  shows "op_keeps R (op_bind m f)"
  unfolding op_keeps_def
proof
  fix s
  obtain r s' where m: "m s = (r, s')" by (cases "m s")
  then have "R s s'" using assms(2) by (rule op_keepsD [rotated])
  moreover have "R s' (snd (f x s'))" for x
    using assms(3) by (auto simp: op_keeps_def)
  ultimately show "R s (snd (op_bind m f s))"
    using m assms(1) by (cases r) (auto simp: op_bind_def dest: transpD)
qed

lemma op_keeps_for [keeps_intros]:
  assumes "reflp R" "transp R" "\<And>x. x \<in> set xs \<Longrightarrow> op_keeps R (f x)"
  shows "op_keeps R (op_for xs f)"
proof -
  have "R s (snd (op_for xs f s))" for s
    using assms(3)
  proof (induction xs arbitrary: s)
    case Nil
    then show ?case by (simp add: reflpD [OF assms(1)])
  next
    case (Cons x xs)
    obtain r s' where m: "f x s = (r, s')" by (cases "f x s")
    then have R: "R s s'" using Cons.prems by (auto intro: op_keepsD)
    show ?case
      using m R Cons.IH [of s'] Cons.prems transpD [OF assms(2) R] by (cases r) auto
  qed
  then show ?thesis by (simp add: op_keeps_def)
qed

section \<open>Network byte order\<close>

text \<open>
  \<open>*p++ = htons(x)\<close> leaves the two bytes of \<open>x\<close> in memory, the most significant one
  first, whatever the byte order of the host; \<open>ntohs(*p)\<close> reads them back.
\<close>

definition htons_bytes :: "u16 \<Rightarrow> bytes" where
  "htons_bytes w = [ucast (drop_bit 8 w), ucast w]"

definition ntohs_bytes :: "byte \<Rightarrow> byte \<Rightarrow> u16" where
  "ntohs_bytes hi lo = push_bit 8 (ucast hi) OR ucast lo"

definition htonl_bytes :: "u32 \<Rightarrow> bytes" where
  "htonl_bytes w = [ucast (drop_bit 24 w), ucast (drop_bit 16 w), ucast (drop_bit 8 w), ucast w]"

definition ntohl_bytes :: "byte \<Rightarrow> byte \<Rightarrow> byte \<Rightarrow> byte \<Rightarrow> u32" where
  "ntohl_bytes a b c d =
     push_bit 24 (ucast a) OR push_bit 16 (ucast b) OR push_bit 8 (ucast c) OR ucast d"

lemma length_htons_bytes [simp]: "length (htons_bytes w) = 2"
  by (simp add: htons_bytes_def)

lemma length_htonl_bytes [simp]: "length (htonl_bytes w) = 4"
  by (simp add: htonl_bytes_def)

lemma ntohs_htons [simp]: "ntohs_bytes (ucast (drop_bit 8 w)) (ucast w) = w"
  by (rule bit_word_eqI) (auto simp: ntohs_bytes_def bit_simps)

lemma htons_ntohs: "htons_bytes (ntohs_bytes hi lo) = [hi, lo]"
proof -
  have "(ucast (drop_bit 8 (ntohs_bytes hi lo)) :: byte) = hi"
    by (rule bit_word_eqI) (auto simp: ntohs_bytes_def bit_simps dest: bit_imp_le_length)
  moreover have "(ucast (ntohs_bytes hi lo) :: byte) = lo"
    by (rule bit_word_eqI) (auto simp: ntohs_bytes_def bit_simps dest: bit_imp_le_length)
  ultimately show ?thesis by (simp add: htons_bytes_def)
qed

lemma ntohl_htonl [simp]:
  "ntohl_bytes (ucast (drop_bit 24 w)) (ucast (drop_bit 16 w)) (ucast (drop_bit 8 w)) (ucast w) = w"
proof (rule bit_word_eqI)
  fix n
  assume "n < LENGTH(32)"
  then show "bit (ntohl_bytes (ucast (drop_bit 24 w)) (ucast (drop_bit 16 w))
      (ucast (drop_bit 8 w)) (ucast w)) n = bit w n"
    by (cases "n < 8"; cases "n < 16"; cases "n < 24") (auto simp: ntohl_bytes_def bit_simps)
qed

section \<open>Slices of a buffer\<close>

definition segment :: "'a list \<Rightarrow> nat \<Rightarrow> nat \<Rightarrow> 'a list" where
  "segment xs off n = take n (drop off xs)"

lemma length_segment [simp]: "off + n \<le> length xs \<Longrightarrow> length (segment xs off n) = n"
  by (simp add: segment_def)

lemma segment_append1 [simp]: "off + n \<le> length xs \<Longrightarrow> segment (xs @ ys) off n = segment xs off n"
  by (simp add: segment_def)

lemma segment_append2 [simp]: "segment (xs @ ys) (length xs) n = take n ys"
  by (simp add: segment_def)

lemma segment_eqI:
  assumes "\<And>i. off \<le> i \<Longrightarrow> i < off + n \<Longrightarrow> xs ! i = ys ! i"
    and "off + n \<le> length xs" "off + n \<le> length ys"
  shows "segment xs off n = segment ys off n"
  using assms by (intro nth_equalityI) (auto simp: segment_def)

text \<open>
  Storing a run of bytes over the bytes that are there, as the code does through a
  pointer into a buffer it has already resized.
\<close>

definition put_at :: "'a list \<Rightarrow> nat \<Rightarrow> 'a list \<Rightarrow> 'a list" where
  "put_at xs off ys = take off xs @ ys @ drop (off + length ys) xs"

lemma length_put_at [simp]: "off + length ys \<le> length xs \<Longrightarrow> length (put_at xs off ys) = length xs"
  by (simp add: put_at_def)

lemma nth_put_at_outside:
  "off + length ys \<le> length xs \<Longrightarrow> i < off \<or> off + length ys \<le> i \<Longrightarrow> i < length xs \<Longrightarrow>
     put_at xs off ys ! i = xs ! i"
  by (auto simp: put_at_def nth_append)

lemma nth_put_at_inside:
  "off + length ys \<le> length xs \<Longrightarrow> i < length ys \<Longrightarrow> put_at xs off ys ! (off + i) = ys ! i"
  by (auto simp: put_at_def nth_append)

lemma put_at_append1:
  "off + length ys \<le> length xs \<Longrightarrow> put_at (xs @ zs) off ys = put_at xs off ys @ zs"
  by (simp add: put_at_def)

lemma put_at_middle [simp]:
  "length ys = length zs \<Longrightarrow> put_at (xs @ zs @ ws) (length xs) ys = xs @ ys @ ws"
  by (simp add: put_at_def)

lemma put_at_append2 [simp]: "put_at (xs @ zs) (length xs + k) ys = xs @ put_at zs k ys"
  by (simp add: put_at_def)

lemma put_at_append2_0 [simp]: "put_at (xs @ zs) (length xs) ys = xs @ put_at zs 0 ys"
  using put_at_append2 [of xs zs 0 ys] by simp

lemma segment_drop:
  "drop s ys = drop s xs \<Longrightarrow> s \<le> off \<Longrightarrow> segment ys off n = segment xs off n"
  by (metis add_diff_inverse_nat drop_drop linorder_not_le segment_def add.commute)

lemma nth_drop_eq:
  "drop s ys = drop s xs \<Longrightarrow> length ys = length xs \<Longrightarrow> s \<le> i \<Longrightarrow> i < length xs \<Longrightarrow> ys ! i = xs ! i"
proof -
  assume eq: "drop s ys = drop s xs" "length ys = length xs" "s \<le> i" "i < length xs"
  have "ys ! i = drop s ys ! (i - s)" "xs ! i = drop s xs ! (i - s)" using eq(2-4) by simp_all
  with eq(1) show ?thesis by simp
qed

lemma subset_room: "Q \<subseteq> P \<union> {a..<b} \<Longrightarrow> P \<subseteq> {..<c} \<Longrightarrow> c \<le> b \<Longrightarrow> Q \<subseteq> {..<b :: nat}"
  by (force simp: subset_iff)

lemma length_filter_update:
  assumes "j < length xs"
  shows "length (filter P (xs[j := y])) + (if P (xs ! j) then 1 else 0) = length (filter P xs) + (if P y then 1 else 0)"
proof -
  have "length (filter P xs) = length (filter P (take j xs @ xs ! j # drop (Suc j) xs))"
    using id_take_nth_drop [OF assms] by (rule arg_cong)
  then show ?thesis unfolding upd_conv_take_nth_drop [OF assms] by simp
qed

end
