(* ===== verification/DnsHeader.thy ===== *)
theory DnsHeader
  imports Prelude
begin

text \<open>
  The fixed twelve-byte header of a DNS message: class \<open>MessageHeader\<close> of
  \<open>src/dnsd/Message.h\<close>, its parsing constructor, accessors, mutators and \<open>Write\<close>.
\<close>

section \<open>State\<close>

text \<open>Enum \<open>MessageHeader::Rcode\<close>.\<close>

datatype Rcode = OK | FORMAT_ERROR | SERVER_FAILURE | NAME_ERROR | NOT_IMPLEMENTED | REFUSED

fun rcode_value :: "Rcode \<Rightarrow> byte" where
  "rcode_value OK = 0"
| "rcode_value FORMAT_ERROR = 1"
| "rcode_value SERVER_FAILURE = 2"
| "rcode_value NAME_ERROR = 3"
| "rcode_value NOT_IMPLEMENTED = 4"
| "rcode_value REFUSED = 5"

record MessageHeader =
  hdr_id :: u16
  hdr_flags :: u16
  hdr_qdcount :: u16
  hdr_ancount :: u16
  hdr_nscount :: u16
  hdr_arcount :: u16

definition header_size :: nat where
  "header_size = 2 * 6"

section \<open>Parsing and writing\<close>

text \<open>
  The constructor: \<open>buffer\<close> is the memory the query lies in, \<open>len\<close> the number of bytes
  received. Six \<open>ntohs\<close> reads follow the length check.
\<close>

definition u16_at :: "bytes \<Rightarrow> nat \<Rightarrow> u16 res" where
  "u16_at buffer i =
     (if i + 1 < length buffer then Inr (ntohs_bytes (buffer ! i) (buffer ! (i + 1)))
      else Inl UndefinedBehaviour)"

definition parse_header :: "bytes \<Rightarrow> nat \<Rightarrow> MessageHeader res" where
  "parse_header buffer len =
     (if len < header_size then Inl MessageHeaderException
      else rbind (u16_at buffer 0) (\<lambda>i.
           rbind (u16_at buffer 2) (\<lambda>f.
           rbind (u16_at buffer 4) (\<lambda>qd.
           rbind (u16_at buffer 6) (\<lambda>an.
           rbind (u16_at buffer 8) (\<lambda>ns.
           rbind (u16_at buffer 10) (\<lambda>ar.
             Inr \<lparr>hdr_id = i, hdr_flags = f, hdr_qdcount = qd, hdr_ancount = an,
                   hdr_nscount = ns, hdr_arcount = ar\<rparr>)))))))"

definition header_bytes :: "MessageHeader \<Rightarrow> bytes" where
  "header_bytes h =
     htons_bytes (hdr_id h) @ htons_bytes (hdr_flags h) @ htons_bytes (hdr_qdcount h) @
     htons_bytes (hdr_ancount h) @ htons_bytes (hdr_nscount h) @ htons_bytes (hdr_arcount h)"

text \<open>\<open>Write\<close> stores the header over the first bytes of a buffer.\<close>

definition write_header :: "MessageHeader \<Rightarrow> bytes \<Rightarrow> bytes" where
  "write_header h buffer = put_at buffer 0 (header_bytes h)"

section \<open>Accessors\<close>

definition GetQr :: "MessageHeader \<Rightarrow> bool" where
  "GetQr h \<longleftrightarrow> hdr_flags h AND push_bit 15 1 \<noteq> 0"
definition GetOpcode :: "MessageHeader \<Rightarrow> byte" where
  "GetOpcode h = ucast (drop_bit 11 (hdr_flags h) AND 0xF)"
definition GetAa :: "MessageHeader \<Rightarrow> bool" where
  "GetAa h \<longleftrightarrow> hdr_flags h AND push_bit 10 1 \<noteq> 0"
definition GetTc :: "MessageHeader \<Rightarrow> bool" where
  "GetTc h \<longleftrightarrow> hdr_flags h AND push_bit 9 1 \<noteq> 0"
definition GetRd :: "MessageHeader \<Rightarrow> bool" where
  "GetRd h \<longleftrightarrow> hdr_flags h AND push_bit 8 1 \<noteq> 0"
definition GetRa :: "MessageHeader \<Rightarrow> bool" where
  "GetRa h \<longleftrightarrow> hdr_flags h AND push_bit 7 1 \<noteq> 0"
definition GetZ :: "MessageHeader \<Rightarrow> byte" where
  "GetZ h = ucast (drop_bit 4 (hdr_flags h) AND 0xF)"
definition GetRcode :: "MessageHeader \<Rightarrow> byte" where
  "GetRcode h = ucast (hdr_flags h AND 0xF)"

section \<open>Mutators\<close>

text \<open>Each clears its bits and then sets them from the argument.\<close>

definition put_flag :: "nat \<Rightarrow> bool \<Rightarrow> MessageHeader \<Rightarrow> MessageHeader" where
  "put_flag n b h =
     (let cleared = hdr_flags h AND NOT (push_bit n 1)
      in h\<lparr>hdr_flags := (if b then cleared OR push_bit n 1 else cleared)\<rparr>)"

definition SetQr :: "bool \<Rightarrow> MessageHeader \<Rightarrow> MessageHeader" where
  "SetQr qr h = put_flag 15 qr h"
definition SetTc :: "bool \<Rightarrow> MessageHeader \<Rightarrow> MessageHeader" where
  "SetTc tc h = put_flag 9 tc h"
definition SetRa :: "bool \<Rightarrow> MessageHeader \<Rightarrow> MessageHeader" where
  "SetRa ra h = put_flag 7 ra h"
definition SetAa :: "bool \<Rightarrow> MessageHeader \<Rightarrow> MessageHeader" where
  "SetAa aa h = put_flag 10 aa h"
definition SetOpcode :: "byte \<Rightarrow> MessageHeader \<Rightarrow> MessageHeader" where
  "SetOpcode opcode h =
     h\<lparr>hdr_flags := (hdr_flags h AND NOT (push_bit 11 0xF)) OR push_bit 11 (ucast (opcode AND 0xF))\<rparr>"
definition SetRcode :: "Rcode \<Rightarrow> MessageHeader \<Rightarrow> MessageHeader" where
  "SetRcode rcode h =
     h\<lparr>hdr_flags := (hdr_flags h AND NOT 0xF) OR (ucast (rcode_value rcode) AND 0xF)\<rparr>"
definition SetQdCount :: "u16 \<Rightarrow> MessageHeader \<Rightarrow> MessageHeader" where
  "SetQdCount val h = h\<lparr>hdr_qdcount := val\<rparr>"
definition SetAnCount :: "u16 \<Rightarrow> MessageHeader \<Rightarrow> MessageHeader" where
  "SetAnCount val h = h\<lparr>hdr_ancount := val\<rparr>"
definition SetNsCount :: "u16 \<Rightarrow> MessageHeader \<Rightarrow> MessageHeader" where
  "SetNsCount val h = h\<lparr>hdr_nscount := val\<rparr>"
definition SetArCount :: "u16 \<Rightarrow> MessageHeader \<Rightarrow> MessageHeader" where
  "SetArCount val h = h\<lparr>hdr_arcount := val\<rparr>"
definition ResetAllCounters :: "MessageHeader \<Rightarrow> MessageHeader" where
  "ResetAllCounters h = h\<lparr>hdr_qdcount := 0, hdr_ancount := 0, hdr_nscount := 0, hdr_arcount := 0\<rparr>"

section \<open>Round trip\<close>

lemma length_header_bytes [simp]: "length (header_bytes h) = header_size"
  by (simp add: header_bytes_def header_size_def)

lemma length_write_header [simp]:
  "header_size \<le> length buffer \<Longrightarrow> length (write_header h buffer) = length buffer"
  by (simp add: write_header_def)

lemma parse_header_bytes: "header_size \<le> len \<Longrightarrow> parse_header (header_bytes h @ rest) len = Inr h"
  by (simp add: parse_header_def header_bytes_def htons_bytes_def u16_at_def header_size_def)

lemma write_header_eq:
  "header_size \<le> length buffer \<Longrightarrow>
     write_header h buffer = header_bytes h @ drop header_size buffer"
  by (simp add: write_header_def put_at_def)

text \<open>A header written into a buffer and parsed again is the header that was written.\<close>

theorem header_roundtrip:
  assumes "header_size \<le> len" "len \<le> length buffer"
  shows "parse_header (write_header h buffer) len = Inr h"
  using assms by (simp add: write_header_eq parse_header_bytes)

theorem header_roundtrip_witness:
  "parse_header (write_header \<lparr>hdr_id = 0x1234, hdr_flags = 0x8180, hdr_qdcount = 1,
      hdr_ancount = 2, hdr_nscount = 0, hdr_arcount = 65535\<rparr> (replicate 20 7)) 12 =
    Inr \<lparr>hdr_id = 0x1234, hdr_flags = 0x8180, hdr_qdcount = 1,
      hdr_ancount = 2, hdr_nscount = 0, hdr_arcount = 65535\<rparr>"
  by (rule header_roundtrip) (simp_all add: header_size_def)

section \<open>Fields of the flags word\<close>

text \<open>
  What a pair of accessor and mutator promises: it reads back what was stored, it looks at no
  bit outside its mask, it changes no bit outside its mask and no other field of the header.
\<close>

locale flags_field =
  fixes msk :: u16 and get :: "MessageHeader \<Rightarrow> 'a" and put :: "'v \<Rightarrow> MessageHeader \<Rightarrow> MessageHeader"
    and val :: "'v \<Rightarrow> 'a"
  assumes get_put: "get (put v h) = val v"
    and get_local: "hdr_flags h AND msk = hdr_flags h' AND msk \<Longrightarrow> get h = get h'"
    and put_local: "hdr_flags (put v h) AND NOT msk = hdr_flags h AND NOT msk"
    and put_frame: "(put v h)\<lparr>hdr_flags := 0\<rparr> = h\<lparr>hdr_flags := 0\<rparr>"
begin

text \<open>Whatever another field stores, this one keeps its value, and the counters theirs.\<close>

lemma kept_by: "hdr_flags h' AND NOT m = hdr_flags h AND NOT m \<Longrightarrow> msk AND m = 0 \<Longrightarrow> get h' = get h"
proof (rule get_local)
  assume eq: "hdr_flags h' AND NOT m = hdr_flags h AND NOT m" and "msk AND m = 0"
  then have "msk = NOT m AND msk"
    by (intro bit_word_eqI) (auto simp: bit_simps bit_eq_iff)
  with eq show "hdr_flags h' AND msk = hdr_flags h AND msk" by (metis and.assoc)
qed

lemma put_counts:
  "hdr_id (put v h) = hdr_id h" "hdr_qdcount (put v h) = hdr_qdcount h"
  "hdr_ancount (put v h) = hdr_ancount h" "hdr_nscount (put v h) = hdr_nscount h"
  "hdr_arcount (put v h) = hdr_arcount h"
  using put_frame [of v h] by (cases "put v h"; cases h; simp)+

end

lemma and_push_bit_one: "(w :: u16) AND push_bit n 1 \<noteq> 0 \<longleftrightarrow> bit w n"
  by (simp add: push_bit_of_1 and_exp_eq_0_iff_not_bit)

lemma put_flag_field:
  assumes "n < 16"
  shows "flags_field (push_bit n 1) (\<lambda>h. hdr_flags h AND push_bit n 1 \<noteq> 0) (put_flag n) (\<lambda>b. b)"
proof
  fix v h
  show "(hdr_flags (put_flag n v h) AND push_bit n 1 \<noteq> 0) = v"
    using assms unfolding and_push_bit_one by (auto simp: put_flag_def Let_def bit_simps)
  show "hdr_flags (put_flag n v h) AND NOT (push_bit n 1) = hdr_flags h AND NOT (push_bit n 1)"
    by (rule bit_word_eqI) (auto simp: put_flag_def Let_def bit_simps)
qed (auto simp: put_flag_def Let_def)

lemma flag_functions:
  "GetQr = (\<lambda>h. hdr_flags h AND push_bit 15 1 \<noteq> 0)" "SetQr = put_flag 15"
  "GetAa = (\<lambda>h. hdr_flags h AND push_bit 10 1 \<noteq> 0)" "SetAa = put_flag 10"
  "GetTc = (\<lambda>h. hdr_flags h AND push_bit 9 1 \<noteq> 0)" "SetTc = put_flag 9"
  "GetRa = (\<lambda>h. hdr_flags h AND push_bit 7 1 \<noteq> 0)" "SetRa = put_flag 7"
  by (auto simp: fun_eq_iff GetQr_def SetQr_def GetAa_def SetAa_def GetTc_def SetTc_def
      GetRa_def SetRa_def)

interpretation qr: flags_field "push_bit 15 1" GetQr SetQr "\<lambda>b. b"
  unfolding flag_functions by (rule put_flag_field) simp

interpretation aa: flags_field "push_bit 10 1" GetAa SetAa "\<lambda>b. b"
  unfolding flag_functions by (rule put_flag_field) simp

interpretation tc: flags_field "push_bit 9 1" GetTc SetTc "\<lambda>b. b"
  unfolding flag_functions by (rule put_flag_field) simp

interpretation ra: flags_field "push_bit 7 1" GetRa SetRa "\<lambda>b. b"
  unfolding flag_functions by (rule put_flag_field) simp

text \<open>The two fields of four bits: they keep the low four bits of what is stored.\<close>

lemma nibble: "(0xF :: u16) = mask 4" "(0xF :: byte) = mask 4"
  by (simp_all add: mask_eq_exp_minus_1)

interpretation opcode: flags_field "push_bit 11 0xF" GetOpcode SetOpcode "\<lambda>v. v AND 0xF"
proof
  fix v h
  show "GetOpcode (SetOpcode v h) = v AND 0xF"
    unfolding GetOpcode_def SetOpcode_def nibble by (rule bit_word_eqI) (auto simp: bit_simps)
  show "hdr_flags (SetOpcode v h) AND NOT (push_bit 11 0xF) = hdr_flags h AND NOT (push_bit 11 0xF)"
    unfolding SetOpcode_def nibble by (rule bit_word_eqI) (auto simp: bit_simps)
next
  fix h h' :: MessageHeader
  assume "hdr_flags h AND push_bit 11 0xF = hdr_flags h' AND push_bit 11 0xF"
  moreover have "drop_bit 11 w AND 0xF = drop_bit 11 (w AND push_bit 11 0xF)" for w :: u16
    unfolding nibble by (rule bit_word_eqI) (auto simp: bit_simps)
  ultimately show "GetOpcode h = GetOpcode h'" by (simp only: GetOpcode_def)
qed (auto simp: SetOpcode_def)

interpretation rcode: flags_field "0xF" GetRcode SetRcode rcode_value
proof
  fix v h
  have "GetRcode (SetRcode v h) = rcode_value v AND 0xF"
    unfolding GetRcode_def SetRcode_def nibble by (rule bit_word_eqI) (auto simp: bit_simps)
  then show "GetRcode (SetRcode v h) = rcode_value v" by (cases v) simp_all
  show "hdr_flags (SetRcode v h) AND NOT 0xF = hdr_flags h AND NOT 0xF"
    unfolding SetRcode_def nibble by (rule bit_word_eqI) (auto simp: bit_simps)
qed (auto simp: SetRcode_def GetRcode_def)

text \<open>Setting a counter leaves the flags alone, so every accessor reads what it read.\<close>

lemma flags_of_counts [simp]:
  "GetQr (h\<lparr>hdr_qdcount := v\<rparr>) = GetQr h" "GetQr (h\<lparr>hdr_ancount := v\<rparr>) = GetQr h"
  "GetQr (h\<lparr>hdr_nscount := v\<rparr>) = GetQr h" "GetQr (h\<lparr>hdr_arcount := v\<rparr>) = GetQr h"
  "GetAa (h\<lparr>hdr_qdcount := v\<rparr>) = GetAa h" "GetAa (h\<lparr>hdr_ancount := v\<rparr>) = GetAa h"
  "GetAa (h\<lparr>hdr_nscount := v\<rparr>) = GetAa h" "GetAa (h\<lparr>hdr_arcount := v\<rparr>) = GetAa h"
  "GetTc (h\<lparr>hdr_qdcount := v\<rparr>) = GetTc h" "GetTc (h\<lparr>hdr_ancount := v\<rparr>) = GetTc h"
  "GetTc (h\<lparr>hdr_nscount := v\<rparr>) = GetTc h" "GetTc (h\<lparr>hdr_arcount := v\<rparr>) = GetTc h"
  "GetRa (h\<lparr>hdr_qdcount := v\<rparr>) = GetRa h" "GetRa (h\<lparr>hdr_ancount := v\<rparr>) = GetRa h"
  "GetRa (h\<lparr>hdr_nscount := v\<rparr>) = GetRa h" "GetRa (h\<lparr>hdr_arcount := v\<rparr>) = GetRa h"
  "GetOpcode (h\<lparr>hdr_qdcount := v\<rparr>) = GetOpcode h" "GetOpcode (h\<lparr>hdr_ancount := v\<rparr>) = GetOpcode h"
  "GetOpcode (h\<lparr>hdr_nscount := v\<rparr>) = GetOpcode h" "GetOpcode (h\<lparr>hdr_arcount := v\<rparr>) = GetOpcode h"
  "GetRcode (h\<lparr>hdr_qdcount := v\<rparr>) = GetRcode h" "GetRcode (h\<lparr>hdr_ancount := v\<rparr>) = GetRcode h"
  "GetRcode (h\<lparr>hdr_nscount := v\<rparr>) = GetRcode h" "GetRcode (h\<lparr>hdr_arcount := v\<rparr>) = GetRcode h"
  by (simp_all add: GetQr_def GetAa_def GetTc_def GetRa_def GetOpcode_def GetRcode_def)

text \<open>No two of the six fields share a bit.\<close>

lemma masks_disjoint [simp]:
  "(push_bit 15 1 :: u16) AND push_bit 10 1 = 0" "(push_bit 15 1 :: u16) AND push_bit 9 1 = 0"
  "(push_bit 15 1 :: u16) AND push_bit 7 1 = 0" "(push_bit 10 1 :: u16) AND push_bit 15 1 = 0"
  "(push_bit 10 1 :: u16) AND push_bit 9 1 = 0" "(push_bit 10 1 :: u16) AND push_bit 7 1 = 0"
  "(push_bit 9 1 :: u16) AND push_bit 15 1 = 0" "(push_bit 9 1 :: u16) AND push_bit 10 1 = 0"
  "(push_bit 9 1 :: u16) AND push_bit 7 1 = 0" "(push_bit 7 1 :: u16) AND push_bit 15 1 = 0"
  "(push_bit 7 1 :: u16) AND push_bit 10 1 = 0" "(push_bit 7 1 :: u16) AND push_bit 9 1 = 0"
  "(push_bit 11 0xF :: u16) AND push_bit 15 1 = 0" "(push_bit 11 0xF :: u16) AND push_bit 10 1 = 0"
  "(push_bit 11 0xF :: u16) AND push_bit 9 1 = 0" "(push_bit 11 0xF :: u16) AND push_bit 7 1 = 0"
  "(0xF :: u16) AND push_bit 15 1 = 0" "(0xF :: u16) AND push_bit 10 1 = 0"
  "(0xF :: u16) AND push_bit 9 1 = 0" "(0xF :: u16) AND push_bit 7 1 = 0"
  "(push_bit 15 1 :: u16) AND 0xF = 0" "(push_bit 11 0xF :: u16) AND 0xF = 0"
  by simp_all

lemmas fields_kept =
  qr.kept_by [OF aa.put_local] qr.kept_by [OF tc.put_local] qr.kept_by [OF ra.put_local]
  qr.kept_by [OF rcode.put_local]
  aa.kept_by [OF qr.put_local] aa.kept_by [OF tc.put_local] aa.kept_by [OF ra.put_local]
  tc.kept_by [OF qr.put_local] tc.kept_by [OF aa.put_local] tc.kept_by [OF ra.put_local]
  ra.kept_by [OF qr.put_local] ra.kept_by [OF tc.put_local] ra.kept_by [OF aa.put_local]
  opcode.kept_by [OF qr.put_local] opcode.kept_by [OF tc.put_local]
  opcode.kept_by [OF aa.put_local] opcode.kept_by [OF ra.put_local] opcode.kept_by [OF rcode.put_local]
  rcode.kept_by [OF qr.put_local] rcode.kept_by [OF tc.put_local]
  rcode.kept_by [OF aa.put_local] rcode.kept_by [OF ra.put_local]

lemmas fields_stored = qr.get_put aa.get_put tc.get_put ra.get_put opcode.get_put rcode.get_put

lemmas counts_kept = qr.put_counts aa.put_counts tc.put_counts ra.put_counts
  opcode.put_counts rcode.put_counts

end
