(* ===== verification/DnsFragments.thy ===== *)
theory DnsFragments
  imports Prelude
begin

text \<open>
  Domain names as dotted text and as lists of labels: \<open>ToFraments\<close> of
  \<open>src/dnsd/Message.h\<close>, the reference function that joins labels with dots, and the laws
  between the two.
\<close>

section \<open>Splitting\<close>

text \<open>
  The loop finds the next dot, pushes what lies before it, and continues behind the dot
  if there is one. A trailing dot therefore leaves no empty fragment.
\<close>

function ToFraments :: "bytes \<Rightarrow> bytes list" where
  "ToFraments [] = []"
| "ToFraments (c # cs) =
     takeWhile (\<lambda>x. x \<noteq> dot) (c # cs) # ToFraments (tl (dropWhile (\<lambda>x. x \<noteq> dot) (c # cs)))"
  by pat_completeness auto
termination
proof (relation "measure length")
  fix c and cs :: bytes
  have "length (dropWhile (\<lambda>x. x \<noteq> dot) (c # cs)) \<le> Suc (length cs)"
    using length_dropWhile_le [of "\<lambda>x. x \<noteq> dot" "c # cs"] by simp
  then show "(tl (dropWhile (\<lambda>x. x \<noteq> dot) (c # cs)), c # cs) \<in> measure length"
    by (cases "dropWhile (\<lambda>x. x \<noteq> dot) (c # cs)") auto
qed simp

section \<open>Joining\<close>

text \<open>The text the program itself builds from labels: each further label after a dot.\<close>

fun join_dots :: "bytes list \<Rightarrow> bytes" where
  "join_dots [] = []"
| "join_dots (f # fs) = f @ concat (map (\<lambda>g. dot # g) fs)"

definition dot_free :: "bytes \<Rightarrow> bool" where
  "dot_free f \<longleftrightarrow> dot \<notin> set f"

section \<open>Laws\<close>

lemma takeWhile_dot_free [simp]:
  "dot_free f \<Longrightarrow> takeWhile (\<lambda>x. x \<noteq> dot) (f @ dot # s) = f"
  by (induction f) (auto simp: dot_free_def)

lemma dropWhile_dot_free [simp]:
  "dot_free f \<Longrightarrow> dropWhile (\<lambda>x. x \<noteq> dot) (f @ dot # s) = dot # s"
  by (induction f) (auto simp: dot_free_def)

lemma ToFraments_dot: "dot_free f \<Longrightarrow> ToFraments (f @ dot # s) = f # ToFraments s"
  by (cases f) (auto simp: dot_free_def)

lemma ToFraments_last:
  assumes "dot_free f" "f \<noteq> []"
  shows "ToFraments f = [f]"
proof -
  have "takeWhile (\<lambda>x. x \<noteq> dot) f = f" "dropWhile (\<lambda>x. x \<noteq> dot) f = []"
    using assms(1) by (auto simp: dot_free_def takeWhile_eq_all_conv dropWhile_eq_Nil_conv)
  with assms(2) show ?thesis by (cases f) auto
qed

lemma join_dots_Cons: "fs \<noteq> [] \<Longrightarrow> join_dots (f # fs) = f @ dot # join_dots fs"
  by (cases fs) auto

lemma join_dots_eq_Nil: "join_dots fs = [] \<longleftrightarrow> fs = [] \<or> fs = [[]]"
  by (cases fs rule: remdups_adj.cases) auto

lemma ToFraments_fragments_dot_free: "f \<in> set (ToFraments s) \<Longrightarrow> dot_free f"
proof (induction s rule: ToFraments.induct)
  case (2 c cs)
  then show ?case
    by (auto simp: dot_free_def dest: set_takeWhileD split: if_splits)
qed simp

lemma ToFraments_join:
  assumes "\<forall>f \<in> set fs. dot_free f" "fs \<noteq> [] \<Longrightarrow> last fs \<noteq> []"
  shows "ToFraments (join_dots fs) = fs"
  using assms
proof (induction fs)
  case (Cons f fs)
  show ?case
  proof (cases "fs = []")
    case True
    with Cons.prems show ?thesis by (simp add: ToFraments_last)
  next
    case False
    with Cons show ?thesis by (simp add: join_dots_Cons ToFraments_dot del: join_dots.simps)
  qed
qed simp

lemma ToFraments_join_trailing:
  assumes "\<forall>f \<in> set fs. dot_free f" "fs \<noteq> []"
  shows "ToFraments (join_dots fs @ [dot]) = fs"
  using assms
proof (induction fs)
  case (Cons f fs)
  show ?case
  proof (cases "fs = []")
    case True
    with Cons.prems ToFraments_dot [of f "[]"] show ?thesis by simp
  next
    case False
    with Cons show ?thesis by (simp add: join_dots_Cons ToFraments_dot del: join_dots.simps)
  qed
qed simp

text \<open>
  Splitting a dotted name into fragments inverts joining labels with dots, with or
  without a trailing dot, for labels that hold no dot and a last label that is not empty.
\<close>

theorem ToFraments_inverts_join:
  assumes "\<forall>f \<in> set fs. dot_free f" "fs \<noteq> []" "last fs \<noteq> []"
  shows "ToFraments (join_dots fs) = fs \<and> ToFraments (join_dots fs @ [dot]) = fs"
  using assms by (simp add: ToFraments_join ToFraments_join_trailing)

theorem ToFraments_inverts_join_witness:
  "ToFraments (join_dots [[119], [], [99, 111]]) = [[119], [], [99, 111]] \<and>
   ToFraments (join_dots [[119], [], [99, 111]] @ [dot]) = [[119], [], [99, 111]]"
  by (rule ToFraments_inverts_join) (auto simp: dot_free_def dot_def)

end
