(* ===== verification/DnsLabels.thy ===== *)
theory DnsLabels
  imports DnsHeader DnsFragments
begin

text \<open>
  Parsing the name and the fixed fields of a question: classes \<open>LabelHeader\<close> and
  \<open>Question\<close> of \<open>src/dnsd/Message.h\<close>. The query lies at the start of a memory block that
  is larger than the query, and the code reads it through pointers; a pointer is an offset
  into the block. A label is a \<open>string_ref\<close>: the offset of its first byte and its length.
\<close>

section \<open>State\<close>

type_synonym string_ref = "nat \<times> nat"

definition ref_begin :: "string_ref \<Rightarrow> nat" where
  "ref_begin r = fst r"

definition ref_end :: "string_ref \<Rightarrow> nat" where
  "ref_end r = fst r + snd r"

definition ref_bytes :: "bytes \<Rightarrow> string_ref \<Rightarrow> bytes" where
  "ref_bytes mem r = segment mem (fst r) (snd r)"

text \<open>
  The members of a \<open>LabelHeader\<close> under construction: \<open>names_\<close>, \<open>size_\<close> and
  \<open>buffer_size_\<close>, with the shared list of known labels.
\<close>

record label_state =
  lh_known :: "string_ref list"
  lh_names :: "string_ref list"
  lh_size :: nat
  lh_buffer_size :: nat

text \<open>
  The byte order of the host decides what \<open>*reinterpret_cast<const uint16_t *>(p)\<close> reads
  when no \<open>ntohs\<close> follows.
\<close>

datatype endian = Little | Big

fun load_u16 :: "endian \<Rightarrow> byte \<Rightarrow> byte \<Rightarrow> u16" where
  "load_u16 Big b0 b1 = ntohs_bytes b0 b1"
| "load_u16 Little b0 b1 = ntohs_bytes b1 b0"

definition read_byte :: "bytes \<Rightarrow> nat \<Rightarrow> byte res" where
  "read_byte mem p = (if p < length mem then Inr (mem ! p) else Inl UndefinedBehaviour)"

section \<open>LabelHeader\<close>

text \<open>\<open>FindPointer\<close>: the first known label whose text begins at the address.\<close>

fun FindPointer :: "nat \<Rightarrow> string_ref list \<Rightarrow> string_ref res" where
  "FindPointer key [] = Inl IllegalPointereException"
| "FindPointer key (v # vs) = (if ref_begin v = key then Inr v else FindPointer key vs)"

definition ValidateSize :: "label_state \<Rightarrow> unit res" where
  "ValidateSize s = (if 255 < lh_size s then Inl LabelHeaderException else Inr ())"

text \<open>
  One round of the constructor's \<open>while(true)\<close> at position \<open>p\<close>. The result is the state
  when the round ends the loop, or the state and the position and mode the next round
  starts with. \<open>label_ok\<close> is the match against the static regular expression.
\<close>

definition root_round :: "bool \<Rightarrow> label_state \<Rightarrow> label_state res" where
  "root_round trav s =
     (let s1 = s\<lparr>lh_size := lh_size s + 1,
                 lh_buffer_size := lh_buffer_size s + (if trav then 0 else 1)\<rparr>
      in rbind (ValidateSize s1) (\<lambda>_.
         if lh_names s1 = [] then Inl NoLabelsException else Inr s1))"

definition label_round ::
  "(bytes \<Rightarrow> bool) \<Rightarrow> bytes \<Rightarrow> nat \<Rightarrow> nat \<Rightarrow> nat \<Rightarrow> bool \<Rightarrow> label_state \<Rightarrow>
     (nat \<times> label_state) res" where
  "label_round label_ok mem limit len p trav s =
     (let label_end = p + 1 + len
      in if limit < label_end then Inl LabelHeaderException
         else let s1 = s\<lparr>lh_size := lh_size s + len\<rparr>
         in rbind (ValidateSize s1) (\<lambda>_.
            let label = (p + 1, len);
                s2 = (if trav then s1
                      else s1\<lparr>lh_buffer_size := lh_buffer_size s1 + (len + 1),
                              lh_known := lh_known s1 @ [label]\<rparr>);
                s3 = s2\<lparr>lh_names := lh_names s2 @ [label]\<rparr>
            in if label_ok (ref_bytes mem label) then Inr (label_end, s3)
               else Inl IllegalLabelException))"

definition pointer_round ::
  "endian \<Rightarrow> bytes \<Rightarrow> nat \<Rightarrow> nat \<Rightarrow> bool \<Rightarrow> label_state \<Rightarrow> (nat \<times> label_state) res" where
  "pointer_round e mem limit p trav s =
     (if limit \<le> p + 1 then Inl LabelHeaderException
      else let s1 = s\<lparr>lh_size := lh_size s + 2\<rparr>
      in rbind (ValidateSize s1) (\<lambda>_.
         let s2 = s1\<lparr>lh_buffer_size := lh_buffer_size s1 + (if trav then 0 else 2)\<rparr>
         in rbind (read_byte mem p) (\<lambda>b0. rbind (read_byte mem (p + 1)) (\<lambda>b1.
            rbind (FindPointer (unat (load_u16 e b0 b1 AND NOT 0xC000)) (lh_known s2)) (\<lambda>r.
              Inr (ref_end r, s2\<lparr>lh_names := lh_names s2 @ [r]\<rparr>))))))"

lemma label_round_size:
  "label_round ok mem limit len p trav s = Inr (p', s') \<Longrightarrow>
     lh_size s' = lh_size s + len \<and> lh_size s' \<le> 255"
  by (auto simp: label_round_def ValidateSize_def Let_def split: if_splits)

lemma pointer_round_size:
  "pointer_round e mem limit p trav s = Inr (p', s') \<Longrightarrow>
     lh_size s' = lh_size s + 2 \<and> lh_size s' \<le> 255"
  by (auto simp: pointer_round_def ValidateSize_def Let_def split: if_splits)

text \<open>
  The loop. It ends because every round that goes on adds at least one to \<open>size_\<close>, which
  \<open>ValidateSize\<close> keeps within 255.
\<close>

function label_loop ::
  "endian \<Rightarrow> (bytes \<Rightarrow> bool) \<Rightarrow> bytes \<Rightarrow> nat \<Rightarrow> nat \<Rightarrow> bool \<Rightarrow> label_state \<Rightarrow> label_state res" where
  "label_loop e ok mem limit p trav s =
     (if length mem \<le> p then Inl UndefinedBehaviour
      else let len = unat (mem ! p)
      in if len = 0 then root_round trav s
         else if len < 64 then
           (case label_round ok mem limit len p trav s of
              Inl x \<Rightarrow> Inl x
            | Inr (p', s') \<Rightarrow> label_loop e ok mem limit p' trav s')
         else if mem ! p AND 0xC0 = 0xC0 then
           (case pointer_round e mem limit p trav s of
              Inl x \<Rightarrow> Inl x
            | Inr (p', s') \<Rightarrow> label_loop e ok mem limit p' True s')
         else Inl LabelHeaderException)"
  by pat_completeness auto
termination
  by (relation "measure (\<lambda>(e, ok, mem, limit, p, trav, s). 256 - lh_size s)")
     (auto dest!: label_round_size pointer_round_size)

declare label_loop.simps [simp del]

text \<open>
  The constructor: \<open>p\<close> is the start of the segment, \<open>sz\<close> its length, \<open>known\<close> the labels
  of the earlier questions.
\<close>

definition LabelHeader ::
  "endian \<Rightarrow> (bytes \<Rightarrow> bool) \<Rightarrow> bytes \<Rightarrow> nat \<Rightarrow> nat \<Rightarrow> string_ref list \<Rightarrow> label_state res" where
  "LabelHeader e ok mem p sz known =
     (if sz < 1 then Inl LabelHeaderException
      else label_loop e ok mem (p + sz) p False
             \<lparr>lh_known = known, lh_names = [], lh_size = 0, lh_buffer_size = 0\<rparr>)"

section \<open>Question\<close>

record Question =
  q_labels :: "bytes list"
  q_size :: nat
  q_qtype :: u16
  q_qclass :: u16
  q_offset :: u16

definition GetQuestionDomainName :: "Question \<Rightarrow> bytes" where
  "GetQuestionDomainName q = join_dots (q_labels q)"

text \<open>
  The constructor parses the labels, checks that four bytes follow and reads them. It
  returns the question with the extended list of known labels.
\<close>

definition parse_question ::
  "endian \<Rightarrow> (bytes \<Rightarrow> bool) \<Rightarrow> bytes \<Rightarrow> nat \<Rightarrow> nat \<Rightarrow> string_ref list \<Rightarrow> u16 \<Rightarrow>
     (Question \<times> string_ref list) res" where
  "parse_question e ok mem p sz known offset =
     rbind (LabelHeader e ok mem p sz known) (\<lambda>lh.
       let start = p + lh_buffer_size lh
       in if p + sz < start + 4 then Inl QuestionHeaderException
          else rbind (u16_at mem start) (\<lambda>qtype. rbind (u16_at mem (start + 2)) (\<lambda>qclass.
            Inr (\<lparr>q_labels = map (ref_bytes mem) (lh_names lh), q_size = lh_buffer_size lh + 4,
                  q_qtype = qtype, q_qclass = qclass, q_offset = offset\<rparr>, lh_known lh))))"

section \<open>The reference encoding of a name\<close>

text \<open>RFC 1035, 3.1: each label behind its length, and a zero byte at the end.\<close>

definition wire_label :: "bytes \<Rightarrow> bytes" where
  "wire_label f = of_nat (length f) # f"

definition wire_name :: "bytes list \<Rightarrow> bytes" where
  "wire_name fs = concat (map wire_label fs) @ [0]"

definition label_size_ok :: "bytes \<Rightarrow> bool" where
  "label_size_ok f \<longleftrightarrow> f \<noteq> [] \<and> length f < 64"

fun refs_at :: "nat \<Rightarrow> bytes list \<Rightarrow> string_ref list" where
  "refs_at p [] = []"
| "refs_at p (f # fs) = (p + 1, length f) # refs_at (p + 1 + length f) fs"

definition text_size :: "bytes list \<Rightarrow> nat" where
  "text_size fs = sum_list (map length fs)"

lemma wire_name_simps [simp]:
  "wire_name [] = [0]"
  "wire_name (f # fs) = of_nat (length f) # f @ wire_name fs"
  by (simp_all add: wire_name_def wire_label_def)

lemma text_size_simps [simp]: "text_size [] = 0" "text_size (f # fs) = length f + text_size fs"
  by (simp_all add: text_size_def)

lemma length_wire_name: "length (wire_name fs) = text_size fs + length fs + 1"
  by (induction fs) auto

text \<open>The name \<open>fs\<close> lies in memory at \<open>p\<close>, uncompressed.\<close>

definition wire_at :: "bytes \<Rightarrow> nat \<Rightarrow> bytes list \<Rightarrow> bool" where
  "wire_at mem p fs \<longleftrightarrow>
     p + length (wire_name fs) \<le> length mem \<and> segment mem p (length (wire_name fs)) = wire_name fs"

lemma segment_Cons:
  "p < length mem \<Longrightarrow> segment mem p (Suc n) = mem ! p # segment mem (Suc p) n"
  by (simp add: segment_def Cons_nth_drop_Suc [symmetric])

lemma segment_add: "segment mem p (m + n) = segment mem p m @ segment mem (p + m) n"
  by (simp add: segment_def take_add add.commute)

lemma wire_at_Nil [simp]: "wire_at mem p [] \<longleftrightarrow> p < length mem \<and> mem ! p = 0"
  by (auto simp: wire_at_def segment_Cons Suc_le_eq) (simp_all add: segment_def)

lemma wire_at_Cons [simp]:
  "wire_at mem p (f # fs) \<longleftrightarrow>
     p < length mem \<and> mem ! p = of_nat (length f) \<and> segment mem (p + 1) (length f) = f \<and>
     wire_at mem (p + 1 + length f) fs"
proof (cases "p < length mem")
  case True
  have "segment mem (Suc p) (length f + length (wire_name fs)) = f @ wire_name fs \<longleftrightarrow>
      segment mem (Suc p) (length f) = f \<and>
      segment mem (Suc (p + length f)) (length (wire_name fs)) = wire_name fs"
    if "Suc (p + length f) \<le> length mem"
    using that by (simp add: segment_add append_eq_append_conv)
  with True show ?thesis
    by (auto simp: wire_at_def segment_Cons add.assoc)
qed (simp add: wire_at_def)

lemma unat_of_label_length: "length f < 64 \<Longrightarrow> unat (of_nat (length f) :: byte) = length f"
  by (simp add: unat_of_nat take_bit_eq_mod)

section \<open>What the parser accepts\<close>

definition advance :: "label_state \<Rightarrow> nat \<Rightarrow> bytes list \<Rightarrow> label_state" where
  "advance s p fs = s\<lparr>lh_known := lh_known s @ refs_at p fs, lh_names := lh_names s @ refs_at p fs,
     lh_size := lh_size s + text_size fs + 1,
     lh_buffer_size := lh_buffer_size s + length (wire_name fs)\<rparr>"

definition after_label :: "label_state \<Rightarrow> nat \<Rightarrow> nat \<Rightarrow> label_state" where
  "after_label s p len = s\<lparr>lh_known := lh_known s @ [(p + 1, len)], lh_names := lh_names s @ [(p + 1, len)],
     lh_size := lh_size s + len, lh_buffer_size := lh_buffer_size s + (len + 1)\<rparr>"

lemma advance_Cons:
  "advance (after_label s p (length f)) (p + 1 + length f) fs = advance s p (f # fs)"
  by (simp add: advance_def after_label_def)

definition acceptable :: "(bytes \<Rightarrow> bool) \<Rightarrow> bytes list \<Rightarrow> bool" where
  "acceptable ok fs \<longleftrightarrow> (\<forall>f \<in> set fs. label_size_ok f \<and> ok f)"

lemma label_loop_accepts:
  assumes "wire_at mem p fs" "acceptable ok fs" "p + length (wire_name fs) \<le> limit + 1"
    and "lh_size s + text_size fs + 1 \<le> 255" "lh_names s \<noteq> [] \<or> fs \<noteq> []"
  shows "label_loop e ok mem limit p False s = Inr (advance s p fs)"
  using assms
proof (induction fs arbitrary: p s)
  case Nil
  then show ?case
    by (subst label_loop.simps) (simp add: root_round_def ValidateSize_def advance_def)
next
  case (Cons f fs)
  let ?s = "after_label s p (length f)"
  from Cons.prems have f: "length f < 64" "f \<noteq> []" "ok f" and len: "unat (mem ! p) = length f"
    by (auto simp: acceptable_def label_size_ok_def unat_of_label_length)
  from Cons.prems have "label_round ok mem limit (length f) p False s = Inr (p + 1 + length f, ?s)"
    using f by (simp add: label_round_def ValidateSize_def ref_bytes_def length_wire_name after_label_def Let_def)
  moreover from Cons.prems
  have "label_loop e ok mem limit (p + 1 + length f) False ?s = Inr (advance ?s (p + 1 + length f) fs)"
    by (intro Cons.IH) (auto simp: acceptable_def after_label_def)
  ultimately show ?case
    using Cons.prems f len
    by (subst label_loop.simps) (simp add: advance_Cons [simplified] Let_def)
qed

text \<open>
  The positions the parser passes when it steps over labels. From every one of them the
  walk leads to the same pointer, if it meets one.
\<close>

inductive chain :: "bytes \<Rightarrow> nat \<Rightarrow> nat \<Rightarrow> bool" for mem where
  chain_refl: "chain mem p p"
| chain_step: "\<lbrakk> p < length mem; 0 < unat (mem ! p); unat (mem ! p) < 64;
      chain mem (p + 1 + unat (mem ! p)) q \<rbrakk> \<Longrightarrow> chain mem p q"

lemma chain_one:
  "p < length mem \<Longrightarrow> 0 < unat (mem ! p) \<Longrightarrow> unat (mem ! p) < 64 \<Longrightarrow>
     chain mem p (p + 1 + unat (mem ! p))"
  by (rule chain.chain_step [OF _ _ _ chain.chain_refl])

lemma chain_trans: "chain mem p q \<Longrightarrow> chain mem q r \<Longrightarrow> chain mem p r"
  by (induction rule: chain.induct) (auto intro: chain.intros)

lemma chain_linear: "chain mem p x \<Longrightarrow> chain mem p y \<Longrightarrow> chain mem x y \<or> chain mem y x"
proof (induction rule: chain.induct)
  case (chain_step p q)
  from chain_step.prems chain_step.hyps chain_step.IH show ?case
    by (cases rule: chain.cases) (auto intro: chain.chain_step)
qed simp

lemma chain_stuck:
  assumes "chain mem x q" "64 \<le> unat (mem ! x)"
  shows "q = x"
  using assms by (cases rule: chain.cases) auto

definition known_on :: "bytes \<Rightarrow> nat \<Rightarrow> string_ref list \<Rightarrow> bool" where
  "known_on mem p known \<longleftrightarrow> (\<forall>r \<in> set known. chain mem p (ref_end r))"

lemma FindPointer_known: "FindPointer key known = Inr r \<Longrightarrow> r \<in> set known"
  by (induction known) (auto split: if_splits)

lemma label_round_Inr:
  assumes "label_round ok mem limit len p trav s = Inr (p', s')"
  shows "p' = p + 1 + len \<and> p' \<le> limit \<and> ok (ref_bytes mem (p + 1, len)) \<and>
    lh_size s' = lh_size s + len \<and> lh_names s' = lh_names s @ [(p + 1, len)] \<and>
    lh_known s' = lh_known s @ (if trav then [] else [(p + 1, len)]) \<and>
    lh_buffer_size s' = lh_buffer_size s + (if trav then 0 else len + 1)"
  using assms by (auto simp: label_round_def ValidateSize_def Let_def split: if_splits)

lemma label_round_False:
  assumes "label_round ok mem limit len p False s = Inr (p', s')"
  shows "s' = after_label s p len"
  using assms
  by (auto simp: label_round_def ValidateSize_def after_label_def Let_def split: if_splits)

lemma pointer_round_Inr:
  assumes "pointer_round e mem limit p trav s = Inr (p', s')"
  shows "\<exists>r \<in> set (lh_known s). p' = ref_end r \<and> lh_known s' = lh_known s"
  using assms
  by (auto simp: pointer_round_def ValidateSize_def Let_def split: if_splits dest: FindPointer_known)

lemma trapped:
  assumes "label_loop e ok mem limit p trav s = Inr s'" "trav"
    and "chain mem p q" "64 \<le> unat (mem ! q)" "chain mem p0 q" "known_on mem p0 (lh_known s)"
  shows False
  using assms
proof (induction e ok mem limit p trav s rule: label_loop.induct)
  case (1 e ok mem limit p trav s)
  let ?len = "unat (mem ! p)"
  from "1.prems"(1) have p: "\<not> length mem \<le> p"
    by (subst (asm) label_loop.simps) (auto split: if_splits)
  have nonzero: "?len \<noteq> 0"
    using "1.prems"(3,4) by (cases rule: chain.cases) auto
  show False
  proof (cases "?len < 64")
    case True
    with "1.prems"(1) p nonzero obtain p' s1
      where r: "label_round ok mem limit ?len p trav s = Inr (p', s1)"
        and l: "label_loop e ok mem limit p' trav s1 = Inr s'"
      by (subst (asm) label_loop.simps) (auto simp: Let_def split: sum.splits)
    from label_round_Inr [OF r] "1.prems"(2)
    have "p' = p + 1 + ?len" "lh_known s1 = lh_known s" by simp_all
    moreover from "1.prems"(3,4) True have "chain mem (p + 1 + ?len) q"
      by (cases rule: chain.cases) auto
    ultimately show False
      using "1.IH"(1) [OF p refl nonzero True r refl l] "1.prems" by simp
  next
    case False
    with "1.prems"(1) p nonzero obtain p' s1
      where pt: "mem ! p AND 0xC0 = 0xC0"
        and r: "pointer_round e mem limit p trav s = Inr (p', s1)"
        and l: "label_loop e ok mem limit p' True s1 = Inr s'"
      by (subst (asm) label_loop.simps) (auto simp: Let_def split: sum.splits if_splits)
    from False "1.prems"(3) have "q = p" by (intro chain_stuck) auto
    from pointer_round_Inr [OF r] "1.prems"(6)
    have on: "chain mem p0 p'" "known_on mem p0 (lh_known s1)" by (auto simp: known_on_def)
    from chain_linear [OF on(1) "1.prems"(5)] \<open>q = p\<close> False have "chain mem p' q"
      by (metis chain_refl chain_stuck not_less)
    with "1.IH"(2) [OF p refl nonzero False pt r refl l] on "1.prems" show False by simp
  qed
qed

lemma label_loop_only:
  assumes "label_loop e ok mem limit p False s = Inr s'"
    and "known_on mem p0 (lh_known s)" "chain mem p0 p" "p \<le> limit"
  shows "\<exists>fs. wire_at mem p fs \<and> acceptable ok fs \<and> p + length (wire_name fs) \<le> limit + 1 \<and>
    lh_size s + text_size fs + 1 \<le> 255 \<and> (lh_names s \<noteq> [] \<or> fs \<noteq> []) \<and> s' = advance s p fs"
  using assms
proof (induction e ok mem limit p "False" s rule: label_loop.induct)
  case (1 e ok mem limit p s)
  let ?len = "unat (mem ! p)"
  from "1.prems"(1) have p: "\<not> length mem \<le> p"
    by (subst (asm) label_loop.simps) (auto split: if_splits)
  consider "?len = 0" | "?len \<noteq> 0" "?len < 64" | "\<not> ?len < 64" by linarith
  then show ?case
  proof cases
    assume 0: "?len = 0"
    with "1.prems"(1) p have "root_round False s = Inr s'"
      by (subst (asm) label_loop.simps) simp
    with "1.prems"(4) p 0 show ?thesis
      by (intro exI [of _ "[]"])
         (simp add: root_round_def ValidateSize_def advance_def acceptable_def unat_eq_0 Let_def
            split: if_splits)
  next
    assume small: "?len \<noteq> 0" "?len < 64"
    with "1.prems"(1) p obtain p' s1
      where r: "label_round ok mem limit ?len p False s = Inr (p', s1)"
        and l: "label_loop e ok mem limit p' False s1 = Inr s'"
      by (subst (asm) label_loop.simps) (auto simp: Let_def split: sum.splits)
    note rr = label_round_Inr [OF r]
    have step: "chain mem p (p + 1 + ?len)"
      using p small by (intro chain_one) simp_all
    have ch: "chain mem p0 p'"
      using chain_trans [OF "1.prems"(3) step] rr by simp
    have kn: "known_on mem p0 (lh_known s1)"
      using rr "1.prems"(2) ch by (auto simp: known_on_def ref_end_def)
    have "p' \<le> limit" using rr by blast
    from "1.hyps"(1) [OF p refl small r refl l kn ch this] obtain fs
      where fs: "wire_at mem p' fs" "acceptable ok fs" "p' + length (wire_name fs) \<le> limit + 1"
        "lh_size s1 + text_size fs + 1 \<le> 255" "s' = advance s1 p' fs"
      by blast
    let ?f = "ref_bytes mem (p + 1, ?len)"
    have "p' < length mem" using fs(1) by (auto simp: wire_at_def length_wire_name)
    then have f: "length ?f = ?len" using rr by (simp add: ref_bytes_def)
    with small have "label_size_ok ?f" by (auto simp: label_size_ok_def)
    moreover have "mem ! p = of_nat (length ?f)" using f by simp
    moreover have "segment mem (p + 1) (length ?f) = ?f" using f by (simp add: ref_bytes_def)
    moreover have "s' = advance s p (?f # fs)"
      using fs(5) label_round_False [OF r] rr f advance_Cons [of s p ?f fs] by simp
    moreover have "lh_size s1 = lh_size s + length ?f" "p' = p + 1 + length ?f" using rr f by auto
    ultimately have "wire_at mem p (?f # fs)" "acceptable ok (?f # fs)"
        "p + length (wire_name (?f # fs)) \<le> limit + 1"
        "lh_size s + text_size (?f # fs) + 1 \<le> 255" "s' = advance s p (?f # fs)"
      using rr fs(1-4) p by (simp_all add: acceptable_def)
    then show ?thesis by blast
  next
    assume big: "\<not> ?len < 64"
    then have nz: "?len \<noteq> 0" by simp
    with "1.prems"(1) p big obtain p' s1
      where r: "pointer_round e mem limit p False s = Inr (p', s1)"
        and l: "label_loop e ok mem limit p' True s1 = Inr s'"
      by (subst (asm) label_loop.simps) (auto simp: Let_def split: sum.splits if_splits)
    from pointer_round_Inr [OF r] "1.prems"(2)
    have on: "chain mem p0 p'" "known_on mem p0 (lh_known s1)" by (auto simp: known_on_def)
    from chain_linear [OF on(1) "1.prems"(3)] big have "chain mem p' p"
      by (metis chain_refl chain_stuck not_less)
    with trapped [OF l _ _ _ "1.prems"(3) on(2)] big have False by simp
    then show ?thesis ..
  qed
qed

text \<open>
  C21: the label parser accepts exactly the uncompressed names. When the labels it knows were
  read from the same place (as they are in a query, whose questions are all read from the
  first one's position), it succeeds if and only if an uncompressed name of allowed labels
  lies there, with at least one label and at most 254 bytes of label text, and then returns
  these labels and the number of bytes they take. No name with a compression pointer is
  ever accepted, on hosts of either byte order.
\<close>

theorem LabelHeader_accepts_iff:
  assumes "known_on mem p known" "0 < sz"
  shows "LabelHeader e ok mem p sz known = Inr lh \<longleftrightarrow>
    (\<exists>fs. wire_at mem p fs \<and> acceptable ok fs \<and> length (wire_name fs) \<le> sz + 1 \<and>
       text_size fs \<le> 254 \<and> fs \<noteq> [] \<and>
       lh = \<lparr>lh_known = known @ refs_at p fs, lh_names = refs_at p fs,
             lh_size = text_size fs + 1, lh_buffer_size = length (wire_name fs)\<rparr>)"
    (is "?L = (\<exists>fs. ?R fs)")
proof -
  let ?s = "\<lparr>lh_known = known, lh_names = [], lh_size = 0, lh_buffer_size = 0\<rparr>"
  have L: "?L \<longleftrightarrow> label_loop e ok mem (p + sz) p False ?s = Inr lh"
    using assms(2) by (simp add: LabelHeader_def)
  have adv: "advance ?s p fs = \<lparr>lh_known = known @ refs_at p fs, lh_names = refs_at p fs,
      lh_size = text_size fs + 1, lh_buffer_size = length (wire_name fs)\<rparr>" for fs
    by (simp add: advance_def)
  show ?thesis
  proof
    assume ?L
    from label_loop_only [OF this [unfolded L], of p] assms(1) adv show "\<exists>fs. ?R fs"
      by (simp add: chain.chain_refl)
  next
    assume "\<exists>fs. ?R fs"
    then obtain fs where "?R fs" ..
    then show ?L
      unfolding L using label_loop_accepts [of mem p fs ok "p + sz" ?s e] adv by simp
  qed
qed

lemma map_ref_bytes_refs_at:
  "wire_at mem p fs \<Longrightarrow> map (ref_bytes mem) (refs_at p fs) = fs"
  by (induction fs arbitrary: p) (auto simp: ref_bytes_def)

lemma chain_wire_at:
  "wire_at mem p fs \<Longrightarrow> \<forall>f \<in> set fs. label_size_ok f \<Longrightarrow>
     \<forall>r \<in> set (refs_at p fs). chain mem p (ref_end r)"
proof (induction fs arbitrary: p)
  case (Cons f fs)
  then have step: "chain mem p (p + 1 + length f)"
    using chain_one [of p mem] by (simp add: label_size_ok_def unat_of_label_length)
  with Cons show ?case by (auto simp: ref_end_def intro: chain_trans)
qed simp

text \<open>The labels of an accepted name are again known from the same place.\<close>

lemma known_on_accepted:
  assumes "known_on mem p known" "wire_at mem p fs" "acceptable ok fs"
  shows "known_on mem p (known @ refs_at p fs)"
  using assms chain_wire_at [of mem p fs] by (auto simp: known_on_def acceptable_def)

section \<open>Memory safety of the parser\<close>

definition known_within :: "nat \<Rightarrow> string_ref list \<Rightarrow> bool" where
  "known_within limit known \<longleftrightarrow> (\<forall>r \<in> set known. ref_end r \<le> limit)"

lemma label_round_error:
  "label_round ok mem limit len p trav s = Inl x \<Longrightarrow> x \<noteq> UndefinedBehaviour"
  by (auto simp: label_round_def ValidateSize_def rbind_eq_Inl Let_def split: if_splits)

lemma FindPointer_error: "FindPointer key known = Inl x \<Longrightarrow> x \<noteq> UndefinedBehaviour"
  by (induction known) (auto split: if_splits)

lemma pointer_round_error:
  "pointer_round e mem limit p trav s = Inl x \<Longrightarrow> limit \<le> length mem \<Longrightarrow> x \<noteq> UndefinedBehaviour"
  by (auto simp: pointer_round_def ValidateSize_def rbind_eq_Inl read_byte_def Let_def
      split: if_splits dest: FindPointer_error)

lemma root_round_error: "root_round trav s = Inl x \<Longrightarrow> x \<noteq> UndefinedBehaviour"
  by (auto simp: root_round_def ValidateSize_def rbind_eq_Inl Let_def split: if_splits)

lemma label_loop_defined:
  assumes "p \<le> limit" "limit < length mem" "known_within limit (lh_known s)"
  shows "label_loop e ok mem limit p trav s \<noteq> Inl UndefinedBehaviour"
  using assms
proof (induction e ok mem limit p trav s rule: label_loop.induct)
  case (1 e ok mem limit p trav s)
  let ?len = "unat (mem ! p)"
  from "1.prems" have p: "\<not> length mem \<le> p" by simp
  consider "?len = 0" | "?len \<noteq> 0" "?len < 64" | "?len \<noteq> 0" "\<not> ?len < 64" by linarith
  then show ?case
  proof cases
    assume "?len = 0"
    with p show ?thesis by (subst label_loop.simps) (auto dest: root_round_error)
  next
    assume len: "?len \<noteq> 0" "?len < 64"
    show ?thesis
    proof (cases "label_round ok mem limit ?len p trav s")
      case (Inl x)
      with p len show ?thesis by (subst label_loop.simps) (auto simp: Let_def dest: label_round_error)
    next
      case (Inr ps)
      obtain p' s1 where ps: "ps = (p', s1)" by (cases ps)
      from label_round_Inr [OF Inr [unfolded ps]] "1.prems"(3)
      have "p' \<le> limit" "known_within limit (lh_known s1)"
        by (auto simp: known_within_def ref_end_def)
      with "1.IH"(1) [OF p refl len Inr ps [symmetric]] "1.prems" p len Inr ps show ?thesis
        by (subst label_loop.simps) (simp add: Let_def)
    qed
  next
    assume len: "?len \<noteq> 0" "\<not> ?len < 64"
    show ?thesis
    proof (cases "mem ! p AND 0xC0 = 0xC0")
      case False
      with p len show ?thesis by (subst label_loop.simps) (simp add: Let_def)
    next
      case pt: True
      show ?thesis
      proof (cases "pointer_round e mem limit p trav s")
        case (Inl x)
        with p len pt "1.prems"(2) show ?thesis
          by (subst label_loop.simps) (auto simp: Let_def dest: pointer_round_error)
      next
        case (Inr ps)
        obtain p' s1 where ps: "ps = (p', s1)" by (cases ps)
        from pointer_round_Inr [OF Inr [unfolded ps]] "1.prems"(3)
        have "p' \<le> limit" "known_within limit (lh_known s1)"
          by (auto simp: known_within_def)
        with "1.IH"(2) [OF p refl len pt Inr ps [symmetric]] "1.prems" p len Inr ps pt show ?thesis
          by (subst label_loop.simps) (simp add: Let_def)
      qed
    qed
  qed
qed

text \<open>
  Parsing a question never reads outside the memory block when the query leaves at least
  one byte of the block unused.
\<close>

theorem parse_question_defined:
  assumes "p + sz < length mem" "known_within (p + sz) known"
  shows "parse_question e ok mem p sz known offset \<noteq> Inl UndefinedBehaviour"
proof -
  have "LabelHeader e ok mem p sz known \<noteq> Inl UndefinedBehaviour"
    using label_loop_defined [of p "p + sz" mem] assms by (simp add: LabelHeader_def)
  with assms(1) show ?thesis
    by (auto simp: parse_question_def rbind_eq_Inl u16_at_def Let_def split: if_splits)
qed

theorem parse_question_defined_witness:
  "parse_question Little (\<lambda>_. True) [1, 97, 0xC0, 1, 0, 0] 0 5 [] 12 \<noteq> Inl UndefinedBehaviour"
  by (rule parse_question_defined) (simp_all add: known_within_def)

lemma label_loop_runs_off:
  assumes "\<forall>f \<in> set fs. label_size_ok f \<and> ok f" "limit = length mem"
    and "segment mem p (length (concat (map wire_label fs))) = concat (map wire_label fs)"
    and "p + length (concat (map wire_label fs)) = length mem"
    and "lh_size s + text_size fs \<le> 255"
  shows "label_loop e ok mem limit p False s = Inl UndefinedBehaviour"
  using assms
proof (induction fs arbitrary: p s)
  case Nil
  then show ?case by (subst label_loop.simps) simp
next
  case (Cons f fs)
  let ?rest = "concat (map wire_label fs)"
  from Cons.prems(1) have f: "length f < 64" "f \<noteq> []" "ok f" by (auto simp: label_size_ok_def)
  from Cons.prems(4) have p: "p + 1 + length f + length ?rest = length mem"
    by (simp add: wire_label_def [of f])
  have "segment mem p (Suc (length f + length ?rest)) = of_nat (length f) # f @ ?rest"
    using Cons.prems(3) by (simp add: wire_label_def [of f])
  moreover have "segment mem (Suc p) (length f + length ?rest) =
      segment mem (Suc p) (length f) @ segment mem (p + 1 + length f) (length ?rest)"
    by (simp add: segment_add)
  ultimately have seg: "mem ! p = of_nat (length f)" "segment mem (Suc p) (length f) = f"
      "segment mem (p + 1 + length f) (length ?rest) = ?rest"
    using p by (auto simp: segment_Cons append_eq_append_conv)
  have "label_round ok mem limit (length f) p False s =
      Inr (p + 1 + length f, after_label s p (length f))"
    using Cons.prems(2,5) p f seg(2)
    by (simp add: label_round_def ValidateSize_def ref_bytes_def after_label_def Let_def)
  moreover have "label_loop e ok mem limit (p + 1 + length f) False (after_label s p (length f)) =
      Inl UndefinedBehaviour"
    using Cons.prems seg(3) p by (intro Cons.IH) (auto simp: after_label_def)
  ultimately show ?case
    using f p seg(1) by (subst label_loop.simps) (simp add: unat_of_label_length Let_def)
qed

text \<open>
  C38: the one byte is needed. A query that fills its buffer of 512 bytes with 250 labels of
  one allowed byte each makes the parser read behind the end of the buffer.
\<close>

theorem LabelHeader_overrun:
  assumes "length hdr = 12" "ok [c]"
  shows "LabelHeader e ok (hdr @ concat (map wire_label (replicate 250 [c]))) 12 500 [] =
     Inl UndefinedBehaviour"
proof -
  let ?fs = "replicate 250 [c]"
  let ?mem = "hdr @ concat (map wire_label ?fs)"
  have len: "length (concat (map wire_label ?fs)) = 500"
    by (simp add: length_concat wire_label_def sum_list_replicate)
  have "label_loop e ok ?mem 512 12 False
      \<lparr>lh_known = [], lh_names = [], lh_size = 0, lh_buffer_size = 0\<rparr> = Inl UndefinedBehaviour"
  proof (rule label_loop_runs_off [where fs = ?fs])
    show "\<forall>f \<in> set ?fs. label_size_ok f \<and> ok f" using assms(2) by (simp add: label_size_ok_def)
    show "512 = length ?mem" using assms(1) len by simp
    show "segment ?mem 12 (length (concat (map wire_label ?fs))) = concat (map wire_label ?fs)"
      using segment_append2 [of hdr] assms(1) by simp
    show "12 + length (concat (map wire_label ?fs)) = length ?mem" using assms(1) by simp
  qed (simp add: text_size_def sum_list_replicate)
  then show ?thesis by (simp add: LabelHeader_def)
qed

theorem LabelHeader_overrun_witness:
  "LabelHeader Little (\<lambda>_. True) (replicate 12 0 @ concat (map wire_label (replicate 250 [97]))) 12 500 [] =
     Inl UndefinedBehaviour"
  by (rule LabelHeader_overrun) simp_all

theorem LabelHeader_accepts_iff_witness:
  "LabelHeader Little (\<lambda>_. True) [1, 97, 2, 98, 99, 0] 0 6 [] =
     Inr \<lparr>lh_known = refs_at 0 [[97], [98, 99]], lh_names = refs_at 0 [[97], [98, 99]],
          lh_size = 4, lh_buffer_size = 6\<rparr>"
  by (subst LabelHeader_accepts_iff)
     (auto simp: known_on_def wire_at_def acceptable_def label_size_ok_def segment_def
       intro!: exI [of _ "[[97], [98, 99]]"])

end
