(* ===== verification/DnsCompress.thy ===== *)
theory DnsCompress
  imports DnsLabels
begin

text \<open>
  Names in the reply buffer and their compression: the label table of \<open>AnswerBase\<close> and its
  members \<open>ReverseCompare\<close>, \<open>SearchForDomainName\<close>, \<open>AddLabelForCompression\<close> and
  \<open>WriteDomainName\<close> of \<open>src/dnsd/Message.h\<close>, with the reference decoder of RFC 1035 and the
  proof that the decoder reads back what the code writes.
\<close>

section \<open>Offsets\<close>

text \<open>A table entry is an offset with its two top bits set; \<open>& ~0xC000\<close> gives the offset.\<close>

definition ofs14 :: "u16 \<Rightarrow> nat" where
  "ofs14 label = unat (label AND NOT 0xC000)"

definition is_pointer :: "byte \<Rightarrow> bool" where
  "is_pointer b \<longleftrightarrow> b AND 0xC0 = 0xC0"

section \<open>Searching the labels written before\<close>

text \<open>
  The recursion follows a name to its end and compares on the way back, last label first.
  \<open>currFrag\<close> and \<open>bestMatchedOffset\<close> are reference arguments, threaded and returned with
  the outcome. \<open>None\<close> is a read outside the buffer or a recursion without end.
\<close>

partial_function (option) ReverseCompare ::
  "bytes \<Rightarrow> bytes list \<Rightarrow> u16 \<Rightarrow> int \<Rightarrow> u16 \<Rightarrow> (bool \<times> int \<times> u16) option" where
  "ReverseCompare buf frags label currFrag best =
     (let off = ofs14 label
      in if length buf \<le> off then None
         else let len = unat (buf ! off)
         in if len = 0 then Some (True, int (length frags), best)
            else if len < 64 then
              (if length buf < off + 1 + len then None
               else Option.bind (ReverseCompare buf frags (label + of_nat len + 1) currFrag best)
                 (\<lambda>(r, cf, bm).
                   if r then
                     (if cf - 1 < 0 then Some (True, cf - 1, bm)
                      else if frags ! nat (cf - 1) = segment buf (off + 1) len
                           then Some (True, cf - 1, of_nat off)
                      else Some (False, cf, bm))
                   else Some (False, cf, bm)))
            else if is_pointer (buf ! off) then
              (if length buf \<le> off + 1 then None
               else ReverseCompare buf frags
                      (ntohs_bytes (buf ! off) (buf ! (off + 1)) AND NOT 0xC000) currFrag best)
            else Some (False, currFrag, best))"

text \<open>The loop over the table: whether there is a match, its fragment index, its offset.\<close>

fun search_labels ::
  "bytes \<Rightarrow> bytes list \<Rightarrow> u16 list \<Rightarrow> bool \<times> nat \<times> u16 \<Rightarrow> (bool \<times> nat \<times> u16) option" where
  "search_labels buf frags [] best = Some best"
| "search_labels buf frags (label # labels) (have_match, pos, labelStart) =
     Option.bind (ReverseCompare buf frags label (-1) 0) (\<lambda>(r, curr_frag, last_matched_offset).
       if 0 \<le> curr_frag \<and> curr_frag < int (length frags) \<and>
          (\<not> have_match \<or> curr_frag < int pos)
       then (if nat curr_frag = 0 then Some (True, 0, last_matched_offset)
             else search_labels buf frags labels (True, nat curr_frag, last_matched_offset))
       else search_labels buf frags labels (have_match, pos, labelStart))"

definition SearchForDomainName ::
  "bytes \<Rightarrow> u16 list \<Rightarrow> bytes list \<Rightarrow> (bool \<times> nat \<times> u16) option" where
  "SearchForDomainName buf labels frags = search_labels buf frags labels (False, 0, 0)"

section \<open>Writing names\<close>

text \<open>The two-argument \<open>WriteDomainName\<close>: the buffer with the name at its end.\<close>

definition write_name :: "bytes \<Rightarrow> u16 list \<Rightarrow> bytes \<Rightarrow> bytes res" where
  "write_name buf labels domainName =
     (let frags = ToFraments domainName
      in case SearchForDomainName buf labels frags of
           None \<Rightarrow> Inl UndefinedBehaviour
         | Some (use_compression, pos, label) \<Rightarrow>
             let frag_index = (if use_compression then pos else length frags);
                 written = buf @ concat (map wire_label (take frag_index frags))
             in Inr (if use_compression then written @ htons_bytes (label OR 0xC000)
                     else written @ [0]))"

definition AddLabelForCompression :: "u16 \<Rightarrow> bytes \<Rightarrow> u16 list \<Rightarrow> u16 list res" where
  "AddLabelForCompression offset buf labels =
     (let my_offset = offset OR 0xC000; ofs = ofs14 my_offset
      in rbind (read_byte buf ofs) (\<lambda>b.
         rbind (if is_pointer b then u16_at buf ofs else Inr my_offset) (\<lambda>dst_offset.
           Inr (if dst_offset \<in> set labels then labels else labels @ [my_offset]))))"

text \<open>
  The three-argument \<open>WriteDomainName\<close> completes a name that does not end with a dot by the
  labels of a zone and its ancestors (\<open>zone_labels\<close>, empty for a null zone), writes it and
  enters it in the table.
\<close>

definition complete_name :: "bytes \<Rightarrow> bytes list \<Rightarrow> bytes" where
  "complete_name domainName zone_labels =
     (if domainName \<noteq> [] \<and> last domainName \<noteq> dot
      then domainName @ concat (map (\<lambda>l. dot # l) zone_labels) else domainName)"

definition WriteDomainName ::
  "bytes \<Rightarrow> u16 list \<Rightarrow> bytes \<Rightarrow> bytes list \<Rightarrow> (bytes \<times> u16 list) res" where
  "WriteDomainName buf labels domainName zone_labels =
     rbind (write_name buf labels (complete_name domainName zone_labels)) (\<lambda>buf'.
     rbind (AddLabelForCompression (of_nat (length buf)) buf' labels) (\<lambda>labels'.
       Inr (buf', labels')))"

section \<open>The reference decoder\<close>

text \<open>
  RFC 1035, 4.1.4: labels up to a zero byte, or up to a pointer to the rest of the name.
\<close>

partial_function (option) decode_name :: "bytes \<Rightarrow> nat \<Rightarrow> bytes list option" where
  "decode_name buf off =
     (if length buf \<le> off then None
      else let len = unat (buf ! off)
      in if len = 0 then Some []
         else if len < 64 then
           (if length buf < off + 1 + len then None
            else Option.bind (decode_name buf (off + 1 + len))
                   (\<lambda>fs. Some (segment buf (off + 1) len # fs)))
         else if is_pointer (buf ! off) then
           (if length buf \<le> off + 1 then None
            else decode_name buf (ofs14 (ntohs_bytes (buf ! off) (buf ! (off + 1)))))
         else None)"

text \<open>Where a name ends: behind its zero byte or its first pointer.\<close>

function name_end :: "bytes \<Rightarrow> nat \<Rightarrow> nat option" where
  "name_end buf off =
     (if length buf \<le> off then None
      else let len = unat (buf ! off)
      in if len = 0 then Some (off + 1)
         else if len < 64 then name_end buf (off + 1 + len)
         else if is_pointer (buf ! off) then Some (off + 2)
         else None)"
  by pat_completeness auto
termination
  by (relation "measure (\<lambda>(buf, off). length buf - off)") auto

declare name_end.simps [simp del]

text \<open>
  That a name lies at an offset, as a relation: every byte it takes, behind pointers too,
  lies at a position of \<open>P\<close>.
\<close>

inductive name_at :: "nat set \<Rightarrow> bytes \<Rightarrow> nat \<Rightarrow> bytes list \<Rightarrow> bool" for P buf where
  name_root: "\<lbrakk> off \<in> P; off < length buf; buf ! off = 0 \<rbrakk> \<Longrightarrow> name_at P buf off []"
| name_label: "\<lbrakk> off \<in> P; off + 1 + length f \<le> length buf; buf ! off = of_nat (length f);
      label_size_ok f; segment buf (off + 1) (length f) = f;
      {off + 1..<off + 1 + length f} \<subseteq> P; name_at P buf (off + 1 + length f) fs \<rbrakk>
    \<Longrightarrow> name_at P buf off (f # fs)"
| name_pointer: "\<lbrakk> off \<in> P; off + 1 \<in> P; off + 1 < length buf; is_pointer (buf ! off);
      name_at P buf (ofs14 (ntohs_bytes (buf ! off) (buf ! (off + 1)))) fs \<rbrakk>
    \<Longrightarrow> name_at P buf off fs"

definition table_ok :: "nat set \<Rightarrow> bytes \<Rightarrow> u16 list \<Rightarrow> bool" where
  "table_ok P buf labels \<longleftrightarrow> (\<forall>l \<in> set labels. \<exists>fs. name_at P buf (ofs14 l) fs)"

definition good_name :: "bytes \<Rightarrow> bool" where
  "good_name name \<longleftrightarrow> (\<forall>f \<in> set (ToFraments name). label_size_ok f)"

section \<open>Word arithmetic of offsets\<close>

lemma not_C000: "NOT (0xC000 :: u16) = mask 14"
  by (simp add: mask_eq_exp_minus_1)

lemma ofs14_mod: "ofs14 l = unat l mod 2 ^ 14"
  unfolding ofs14_def not_C000 take_bit_eq_mask [symmetric]
  by (subst unsigned_take_bit_eq) (simp add: take_bit_eq_mod)

lemma ofs14_masked [simp]: "ofs14 (l AND NOT 0xC000) = ofs14 l"
  by (simp add: ofs14_def and.assoc)

lemma ofs14_marked [simp]: "ofs14 (l OR 0xC000) = ofs14 l"
proof -
  have "(l OR 0xC000) AND NOT 0xC000 = l AND NOT 0xC000"
    by (rule bit_word_eqI) (auto simp: bit_simps)
  then show ?thesis by (simp add: ofs14_def)
qed

lemma ofs14_of_nat: "n < 2 ^ 14 \<Longrightarrow> ofs14 (of_nat n) = n"
  by (simp add: ofs14_mod unat_of_nat take_bit_eq_mod)

lemma ofs14_less: "ofs14 l < 2 ^ 14"
  by (simp add: ofs14_mod)

lemma ofs14_step: "ofs14 l + k < 2 ^ 14 \<Longrightarrow> ofs14 (l + of_nat k) = ofs14 l + k"
proof -
  assume small: "ofs14 l + k < 2 ^ 14"
  have "unat (l + of_nat k) mod 2 ^ 14 = (unat l + k) mod 2 ^ 16 mod 2 ^ 14"
    by (simp add: unat_word_ariths unat_of_nat mod_add_right_eq)
  also have "\<dots> = (unat l mod 2 ^ 14 + k) mod 2 ^ 14"
    by (simp add: mod_mod_cancel mod_add_left_eq)
  finally show ?thesis using small by (simp add: ofs14_mod)
qed

lemma pointer_not_small: "is_pointer b \<Longrightarrow> 192 \<le> unat b"
  using word_and_le2 [of b "0xC0"] by (simp add: is_pointer_def word_le_nat_alt)

section \<open>Facts about names in a buffer\<close>

lemma name_at_bound: "name_at P buf off fs \<Longrightarrow> off < length buf"
  by (cases rule: name_at.cases) auto

lemma name_at_sizes: "name_at P buf off fs \<Longrightarrow> \<forall>f \<in> set fs. label_size_ok f"
  by (induction rule: name_at.induct) auto

text \<open>
  A name stays where it is as long as the bytes at the positions of \<open>P\<close> do, however the
  buffer grows or is patched elsewhere.
\<close>

lemma name_at_agree:
  assumes "name_at P buf off fs" "P \<subseteq> Q" "length buf \<le> length buf'"
    and "\<And>i. i \<in> P \<Longrightarrow> i < length buf \<Longrightarrow> buf' ! i = buf ! i"
  shows "name_at Q buf' off fs"
  using assms(1)
proof (induction rule: name_at.induct)
  case (name_root off)
  show ?case by (rule name_at.name_root) (use name_root assms in auto)
next
  case (name_label off f fs)
  have "segment buf' (off + 1) (length f) = segment buf (off + 1) (length f)"
    using name_label.hyps assms(3,4) by (intro segment_eqI) auto
  then show ?case
    by (intro name_at.name_label [OF _ _ _ _ _ _ name_label.IH]) (use name_label.hyps assms in auto)
next
  case (name_pointer off fs)
  with assms have "buf' ! off = buf ! off" "buf' ! (off + 1) = buf ! (off + 1)" by auto
  with name_pointer.IH name_pointer.hyps assms show ?case
    by (intro name_at.name_pointer [of off]) auto
qed

lemma name_at_append: "name_at P buf off fs \<Longrightarrow> name_at P (buf @ ext) off fs"
  by (erule name_at_agree) (auto simp: nth_append)

lemma table_ok_agree:
  assumes "table_ok P buf labels" "P \<subseteq> Q" "length buf \<le> length buf'"
    and "\<And>i. i \<in> P \<Longrightarrow> i < length buf \<Longrightarrow> buf' ! i = buf ! i"
  shows "table_ok Q buf' labels"
  using assms unfolding table_ok_def by (metis name_at_agree)

lemma table_ok_append: "table_ok P buf labels \<Longrightarrow> table_ok P (buf @ ext) labels"
  by (erule table_ok_agree) (auto simp: nth_append)

lemma name_at_decode: "name_at P buf off fs \<Longrightarrow> decode_name buf off = Some fs"
proof (induction rule: name_at.induct)
  case (name_root off)
  then show ?case by (subst decode_name.simps) simp
next
  case (name_label off f fs)
  then show ?case
    by (subst decode_name.simps) (auto simp: unat_of_label_length label_size_ok_def Let_def)
next
  case (name_pointer off fs)
  from pointer_not_small [OF name_pointer.hyps(4)] name_pointer show ?case
    by (subst decode_name.simps) (simp add: Let_def)
qed

lemma name_at_wire:
  assumes "wire_at buf off fs" "\<forall>f \<in> set fs. label_size_ok f"
    and "{off..<off + length (wire_name fs)} \<subseteq> P"
  shows "name_at P buf off fs"
  using assms
proof (induction fs arbitrary: off)
  case Nil
  then show ?case by (intro name_at.name_root) auto
next
  case (Cons f fs)
  from Cons.prems(1) have w: "wire_at buf (off + 1 + length f) fs" by simp
  then have "off + 1 + length f < length buf" by (auto simp: wire_at_def length_wire_name)
  moreover have "{off..<off + length (wire_name (f # fs))} =
      {off..<off + 1 + length f} \<union> {off + 1 + length f..<off + 1 + length f + length (wire_name fs)}"
    by auto
  moreover have "name_at P buf (off + 1 + length f) fs"
    using Cons.prems by (intro Cons.IH) auto
  ultimately show ?case
    using Cons.prems by (intro name_at.name_label [of off]) auto
qed

lemma name_end_append: "name_end buf off = Some e \<Longrightarrow> name_end (buf @ ext) off = Some e"
proof (induction buf off rule: name_end.induct)
  case (1 buf off)
  from "1.prems" have off: "\<not> length buf \<le> off"
    by (subst (asm) name_end.simps) (auto split: if_splits)
  show ?case
  proof (cases "unat (buf ! off) \<noteq> 0 \<and> unat (buf ! off) < 64")
    case True
    with "1.prems" off have "name_end buf (off + 1 + unat (buf ! off)) = Some e"
      by (subst (asm) name_end.simps) (simp add: Let_def)
    with True "1.IH" off have "name_end (buf @ ext) (off + 1 + unat (buf ! off)) = Some e"
      by simp
    with True off show ?thesis
      by (subst name_end.simps) (simp add: nth_append Let_def)
  next
    case False
    with "1.prems" off show ?thesis
      by (subst name_end.simps) (subst (asm) name_end.simps, auto simp: nth_append Let_def split: if_splits)
  qed
qed

lemma name_end_drop:
  "drop s buf' = drop s buf \<Longrightarrow> length buf' = length buf \<Longrightarrow> s \<le> off \<Longrightarrow>
     name_end buf' off = name_end buf off"
proof (induction buf off rule: name_end.induct)
  case (1 buf off)
  show ?case
  proof (cases "length buf \<le> off")
    case True
    with "1.prems" show ?thesis by (simp add: name_end.simps [of buf'] name_end.simps [of buf off])
  next
    case False
    with "1.prems" have eq: "buf' ! off = buf ! off" by (intro nth_drop_eq [of s]) auto
    with False "1" show ?thesis
      by (simp add: name_end.simps [of buf' off] name_end.simps [of buf off] Let_def)
  qed
qed

lemma name_end_bound: "name_end buf off = Some e \<Longrightarrow> off < e"
proof (induction buf off rule: name_end.induct)
  case (1 buf off)
  from "1.prems" have off: "\<not> length buf \<le> off"
    by (subst (asm) name_end.simps) (auto split: if_splits)
  show ?case
  proof (cases "unat (buf ! off) \<noteq> 0 \<and> unat (buf ! off) < 64")
    case True
    with "1.prems" off have "name_end buf (off + 1 + unat (buf ! off)) = Some e"
      by (subst (asm) name_end.simps) (simp add: Let_def)
    with "1.IH" True off show ?thesis by fastforce
  next
    case False
    with "1.prems" off show ?thesis
      by (subst (asm) name_end.simps) (auto simp: Let_def split: if_splits)
  qed
qed

lemma name_end_labels:
  assumes "\<forall>f \<in> set fs. label_size_ok f"
  shows "name_end (buf @ concat (map wire_label fs) @ ext) (length buf) =
         name_end (buf @ concat (map wire_label fs) @ ext) (length (buf @ concat (map wire_label fs)))"
  using assms
proof (induction fs arbitrary: buf)
  case (Cons f fs)
  let ?all = "buf @ wire_label f @ concat (map wire_label fs) @ ext"
  from Cons.prems have f: "label_size_ok f" by simp
  then have "name_end ?all (length buf) = name_end ?all (length buf + 1 + length f)"
    by (subst name_end.simps) (auto simp: wire_label_def label_size_ok_def unat_of_label_length Let_def)
  moreover have "name_end ((buf @ wire_label f) @ concat (map wire_label fs) @ ext)
      (length (buf @ wire_label f)) =
    name_end ((buf @ wire_label f) @ concat (map wire_label fs) @ ext)
      (length ((buf @ wire_label f) @ concat (map wire_label fs)))"
    using Cons.prems by (intro Cons.IH) simp
  ultimately show ?case
    by (simp add: wire_label_def [of f] add.assoc)
qed simp

section \<open>The search is sound\<close>

text \<open>
  What \<open>ReverseCompare\<close> returns on a name of the buffer: a fragment index, and behind it the
  offset of a name that equals the fragments from that index on.
\<close>

lemma ReverseCompare_name:
  assumes "name_at P buf off ns" "off = ofs14 label" "length buf \<le> 2 ^ 14"
  shows "\<exists>r cf bm. ReverseCompare buf frags label cf0 bm0 = Some (r, cf, bm) \<and>
     cf \<le> int (length frags) \<and>
     (0 \<le> cf \<and> cf < int (length frags) \<longrightarrow> name_at P buf (ofs14 bm) (drop (nat cf) frags)) \<and>
     (r \<and> 0 \<le> cf \<longrightarrow> drop (nat cf) frags = ns) \<and> (\<not> r \<longrightarrow> 0 \<le> cf)"
  using assms(1,2)
proof (induction arbitrary: label rule: name_at.induct)
  case (name_root off)
  then show ?case by (subst ReverseCompare.simps) auto
next
  case (name_label off f fs)
  let ?n = "length f"
  from name_label.hyps have n: "unat (buf ! off) = ?n" "0 < ?n" "?n < 64"
    by (auto simp: unat_of_label_length label_size_ok_def)
  have below: "off + 1 + ?n < length buf" using name_label.hyps(7) by (rule name_at_bound)
  have "off + 1 + ?n = ofs14 (label + of_nat ?n + 1)"
    using ofs14_step [of label "?n + 1"] below assms(3) name_label.prems by (simp add: algebra_simps)
  from name_label.IH [OF this] obtain r cf bm where
    rec: "ReverseCompare buf frags (label + of_nat ?n + 1) cf0 bm0 = Some (r, cf, bm)" and
    cf: "cf \<le> int (length frags)"
      "0 \<le> cf \<and> cf < int (length frags) \<longrightarrow> name_at P buf (ofs14 bm) (drop (nat cf) frags)"
      "r \<and> 0 \<le> cf \<longrightarrow> drop (nat cf) frags = fs" "\<not> r \<longrightarrow> 0 \<le> cf"
    by blast
  have here: "name_at P buf off (f # fs)"
    using name_label.hyps by (intro name_at.name_label [of off])
  have eq: "ReverseCompare buf frags label cf0 bm0 =
      (if r then (if cf - 1 < 0 then Some (True, cf - 1, bm)
                  else if frags ! nat (cf - 1) = f then Some (True, cf - 1, of_nat off)
                  else Some (False, cf, bm))
       else Some (False, cf, bm))"
    using rec n below name_label.hyps(5) name_label.prems
    by (subst ReverseCompare.simps) (simp add: Let_def)
  show ?case
  proof (cases "r \<and> 0 < cf")
    case False
    with eq cf show ?thesis by (cases r) auto
  next
    case True
    then have suffix: "drop (nat cf) frags = fs" using cf(3) by simp
    show ?thesis
    proof (cases "frags ! nat (cf - 1) = f")
      case miss: False
      with True eq cf show ?thesis by auto
    next
      case hit: True
      have "nat (cf - 1) < length frags" "Suc (nat (cf - 1)) = nat cf" using True cf(1) by auto
      with hit suffix have "drop (nat (cf - 1)) frags = f # fs"
        by (metis Cons_nth_drop_Suc)
      moreover have "off < 2 ^ 14" using below assms(3) by simp
      ultimately show ?thesis
        using True eq hit cf(1) here by (auto simp: ofs14_of_nat)
    qed
  qed
next
  case (name_pointer off fs)
  from name_pointer.IH [OF ofs14_masked [symmetric]]
    name_pointer.hyps name_pointer.prems pointer_not_small [OF name_pointer.hyps(4)]
  show ?case by (subst ReverseCompare.simps) (simp add: Let_def)
qed

lemma search_labels_sound:
  assumes "table_ok P buf labels" "length buf \<le> 2 ^ 14"
    and "have \<Longrightarrow> pos < length frags \<and> name_at P buf (ofs14 ls) (drop pos frags)"
  shows "\<exists>have' pos' ls'. search_labels buf frags labels (have, pos, ls) = Some (have', pos', ls') \<and>
     (have' \<longrightarrow> pos' < length frags \<and> name_at P buf (ofs14 ls') (drop pos' frags))"
  using assms(1,3)
proof (induction labels arbitrary: "have" pos ls)
  case (Cons label labels)
  from Cons.prems(1) obtain ns where "name_at P buf (ofs14 label) ns" by (auto simp: table_ok_def)
  from ReverseCompare_name [OF this refl assms(2), of frags "-1" 0]
  obtain r cf bm where rc: "ReverseCompare buf frags label (-1) 0 = Some (r, cf, bm)"
    and cf: "0 \<le> cf \<and> cf < int (length frags) \<longrightarrow> name_at P buf (ofs14 bm) (drop (nat cf) frags)"
    by blast
  have rest: "table_ok P buf labels" using Cons.prems(1) by (simp add: table_ok_def)
  show ?case
  proof (cases "0 \<le> cf \<and> cf < int (length frags) \<and> (\<not> have \<or> cf < int pos)")
    case True
    with cf have "nat cf < length frags" "name_at P buf (ofs14 bm) (drop (nat cf) frags)" by auto
    moreover have "search_labels buf frags (label # labels) (have, pos, ls) =
        (if nat cf = 0 then Some (True, 0, bm) else search_labels buf frags labels (True, nat cf, bm))"
      using True by (simp only: search_labels.simps rc Option.bind.bind_lunit prod.case if_True simp_thms)
    ultimately show ?thesis
      using Cons.IH [OF rest, of True "nat cf" bm] by (cases "nat cf = 0") (auto simp del: search_labels.simps)
  next
    case False
    then have "search_labels buf frags (label # labels) (have, pos, ls) =
        search_labels buf frags labels (have, pos, ls)"
      by (simp only: search_labels.simps rc Option.bind.bind_lunit prod.case if_False)
    with Cons.IH [OF rest Cons.prems(2)] show ?thesis by simp
  qed
qed auto

section \<open>Written names decode to themselves\<close>

lemma name_at_label_append:
  assumes "name_at P (buf @ wire_label f @ ext) (length buf + 1 + length f) fs" "label_size_ok f"
    and "{length buf..<length buf + 1 + length f} \<subseteq> P"
  shows "name_at P (buf @ wire_label f @ ext) (length buf) (f # fs)"
proof (rule name_at.name_label)
  show "segment (buf @ wire_label f @ ext) (length buf + 1) (length f) = f"
    by (simp add: segment_def wire_label_def)
  show "(buf @ wire_label f @ ext) ! length buf = of_nat (length f)"
    by (simp add: wire_label_def)
qed (use assms in \<open>auto simp: wire_label_def\<close>)

lemma name_at_labels_append:
  assumes "name_at P (buf @ concat (map wire_label fs) @ ext)
             (length (buf @ concat (map wire_label fs))) rest"
    and "\<forall>f \<in> set fs. label_size_ok f"
    and "{length buf..<length (buf @ concat (map wire_label fs))} \<subseteq> P"
  shows "name_at P (buf @ concat (map wire_label fs) @ ext) (length buf) (fs @ rest)"
  using assms
proof (induction fs arbitrary: buf)
  case (Cons f fs)
  have "name_at P ((buf @ wire_label f) @ concat (map wire_label fs) @ ext)
      (length (buf @ wire_label f)) (fs @ rest)"
    using Cons.prems by (intro Cons.IH) (auto simp: wire_label_def)
  then have "name_at P (buf @ wire_label f @ concat (map wire_label fs) @ ext)
      (length buf + 1 + length f) (fs @ rest)"
    by (simp add: wire_label_def)
  moreover have "{length buf..<length buf + 1 + length f} \<subseteq> P"
    using Cons.prems(3) by (rule order_trans [rotated]) (simp add: wire_label_def [of f])
  ultimately have "name_at P (buf @ wire_label f @ concat (map wire_label fs) @ ext)
      (length buf) (f # fs @ rest)"
    using Cons.prems(2) by (intro name_at_label_append) simp_all
  then show ?case by simp
qed simp

lemma write_name_sound:
  assumes "table_ok P buf labels" "good_name name" "length buf \<le> 2 ^ 14"
  shows "\<exists>ext. write_name buf labels name = Inr (buf @ ext) \<and> ext \<noteq> [] \<and>
     length ext \<le> length (wire_name (ToFraments name)) \<and>
     name_end (buf @ ext) (length buf) = Some (length (buf @ ext)) \<and>
     name_at (P \<union> {length buf..<length (buf @ ext)}) (buf @ ext) (length buf) (ToFraments name)"
proof -
  let ?fs = "ToFraments name"
  from search_labels_sound [OF assms(1,3), of False 0 ?fs 0] obtain use pos ls where
    s: "SearchForDomainName buf labels ?fs = Some (use, pos, ls)" and
    m: "use \<longrightarrow> pos < length ?fs \<and> name_at P buf (ofs14 ls) (drop pos ?fs)"
    by (auto simp: SearchForDomainName_def)
  have sizes: "\<forall>f \<in> set ?fs. label_size_ok f" using assms(2) by (simp add: good_name_def)
  have len_concat: "length (concat (map wire_label gs)) = text_size gs + length gs" for gs
    by (induction gs) (auto simp: wire_label_def)
  show ?thesis
  proof (cases use)
    case False
    let ?ext = "concat (map wire_label ?fs) @ [0]"
    have "name_at (P \<union> {length buf..<length (buf @ ?ext)})
        (buf @ concat (map wire_label ?fs) @ [0]) (length buf) (?fs @ [])"
      using sizes by (intro name_at_labels_append name_at.name_root) (auto simp: nth_append)
    moreover have "name_end (buf @ ?ext) (length buf) = Some (length (buf @ ?ext))"
      using name_end_labels [OF sizes, of buf "[0]"]
      by (subst (asm) (2) name_end.simps) (simp add: nth_append)
    ultimately show ?thesis using s False
      by (intro exI [of _ ?ext]) (simp add: write_name_def wire_name_def)
  next
    case True
    let ?pre = "concat (map wire_label (take pos ?fs))"
    let ?ptr = "htons_bytes (ls OR 0xC000)"
    let ?ext = "?pre @ ?ptr"
    let ?Q = "P \<union> {length buf..<length (buf @ ?ext)}"
    let ?off = "length (buf @ ?pre)"
    from True m have tail: "pos < length ?fs" "name_at P buf (ofs14 ls) (drop pos ?fs)" by auto
    have hi: "is_pointer (ucast (drop_bit 8 (ls OR 0xC000)) :: byte)"
      unfolding is_pointer_def by (rule bit_word_eqI) (auto simp: bit_simps)
    have at: "(buf @ ?ext) ! ?off = ucast (drop_bit 8 (ls OR 0xC000))"
        "(buf @ ?ext) ! (?off + 1) = ucast (ls OR 0xC000)"
      by (simp_all add: htons_bytes_def nth_append)
    have "name_at ?Q (buf @ ?ext) ?off (drop pos ?fs)"
    proof (rule name_at.name_pointer)
      show "is_pointer ((buf @ ?ext) ! ?off)" using hi at by simp
      have "name_at ?Q (buf @ ?ext) (ofs14 ls) (drop pos ?fs)"
        using tail(2) by (rule name_at_agree) (auto simp: nth_append)
      then show "name_at ?Q (buf @ ?ext)
          (ofs14 (ntohs_bytes ((buf @ ?ext) ! ?off) ((buf @ ?ext) ! (?off + 1)))) (drop pos ?fs)"
        unfolding at ntohs_htons ofs14_marked .
    qed simp_all
    then have "name_at ?Q (buf @ ?pre @ ?ptr) (length buf) (take pos ?fs @ drop pos ?fs)"
      using sizes by (intro name_at_labels_append) (auto dest: in_set_takeD)
    moreover have "name_end (buf @ ?ext) (length buf) = Some (length (buf @ ?ext))"
    proof -
      have "name_end (buf @ ?pre @ ?ptr) (length buf) = name_end (buf @ ?pre @ ?ptr) ?off"
        using sizes by (intro name_end_labels) (auto dest: in_set_takeD)
      moreover have "name_end (buf @ ?pre @ ?ptr) ?off = Some (?off + 2)"
        using hi pointer_not_small [OF hi]
        by (subst name_end.simps) (simp add: nth_append htons_bytes_def Let_def)
      ultimately show ?thesis by simp
    qed
    moreover have "length ?ext \<le> length (wire_name ?fs)"
    proof -
      have split: "text_size ?fs = text_size (take pos ?fs) + text_size (drop pos ?fs)"
        unfolding text_size_def by (metis append_take_drop_id map_append sum_list_append)
      obtain g gs where g: "drop pos ?fs = g # gs"
        using tail(1) by (metis Cons_nth_drop_Suc)
      then have "label_size_ok g" using sizes by (metis in_set_dropD list.set_intros(1))
      then have "1 \<le> text_size (drop pos ?fs)"
        by (cases g) (auto simp: g label_size_ok_def)
      with split tail(1) show ?thesis by (simp add: len_concat length_wire_name)
    qed
    ultimately show ?thesis
      using s True by (intro exI [of _ ?ext]) (simp add: write_name_def htons_bytes_def)
  qed
qed

lemma AddLabel_sound:
  assumes "table_ok P buf labels" "name_at P buf (ofs14 offset) fs"
  shows "\<exists>labels'. AddLabelForCompression offset buf labels = Inr labels' \<and> table_ok P buf labels' \<and>
     set labels \<subseteq> set labels'"
proof -
  have below: "ofs14 offset < length buf" using assms(2) by (rule name_at_bound)
  have "ofs14 offset + 1 < length buf" if "is_pointer (buf ! ofs14 offset)"
    using assms(2)
  proof cases
    case name_root
    with that show ?thesis by (simp add: is_pointer_def)
  next
    case (name_label f fs)
    then have "unat (buf ! ofs14 offset) < 64"
      by (auto simp: label_size_ok_def unat_of_label_length)
    with pointer_not_small [OF that] show ?thesis by simp
  qed
  with below assms show ?thesis
    by (auto simp: AddLabelForCompression_def read_byte_def u16_at_def table_ok_def Let_def)
qed

lemma WriteDomainName_sound:
  assumes "table_ok P buf labels" "good_name (complete_name name zl)" "length buf < 2 ^ 14"
  shows "\<exists>ext labels'. WriteDomainName buf labels name zl = Inr (buf @ ext, labels') \<and> ext \<noteq> [] \<and>
     length ext \<le> length (wire_name (ToFraments (complete_name name zl))) \<and>
     name_end (buf @ ext) (length buf) = Some (length (buf @ ext)) \<and>
     name_at (P \<union> {length buf..<length (buf @ ext)}) (buf @ ext) (length buf)
       (ToFraments (complete_name name zl)) \<and>
     table_ok (P \<union> {length buf..<length (buf @ ext)}) (buf @ ext) labels'"
proof -
  from write_name_sound [OF assms(1,2)] assms(3) obtain ext where
    w: "write_name buf labels (complete_name name zl) = Inr (buf @ ext)" "ext \<noteq> []"
      "length ext \<le> length (wire_name (ToFraments (complete_name name zl)))"
      "name_end (buf @ ext) (length buf) = Some (length (buf @ ext))" and
    n: "name_at (P \<union> {length buf..<length (buf @ ext)}) (buf @ ext) (length buf)
       (ToFraments (complete_name name zl))"
    by auto
  have "table_ok (P \<union> {length buf..<length (buf @ ext)}) (buf @ ext) labels"
    using assms(1) by (rule table_ok_agree) (auto simp: nth_append)
  moreover have "ofs14 (of_nat (length buf)) = length buf"
    using assms(3) by (rule ofs14_of_nat)
  ultimately obtain labels' where "AddLabelForCompression (of_nat (length buf)) (buf @ ext) labels = Inr labels'"
      "table_ok (P \<union> {length buf..<length (buf @ ext)}) (buf @ ext) labels'"
    using AddLabel_sound n by metis
  with w n show ?thesis by (auto simp: WriteDomainName_def)
qed

text \<open>
  C18: a name whose labels have 1 to 63 bytes, written to a reply of less than \<open>2 ^ 14\<close> bytes and compressed against the names written before,
  all of which the label table leads to, is appended
  behind what is there, takes at most the bytes of its uncompressed form, and decodes to the
  fragments of the name it was written from; every entry of the label table, old or new,
  still leads to a name.
\<close>

theorem WriteDomainName_roundtrip:
  assumes "table_ok P buf labels" "good_name (complete_name name zl)" "length buf < 2 ^ 14"
  shows "case WriteDomainName buf labels name zl of
      Inl e \<Rightarrow> False
    | Inr (buf', labels') \<Rightarrow>
        take (length buf) buf' = buf \<and>
        length buf' \<le> length buf + length (wire_name (ToFraments (complete_name name zl))) \<and>
        decode_name buf' (length buf) = Some (ToFraments (complete_name name zl)) \<and>
        (\<exists>Q. table_ok Q buf' labels')"
  using WriteDomainName_sound [OF assms] name_at_decode by fastforce

definition sample_reply :: bytes where
  "sample_reply = [1, 97, 2, 98, 99, 0]"

lemma sample_table_ok: "table_ok UNIV sample_reply [0xC000]"
proof -
  have "name_at UNIV sample_reply 0 [[97], [98, 99]]"
    by (rule name_at_wire) (auto simp: sample_reply_def wire_at_def segment_def label_size_ok_def)
  then show ?thesis by (auto simp: table_ok_def ofs14_def)
qed

theorem WriteDomainName_roundtrip_witness:
  "case WriteDomainName sample_reply [0xC000] [100, 46, 98, 99] [] of
      Inl e \<Rightarrow> False
    | Inr (buf', labels') \<Rightarrow>
        take (length sample_reply) buf' = sample_reply \<and>
        length buf' \<le> length sample_reply +
          length (wire_name (ToFraments (complete_name [100, 46, 98, 99] []))) \<and>
        decode_name buf' (length sample_reply) =
          Some (ToFraments (complete_name [100, 46, 98, 99] [])) \<and>
        (\<exists>Q. table_ok Q buf' labels')"
  by (rule WriteDomainName_roundtrip [OF sample_table_ok])
     (auto simp: sample_reply_def complete_name_def good_name_def label_size_ok_def dot_def)

text \<open>
  C19: the search for a name in the reply ends on every buffer whose label table leads to names,
  whatever the pointers between them, and the suffix it finds is there: at the offset it returns
  the buffer has the fragments from the returned index on.
\<close>

theorem search_terminates:
  assumes "table_ok P buf labels" "length buf \<le> 2 ^ 14"
  shows "\<exists>found pos at. SearchForDomainName buf labels frags = Some (found, pos, at) \<and>
    (if found then pos < length frags \<and> decode_name buf (ofs14 at) = Some (drop pos frags) else True)"
  using search_labels_sound [OF assms, of False 0 frags 0] name_at_decode
  unfolding SearchForDomainName_def by fastforce

theorem search_terminates_witness:
  "\<exists>found pos at. SearchForDomainName sample_reply [0xC000] [[100], [98, 99]] = Some (found, pos, at) \<and>
    (if found then pos < length [[100], [98, 99 :: byte]] \<and>
       decode_name sample_reply (ofs14 at) = Some (drop pos [[100], [98, 99]]) else True)"
  by (rule search_terminates [OF sample_table_ok]) (simp add: sample_reply_def)

text \<open>
  C39: a name that begins with a dot, as the domain name of a wildcard zone does, is written
  as the root name followed by bytes that are no part of it.
\<close>

theorem wildcard_name_written_as_root:
  assumes "table_ok P buf labels" "length buf \<le> 2 ^ 14"
  shows "\<exists>junk. junk \<noteq> [] \<and> write_name buf labels (dot # rest) = Inr (buf @ 0 # junk) \<and>
     decode_name (buf @ 0 # junk) (length buf) = Some []"
proof -
  let ?fs = "ToFraments (dot # rest)"
  have fs: "?fs = [] # ToFraments rest" by simp
  from search_labels_sound [OF assms, of False 0 ?fs 0] obtain use pos ls where
    s: "SearchForDomainName buf labels ?fs = Some (use, pos, ls)" and
    m: "use \<longrightarrow> pos < length ?fs \<and> name_at P buf (ofs14 ls) (drop pos ?fs)"
    unfolding SearchForDomainName_def by blast
  have "pos \<noteq> 0" if use
  proof
    assume "pos = 0"
    with m that fs have "name_at P buf (ofs14 ls) ([] # ToFraments rest)" by simp
    from name_at_sizes [OF this] show False by (simp add: label_size_ok_def)
  qed
  then have "\<exists>junk. junk \<noteq> [] \<and> write_name buf labels (dot # rest) = Inr (buf @ 0 # junk)"
    using s fs unfolding write_name_def
    by (cases use; cases pos) (auto simp: wire_label_def htons_bytes_def Let_def)
  then obtain junk where j: "junk \<noteq> []" "write_name buf labels (dot # rest) = Inr (buf @ 0 # junk)"
    by blast
  moreover have "decode_name (buf @ 0 # junk) (length buf) = Some []"
    by (subst decode_name.simps) simp
  ultimately show ?thesis by blast
qed

theorem wildcard_name_written_as_root_witness:
  "\<exists>junk. junk \<noteq> [] \<and>
     write_name sample_reply [0xC000] (dot # [98, 99]) = Inr (sample_reply @ 0 # junk) \<and>
     decode_name (sample_reply @ 0 # junk) (length sample_reply) = Some []"
  by (rule wildcard_name_written_as_root [OF sample_table_ok]) (simp add: sample_reply_def)

section \<open>What every write keeps\<close>

lemma complete_name_null [simp]: "complete_name name [] = name"
  by (simp add: complete_name_def)

lemma write_name_frame: "write_name buf labels name = Inr buf' \<Longrightarrow> \<exists>ext. buf' = buf @ ext"
  by (auto simp: write_name_def Let_def split: option.splits if_splits)

lemma AddLabel_frame:
  "AddLabelForCompression offset buf labels = Inr labels' \<Longrightarrow>
     labels' = labels \<or> labels' = labels @ [offset OR 0xC000]"
  by (auto simp: AddLabelForCompression_def Let_def split: if_splits)

lemma WriteDomainName_frame:
  assumes "WriteDomainName buf labels name zl = Inr (buf', labels')"
  shows "(\<exists>ext. buf' = buf @ ext) \<and> set labels \<subseteq> set labels'"
  using assms AddLabel_frame write_name_frame unfolding WriteDomainName_def by fastforce

end
