(* ===== verification/DnsZone.thy ===== *)
theory DnsZone
  imports DnsFragments
begin

text \<open>
  The zone tree and its manager: \<open>src/dnsd/Zone.h\<close>. A zone owns its children; a
  \<open>Zone *\<close> is the path that leads to the zone, so that following \<open>parent\<close> drops the
  first element and comparing pointers compares paths.
\<close>

section \<open>Zones\<close>

type_synonym address_v4 = "byte \<times> byte \<times> byte \<times> byte"

fun to_bytes :: "address_v4 \<Rightarrow> bytes" where
  "to_bytes (a, b, c, d) = [a, b, c, d]"

record soa_t =
  soa_rname :: bytes
  soa_serial :: u32
  soa_refresh :: u32
  soa_retry :: u32
  soa_expire :: u32
  soa_minimum :: u32

definition soa_defaults :: soa_t where
  "soa_defaults = \<lparr>soa_rname = bytes_of ''hostmaster'', soa_serial = 1, soa_refresh = 7200,
     soa_retry = 600, soa_expire = 3600000, soa_minimum = 60\<rparr>"

text \<open>
  The \<open>zone\<close> field of \<open>ns\<close>, \<open>mx\<close> and \<open>soa\<close> entries always points to the zone that holds
  the entry, so an entry keeps its other fields only.
\<close>

record ns_t =
  ns_fqdn :: bytes

record mx_t = ns_t +
  mx_priority :: u16

datatype zone = Zone
  (zlabel: bytes)
  (za: "address_v4 list")
  (zns: "ns_t list")
  (zmx: "mx_t list")
  (zcname: bytes)
  (zsoa: "soa_t option")
  (zchildren: "zone list")
  (zauthorative: bool)

text \<open>
  A pointer to a zone: the zone with its index among its siblings, then its parent, and so
  on up to a root zone.
\<close>

type_synonym zptr = "(nat \<times> zone) list"

definition target :: "zptr \<Rightarrow> zone" where
  "target zp = snd (hd zp)"

text \<open>\<open>Zone::GetDomainName\<close>: the label, then each ancestor's label after a dot.\<close>

fun GetDomainName :: "zptr \<Rightarrow> bytes" where
  "GetDomainName [] = []"
| "GetDomainName (z # up) = zlabel (snd z) @ concat (map (\<lambda>p. dot # zlabel (snd p)) up)"

text \<open>\<open>Zone::ns::GetFdqn\<close>; the second argument is the entry's \<open>zone\<close> pointer.\<close>

definition GetFdqn :: "('a) ns_t_scheme \<Rightarrow> zptr option \<Rightarrow> bytes" where
  "GetFdqn n z = (case z of Some zp \<Rightarrow> ns_fqdn n @ [dot] @ GetDomainName zp | None \<Rightarrow> ns_fqdn n)"

text \<open>\<open>soa::GetMname\<close>: \<open>zone->ns.at(0)\<close> throws when the zone has no name server.\<close>

definition GetMname :: "zone \<Rightarrow> ns_t res" where
  "GetMname z = (case zns z of [] \<Rightarrow> Inl StdOutOfRange | n # _ \<Rightarrow> Inr n)"

text \<open>
  \<open>DnsDaemonImpl::GetSoaZone\<close>. The loop goes on with \<open>z = zone->parent\<close>, the parent of the zone that it was
  called with, not of the one it has come to; \<open>None\<close> is a loop that does not end.
\<close>

partial_function (option) soa_loop :: "zptr \<Rightarrow> zptr \<Rightarrow> zptr option option" where
  "soa_loop zone z =
     (if z = [] then Some None else if zsoa (target z) \<noteq> None then Some (Some z) else soa_loop zone (tl zone))"

definition GetSoaZone :: "zptr \<Rightarrow> zptr option option" where
  "GetSoaZone zone = soa_loop zone zone"

section \<open>Lookup\<close>

text \<open>
  The loop over the siblings of one level. \<open>ieq\<close> is \<open>boost::iequals\<close>. An empty zone label
  is remembered as the wildcard, a zone equal to the label ends the loop.
\<close>

fun scan_siblings ::
  "(bytes \<Rightarrow> bytes \<Rightarrow> bool) \<Rightarrow> bytes \<Rightarrow> (nat \<times> zone) list \<Rightarrow> (nat \<times> zone) option \<Rightarrow>
     (nat \<times> zone) option \<times> (nat \<times> zone) option" where
  "scan_siblings ieq l [] wildchard = (None, wildchard)"
| "scan_siblings ieq l (z # zs) wildchard =
     (let wildchard' = (if zlabel (snd z) = [] then Some z else wildchard)
      in if ieq l (zlabel (snd z)) then (Some z, wildchard')
         else scan_siblings ieq l zs wildchard')"

definition pick :: "(bytes \<Rightarrow> bytes \<Rightarrow> bool) \<Rightarrow> bytes \<Rightarrow> zone list \<Rightarrow> (nat \<times> zone) option" where
  "pick ieq l zones =
     (case scan_siblings ieq l (enumerate 0 zones) None of
        (Some m, _) \<Rightarrow> Some m
      | (None, wildchard) \<Rightarrow> wildchard)"

text \<open>
  The recursive \<open>ZoneMgr::Lookup\<close>: the labels come last first, \<open>up\<close> is the path of the
  zone whose children are searched, \<open>auth\<close> the flag behind the \<open>authorative\<close> pointer.
\<close>

fun Lookup_from ::
  "(bytes \<Rightarrow> bytes \<Rightarrow> bool) \<Rightarrow> bytes list \<Rightarrow> zone list \<Rightarrow> zptr \<Rightarrow> bool \<Rightarrow> zptr option \<times> bool" where
  "Lookup_from ieq [] zones up auth = (None, auth)"
| "Lookup_from ieq (l # ls) zones up auth =
     (case pick ieq l zones of
        None \<Rightarrow> (None, auth)
      | Some z \<Rightarrow>
          if ls \<noteq> [] then Lookup_from ieq ls (zchildren (snd z)) (z # up) (zauthorative (snd z))
          else (Some (z # up), zauthorative (snd z)))"

definition Lookup ::
  "(bytes \<Rightarrow> bytes \<Rightarrow> bool) \<Rightarrow> zone list \<Rightarrow> bytes list \<Rightarrow> bool \<Rightarrow> zptr option \<times> bool" where
  "Lookup ieq zones key auth = Lookup_from ieq (rev key) zones [] auth"

text \<open>\<open>ZoneMgr::AddRootZone\<close>, and the loop of \<open>SetupZones\<close> that takes zones from the back.\<close>

definition AddRootZone :: "zone \<Rightarrow> zone list \<Rightarrow> zone list" where
  "AddRootZone z zones = zones @ [z]"

fun SetupZones_loop :: "zone list \<Rightarrow> zone list \<Rightarrow> zone list" where
  "SetupZones_loop [] zones = zones"
| "SetupZones_loop (z # zs) zones = AddRootZone z (SetupZones_loop zs zones)"

section \<open>Paths of the tree\<close>

fun children_at :: "zone list \<Rightarrow> zptr \<Rightarrow> zone list" where
  "children_at zones [] = zones"
| "children_at zones (z # up) = zchildren (snd z)"

text \<open>A pointer is valid when every element is the child, at its index, of the next one.\<close>

fun on_path :: "zone list \<Rightarrow> zptr \<Rightarrow> bool" where
  "on_path zones [] = True"
| "on_path zones (z # up) =
     (on_path zones up \<and> fst z < length (children_at zones up) \<and>
      children_at zones up ! fst z = snd z)"

definition matches_label :: "(bytes \<Rightarrow> bytes \<Rightarrow> bool) \<Rightarrow> bytes \<Rightarrow> zone \<Rightarrow> bool" where
  "matches_label ieq l z \<longleftrightarrow> ieq l (zlabel z) \<or> zlabel z = []"

text \<open>
  The contract of a level of the lookup: the zone chosen matches the label, and matches it
  fully when any sibling does.
\<close>

definition best_match :: "(bytes \<Rightarrow> bytes \<Rightarrow> bool) \<Rightarrow> bytes \<Rightarrow> zone list \<Rightarrow> zone \<Rightarrow> bool" where
  "best_match ieq l siblings z \<longleftrightarrow>
     matches_label ieq l z \<and> ((\<exists>s \<in> set siblings. ieq l (zlabel s)) \<longrightarrow> ieq l (zlabel z))"

fun best_path :: "(bytes \<Rightarrow> bytes \<Rightarrow> bool) \<Rightarrow> zone list \<Rightarrow> bytes list \<Rightarrow> zptr \<Rightarrow> bool" where
  "best_path ieq zones [] zp = (zp = [])"
| "best_path ieq zones (l # ls) zp =
     (case zp of [] \<Rightarrow> False
      | z # up \<Rightarrow> best_match ieq l (children_at zones up) (snd z) \<and> best_path ieq zones ls up)"

lemma scan_siblings_match:
  assumes "scan_siblings ieq l zs w = (Some m, w')"
  shows "m \<in> set zs \<and> ieq l (zlabel (snd m))"
  using assms by (induction zs arbitrary: w) (auto simp: Let_def split: if_splits)

lemma scan_siblings_no_match:
  assumes "scan_siblings ieq l zs w = (None, w')"
  shows "\<forall>z \<in> set zs. \<not> ieq l (zlabel (snd z))"
  using assms by (induction zs arbitrary: w) (auto simp: Let_def split: if_splits)

lemma scan_siblings_wild:
  assumes "scan_siblings ieq l zs w = (None, Some z)"
  shows "w = Some z \<or> z \<in> set zs \<and> zlabel (snd z) = []"
  using assms
proof (induction zs arbitrary: w)
  case (Cons x zs)
  with Cons.IH [of "if zlabel (snd x) = [] then Some x else w"] show ?case
    by (auto simp: Let_def split: if_splits)
qed simp

lemma scan_siblings_no_wild:
  assumes "scan_siblings ieq l zs w = (None, None)"
  shows "w = None \<and> (\<forall>z \<in> set zs. zlabel (snd z) \<noteq> [])"
  using assms
proof (induction zs arbitrary: w)
  case (Cons x zs)
  with Cons.IH [of "if zlabel (snd x) = [] then Some x else w"] show ?case
    by (auto simp: Let_def split: if_splits)
qed simp

lemma snd_enumerate: "snd ` set (enumerate 0 zs) = set zs"
  by (metis map_snd_enumerate set_map)

lemma in_enumerate: "z \<in> set (enumerate 0 zs) \<Longrightarrow> fst z < length zs \<and> zs ! fst z = snd z"
  by (auto simp: in_set_enumerate_eq)

lemma pick_Some:
  assumes "pick ieq l zones = Some z"
  shows "fst z < length zones \<and> zones ! fst z = snd z \<and> best_match ieq l zones (snd z)"
proof -
  obtain m w where s: "scan_siblings ieq l (enumerate 0 zones) None = (m, w)"
    by fastforce
  show ?thesis
  proof (cases m)
    case (Some z')
    with s assms have "z' = z" by (simp add: pick_def)
    with Some s have "scan_siblings ieq l (enumerate 0 zones) None = (Some z, w)" by simp
    from scan_siblings_match [OF this] show ?thesis
      by (auto dest: in_enumerate simp: best_match_def matches_label_def)
  next
    case None
    with s assms have w: "w = Some z" by (simp add: pick_def)
    with s None have "scan_siblings ieq l (enumerate 0 zones) None = (None, Some z)" by simp
    from scan_siblings_no_match [OF this] scan_siblings_wild [OF this] show ?thesis
      unfolding best_match_def matches_label_def snd_enumerate [of zones, symmetric]
      by (auto dest: in_enumerate)
  qed
qed

lemma pick_None:
  "pick ieq l zones = None \<longleftrightarrow> (\<forall>z \<in> set zones. \<not> matches_label ieq l z)"
proof
  assume p: "pick ieq l zones = None"
  then obtain w where s: "scan_siblings ieq l (enumerate 0 zones) None = (None, w)" and "w = None"
    by (auto simp: pick_def split: prod.splits option.splits)
  with scan_siblings_no_match [OF s] scan_siblings_no_wild
  show "\<forall>z \<in> set zones. \<not> matches_label ieq l z"
    unfolding matches_label_def snd_enumerate [of zones, symmetric] by fastforce
next
  assume none: "\<forall>z \<in> set zones. \<not> matches_label ieq l z"
  show "pick ieq l zones = None"
  proof (rule ccontr)
    assume "pick ieq l zones \<noteq> None"
    then obtain z where "pick ieq l zones = Some z" by blast
    from pick_Some [OF this] none show False
      by (metis best_match_def nth_mem)
  qed
qed

lemma Lookup_from_sound:
  assumes "Lookup_from ieq ls zones up auth = (Some zp, auth')"
    and "zones = children_at roots up" "on_path roots up" "best_path ieq roots prev up"
  shows "on_path roots zp \<and> best_path ieq roots (rev ls @ prev) zp \<and>
         auth' = zauthorative (target zp)"
  using assms
proof (induction ieq ls zones up auth arbitrary: prev rule: Lookup_from.induct)
  case (2 ieq l ls zones up auth)
  from "2.prems"(1) obtain z where z: "pick ieq l zones = Some z"
    by (auto split: option.splits)
  note best = pick_Some [OF z]
  have up: "on_path roots (z # up)" "best_path ieq roots (l # prev) (z # up)"
    using best "2.prems" by auto
  show ?case
  proof (cases "ls = []")
    case True
    with "2.prems"(1) z up show ?thesis by (auto simp: target_def)
  next
    case False
    with "2.prems"(1) z have "Lookup_from ieq ls (zchildren (snd z)) (z # up)
        (zauthorative (snd z)) = (Some zp, auth')" by simp
    from "2.IH" [OF z False this, of "l # prev"] up show ?thesis by simp
  qed
qed simp

text \<open>
  C24: a zone that the lookup returns is a zone of the tree, at the depth of the name; at
  every level it matches the label of the name there (equal to it, or a wildcard), and it is
  a wildcard only where no sibling has the label; the \<open>authorative\<close> flag is that zone's own.
\<close>

theorem Lookup_sound:
  assumes "Lookup ieq zones key auth = (Some zp, auth')"
  shows "on_path zones zp \<and> best_path ieq zones key zp \<and> length zp = length key \<and>
         auth' = zauthorative (target zp)"
proof -
  have "best_path ieq zones ks zp \<Longrightarrow> length zp = length ks" for ks
    by (induction ks arbitrary: zp) (auto split: list.splits)
  with Lookup_from_sound [where up = "[]" and roots = zones and prev = "[]"] assms
  show ?thesis by (fastforce simp: Lookup_def)
qed

section \<open>Names of the tree are found\<close>

text \<open>
  What the lookup relies on of \<open>boost::iequals\<close>: it is an equivalence, and only the empty
  label equals the empty label.
\<close>

locale label_equality =
  fixes ieq :: "bytes \<Rightarrow> bytes \<Rightarrow> bool"
  assumes ieq_refl: "ieq a a"
    and ieq_sym: "ieq a b \<Longrightarrow> ieq b a"
    and ieq_trans: "ieq a b \<Longrightarrow> ieq b c \<Longrightarrow> ieq a c"
    and ieq_empty: "ieq a [] \<Longrightarrow> a = []"

text \<open>No two siblings of the tree have the same label.\<close>

fun siblings_distinct :: "(bytes \<Rightarrow> bytes \<Rightarrow> bool) \<Rightarrow> zone list \<Rightarrow> bool" where
  "siblings_distinct ieq [] = True"
| "siblings_distinct ieq (z # zs) =
     (list_all (\<lambda>s. \<not> ieq (zlabel z) (zlabel s)) zs \<and> siblings_distinct ieq zs)"

fun tree_distinct :: "(bytes \<Rightarrow> bytes \<Rightarrow> bool) \<Rightarrow> zone \<Rightarrow> bool" where
  "tree_distinct ieq (Zone l a n m c s ch au) =
     (siblings_distinct ieq ch \<and> list_all (tree_distinct ieq) ch)"

definition forest_distinct :: "(bytes \<Rightarrow> bytes \<Rightarrow> bool) \<Rightarrow> zone list \<Rightarrow> bool" where
  "forest_distinct ieq zones \<longleftrightarrow> siblings_distinct ieq zones \<and> list_all (tree_distinct ieq) zones"

lemma tree_distinct_children:
  "tree_distinct ieq z \<Longrightarrow> siblings_distinct ieq (zchildren z) \<and> list_all (tree_distinct ieq) (zchildren z)"
  by (cases z) simp

lemma forest_distinct_children_at:
  assumes "forest_distinct ieq zones" "on_path zones up"
  shows "siblings_distinct ieq (children_at zones up) \<and>
         list_all (tree_distinct ieq) (children_at zones up)"
  using assms(2)
proof (induction up)
  case Nil
  with assms(1) show ?case by (simp add: forest_distinct_def)
next
  case (Cons z up)
  then have "list_all (tree_distinct ieq) (children_at zones up)" by simp
  with Cons.prems have "tree_distinct ieq (snd z)"
    by (metis list_all_length on_path.simps(2))
  then show ?case by (simp add: tree_distinct_children)
qed

lemma GetDomainName_join: "GetDomainName zp = join_dots (map (\<lambda>z. zlabel (snd z)) zp)"
  by (cases zp) (auto simp: comp_def)

context label_equality
begin

lemma siblings_distinct_nth:
  assumes "siblings_distinct ieq zs" "i < length zs" "j < length zs"
    and "ieq (zlabel (zs ! i)) (zlabel (zs ! j))"
  shows "i = j"
  using assms
proof (induction zs arbitrary: i j)
  case (Cons z zs)
  show ?case
  proof (cases i; cases j)
    fix i' j'
    assume ij: "i = Suc i'" "j = Suc j'"
    with Cons.IH [of i' j'] Cons.prems show ?thesis by simp
  qed (use Cons.prems in \<open>auto simp: list_all_length intro: ieq_sym\<close>)
qed simp

lemma pick_exact:
  assumes "siblings_distinct ieq zs" "i < length zs" "ieq l (zlabel (zs ! i))"
  shows "pick ieq l zs = Some (i, zs ! i)"
proof (cases "pick ieq l zs")
  case None
  with assms(2,3) show ?thesis
    by (metis matches_label_def nth_mem pick_None)
next
  case (Some z)
  from pick_Some [OF this] assms(2,3)
  have z: "fst z < length zs" "zs ! fst z = snd z" "ieq l (zlabel (snd z))"
    by (auto simp: best_match_def)
  with assms have "fst z = i"
    by (metis ieq_sym ieq_trans siblings_distinct_nth)
  with z Some show ?thesis by (metis prod.collapse)
qed

lemma Lookup_from_exact:
  assumes "list_all2 (\<lambda>l z. ieq l (zlabel (snd z))) ls ps" "ps \<noteq> []"
    and "on_path roots (rev ps @ up)" "forest_distinct ieq roots"
  shows "Lookup_from ieq ls (children_at roots up) up auth =
         (Some (rev ps @ up), zauthorative (target (rev ps @ up)))"
  using assms(1-3)
proof (induction ls ps arbitrary: up auth rule: list_all2_induct)
  case (Cons l ls p ps)
  have suffix: "on_path roots (xs @ ys) \<Longrightarrow> on_path roots ys" for xs ys
    by (induction xs) auto
  from Cons.prems have path: "on_path roots (rev ps @ p # up)" by simp
  with suffix have "on_path roots (p # up)" by blast
  then have p: "on_path roots up" "fst p < length (children_at roots up)"
      "children_at roots up ! fst p = snd p" by auto
  with forest_distinct_children_at [OF assms(4)] Cons.hyps(1)
  have pick: "pick ieq l (children_at roots up) = Some p"
    by (metis pick_exact prod.collapse)
  show ?case
  proof (cases "ps = []")
    case True
    with Cons.hyps(2) pick show ?thesis by (simp add: target_def)
  next
    case False
    with Cons.hyps(2) have "ls \<noteq> []" by auto
    with Cons.IH [OF False path] pick show ?thesis by simp
  qed
qed simp

lemma Lookup_exact:
  assumes "list_all2 (\<lambda>l z. ieq l (zlabel (snd z))) key zp" "zp \<noteq> []"
    and "on_path zones zp" "forest_distinct ieq zones"
  shows "Lookup ieq zones key auth = (Some zp, zauthorative (target zp))"
  using Lookup_from_exact [of "rev key" "rev zp" zones "[]" auth] assms
  by (simp add: Lookup_def)

lemma Lookup_own_labels:
  assumes "zp \<noteq> []" "on_path zones zp" "forest_distinct ieq zones"
  shows "Lookup ieq zones (map (\<lambda>z. zlabel (snd z)) zp) auth = (Some zp, zauthorative (target zp))"
  using assms by (intro Lookup_exact) (auto simp: list_all2_conv_all_nth ieq_refl)

end

text \<open>\<open>boost::iequals\<close> on ASCII letters, as in the default locale.\<close>

definition ascii_lower :: "byte \<Rightarrow> byte" where
  "ascii_lower c = (if 65 \<le> c \<and> c \<le> 90 then c + 32 else c)"

definition ascii_iequals :: "bytes \<Rightarrow> bytes \<Rightarrow> bool" where
  "ascii_iequals a b \<longleftrightarrow> map ascii_lower a = map ascii_lower b"

interpretation ascii: label_equality ascii_iequals
  by unfold_locales (auto simp: ascii_iequals_def)

text \<open>
  C25: a name whose labels equal, up to case, the labels of a zone and its ancestors is
  looked up to that zone, whatever wildcards stand beside them, in a tree in which no two
  siblings have the same label.
\<close>

theorem Lookup_finds_zone:
  assumes "label_equality ieq" "forest_distinct ieq zones" "on_path zones zp" "zp \<noteq> []"
    and "list_all2 (\<lambda>l z. ieq l (zlabel (snd z))) key zp"
  shows "Lookup ieq zones key auth = (Some zp, zauthorative (target zp))"
  using label_equality.Lookup_exact [OF assms(1,5,4,3,2)] .

definition leaf_zone :: "bytes \<Rightarrow> address_v4 list \<Rightarrow> zone" where
  "leaf_zone l a = Zone l a [] [] [] None [] False"

definition sample_zones :: "zone list" where
  "sample_zones =
     [Zone [99, 111, 109] [] [] [] [] None
        [Zone [97] [] [] [] [] (Some soa_defaults)
           [leaf_zone [] [(10, 0, 0, 9)], leaf_zone [119] [(10, 0, 0, 1)]] True] False]"

definition sample_ptr :: zptr where
  "sample_ptr =
     (let com = hd sample_zones; a = hd (zchildren com); w = zchildren a ! 1
      in [(1, w), (0, a), (0, com)])"

lemma sample_ptr_on_path: "on_path sample_zones sample_ptr"
  by (simp add: sample_ptr_def sample_zones_def leaf_zone_def Let_def)

lemma sample_forest_distinct: "forest_distinct ascii_iequals sample_zones"
  by (simp add: forest_distinct_def sample_zones_def leaf_zone_def ascii_iequals_def)

theorem Lookup_finds_zone_witness:
  "Lookup ascii_iequals sample_zones [[87], [65], [67, 79, 77]] False =
     (Some sample_ptr, zauthorative (target sample_ptr))"
proof (rule Lookup_finds_zone)
  show "list_all2 (\<lambda>l z. ascii_iequals l (zlabel (snd z))) [[87], [65], [67, 79, 77]] sample_ptr"
    by (simp add: sample_ptr_def sample_zones_def leaf_zone_def ascii_iequals_def ascii_lower_def Let_def)
qed (use ascii.label_equality_axioms sample_ptr_on_path sample_forest_distinct in
      \<open>auto simp: sample_ptr_def Let_def\<close>)

theorem Lookup_sound_witness:
  "on_path sample_zones sample_ptr \<and>
   best_path ascii_iequals sample_zones [[119], [97], [99, 111, 109]] sample_ptr \<and>
   length sample_ptr = length [[119], [97], [99, 111, 109 :: byte]] \<and>
   False = zauthorative (target sample_ptr)"
proof (rule Lookup_sound)
  show "Lookup ascii_iequals sample_zones [[119], [97], [99, 111, 109]] True =
      (Some sample_ptr, False)"
    using ascii.Lookup_own_labels [of sample_ptr sample_zones True]
      sample_ptr_on_path sample_forest_distinct
    by (simp add: sample_ptr_def sample_zones_def leaf_zone_def target_def Let_def)
qed

text \<open>
  The domain name a zone prints for itself, split into fragments, is looked up to the
  zone, when its labels and those of its ancestors hold no dot and the root label is not
  empty.
\<close>

theorem Lookup_GetDomainName:
  assumes "label_equality ieq" "forest_distinct ieq zones" "on_path zones zp" "zp \<noteq> []"
    and "\<forall>z \<in> set zp. dot_free (zlabel (snd z))" "zlabel (snd (last zp)) \<noteq> []"
  shows "fst (Lookup ieq zones (ToFraments (GetDomainName zp)) False) = Some zp"
proof -
  have "ToFraments (GetDomainName zp) = map (\<lambda>z. zlabel (snd z)) zp"
    unfolding GetDomainName_join using assms(4-6)
    by (intro ToFraments_join) (auto simp: last_map)
  with label_equality.Lookup_own_labels [OF assms(1,4,3,2)] show ?thesis by simp
qed

theorem Lookup_GetDomainName_witness:
  "fst (Lookup ascii_iequals sample_zones (ToFraments (GetDomainName sample_ptr)) False) =
     Some sample_ptr"
  by (rule Lookup_GetDomainName [OF ascii.label_equality_axioms sample_forest_distinct
        sample_ptr_on_path])
     (auto simp: sample_ptr_def sample_zones_def leaf_zone_def dot_free_def dot_def Let_def)

section \<open>The authoritative zone\<close>

text \<open>The nearest zone on the way to the root that has an SOA record, which is what is meant to be found.\<close>

fun nearest_soa :: "zptr \<Rightarrow> zptr option" where
  "nearest_soa [] = None"
| "nearest_soa (z # up) = (if zsoa (snd z) \<noteq> None then Some (z # up) else nearest_soa up)"

lemma nearest_soa_suffix:
  "nearest_soa zp = Some sz \<Longrightarrow> sz \<noteq> [] \<and> zsoa (target sz) \<noteq> None \<and> (\<exists>below. zp = below @ sz)"
  by (induction zp) (auto simp: target_def split: if_splits)

text \<open>A zone that is a root, or has the record, or whose parent has it.\<close>

definition soa_near :: "zptr \<Rightarrow> bool" where
  "soa_near zp \<longleftrightarrow> zsoa (target zp) \<noteq> None \<or> tl zp = [] \<or> zsoa (target (tl zp)) \<noteq> None"

lemma soa_loop_root [simp]: "soa_loop zone [] = Some None"
  by (subst soa_loop.simps) simp

lemma soa_loop_here: "z \<noteq> [] \<Longrightarrow> zsoa (target z) \<noteq> None \<Longrightarrow> soa_loop zone z = Some (Some z)"
  by (subst soa_loop.simps) simp

lemma soa_loop_on: "z \<noteq> [] \<Longrightarrow> zsoa (target z) = None \<Longrightarrow> soa_loop zone z = soa_loop zone (tl zone)"
  by (subst soa_loop.simps) simp

lemma soa_loop_stuck:
  assumes "soa_loop zone z = Some r"
  shows "\<not> (z = tl zone \<and> z \<noteq> [] \<and> zsoa (target z) = None)"
proof (rule soa_loop.raw_induct [OF _ assms])
  fix f zone z y
  assume "\<And>zone z y. f zone z = Some y \<Longrightarrow> \<not> (z = tl zone \<and> z \<noteq> [] \<and> zsoa (target z) = None)"
    and "(if z = [] then Some None else if zsoa (target z) \<noteq> None then Some (Some z) else f zone (tl zone)) = Some y"
  then show "\<not> (z = tl zone \<and> z \<noteq> [] \<and> zsoa (target z) = None)" by (auto split: if_splits)
qed

text \<open>
  The search for the zone with the SOA record ends exactly for these zones, and then it finds the nearest one; for any other
  zone it goes round at the parent without end.
\<close>

theorem GetSoaZone_finds:
  assumes "zp \<noteq> []"
  shows "GetSoaZone zp = (if soa_near zp then Some (nearest_soa zp) else None)"
proof -
  obtain z up where zp: "zp = z # up" using assms by (cases zp) auto
  show ?thesis
  proof (cases "soa_near zp")
    case True
    then show ?thesis unfolding zp GetSoaZone_def
      by (cases "zsoa (snd z)"; cases up) (auto simp: soa_loop_here soa_loop_on soa_near_def target_def)
  next
    case False
    then have no: "zsoa (target zp) = None" "tl zp \<noteq> []" "zsoa (target (tl zp)) = None" by (simp_all add: soa_near_def)
    then have "soa_loop zp (tl zp) = None" using soa_loop_stuck [of zp "tl zp"] by (cases "soa_loop zp (tl zp)") auto
    with False soa_loop_on [OF assms no(1)] show ?thesis by (simp add: GetSoaZone_def)
  qed
qed

end
