(* ===== verification/DnsAnswer.thy ===== *)
theory DnsAnswer
  imports DnsCompress DnsZone
begin

text \<open>
  Resource records: class \<open>AnswerBase\<close> and its subclasses \<open>RdataA\<close>, \<open>RdataCname\<close>,
  \<open>RdataMx\<close>, \<open>RdataNs\<close> and \<open>RdataSoa\<close> of \<open>src/dnsd/Message.h\<close>. The interface they share,
  the pure virtual \<open>Write\<close>, is a locale that each of the five interprets.
\<close>

section \<open>State\<close>

record AnswerBase =
  ab_name_ptr :: u16
  ab_name :: bytes
  ab_type :: u16
  ab_class :: u16
  ab_ttl :: u16
  ab_rdlength_hdr :: nat
  ab_rdlength :: u16
  ab_size :: nat
  ab_orig_len :: nat

text \<open>The two constructors: a record owned by a name, and by a name already in the reply.\<close>

definition named_answer :: "bytes \<Rightarrow> u16 \<Rightarrow> u16 \<Rightarrow> AnswerBase" where
  "named_answer name rType rDlength =
     \<lparr>ab_name_ptr = 0, ab_name = name, ab_type = rType, ab_class = 1, ab_ttl = 300,
      ab_rdlength_hdr = 0, ab_rdlength = rDlength, ab_size = 0, ab_orig_len = 0\<rparr>"

definition pointer_answer :: "u16 \<Rightarrow> u16 \<Rightarrow> u16 \<Rightarrow> AnswerBase" where
  "pointer_answer namePtr rType rDlength =
     \<lparr>ab_name_ptr = namePtr OR 0xC000, ab_name = [], ab_type = rType, ab_class = 1, ab_ttl = 300,
      ab_rdlength_hdr = 0, ab_rdlength = rDlength, ab_size = 0, ab_orig_len = 0\<rparr>"

section \<open>The common part\<close>

definition Revert :: "AnswerBase \<Rightarrow> bytes \<Rightarrow> bytes" where
  "Revert ab buffer = take (ab_orig_len ab) buffer"

definition WriteRdlength :: "AnswerBase \<Rightarrow> bytes \<Rightarrow> bytes" where
  "WriteRdlength ab buffer = put_at buffer (ab_rdlength_hdr ab) (htons_bytes (ab_rdlength ab))"

text \<open>
  The owner name, if there is one, then ten bytes (twelve with a name pointer) that the
  buffer is extended by and that the fields are stored into.
\<close>

definition WriteHeader ::
  "AnswerBase \<Rightarrow> bytes \<Rightarrow> u16 list \<Rightarrow> (AnswerBase \<times> bytes \<times> u16 list) res" where
  "WriteHeader ab buffer labels =
     rbind (if ab_name ab \<noteq> [] then WriteDomainName buffer labels (ab_name ab) []
            else Inr (buffer, labels)) (\<lambda>(buf1, labels1).
     let remaining = (if ab_name_ptr ab \<noteq> 0 then 12 else 10);
         buf2 = buf1 @ replicate remaining 0;
         p = length buf2 - remaining
     in rbind (if ab_name_ptr ab \<noteq> 0
               then (let buf3 = put_at buf2 p (htons_bytes (ab_name_ptr ab))
                     in rbind (AddLabelForCompression (ab_name_ptr ab) buf3 labels1) (\<lambda>labels2.
                        Inr (buf3, labels2, p + 2)))
               else Inr (buf2, labels1, p)) (\<lambda>(buf4, labels2, p1).
        let buf5 = put_at buf4 p1
              (htons_bytes (ab_type ab) @ htons_bytes (ab_class ab) @ htonl_bytes (ucast (ab_ttl ab)));
            ab1 = ab\<lparr>ab_orig_len := length buffer, ab_rdlength_hdr := length buf5 - 2\<rparr>;
            buf6 = WriteRdlength ab1 buf5
        in Inr (ab1\<lparr>ab_size := length buf6 - length buffer\<rparr>, buf6, labels2)))"

section \<open>The record types\<close>

datatype rdata =
    RdataA address_v4
  | RdataCname bytes
  | RdataMx bytes u16
  | RdataNs bytes
  | RdataSoa zptr

text \<open>The type codes the subclasses pass to the base class.\<close>

fun rdata_type :: "rdata \<Rightarrow> u16" where
  "rdata_type (RdataA ip) = 1"
| "rdata_type (RdataCname cname) = 5"
| "rdata_type (RdataMx fqdn pri) = 15"
| "rdata_type (RdataNs fdqn) = 2"
| "rdata_type (RdataSoa zone) = 6"

type_synonym writer = "bytes \<Rightarrow> u16 list \<Rightarrow> (AnswerBase \<times> bytes \<times> u16 list) res"

definition RdataA_Write :: "AnswerBase \<Rightarrow> address_v4 \<Rightarrow> writer" where
  "RdataA_Write ab ip buffer labels =
     rbind (WriteHeader ab buffer labels) (\<lambda>(ab1, buf1, labels1).
       Inr (ab1\<lparr>ab_size := ab_size ab1 + 4\<rparr>, buf1 @ to_bytes ip, labels1))"

text \<open>\<open>rdlength_ = \<dots>; size_ += rdlength_; WriteRdlength(buffer);\<close>\<close>

definition finish_rdata :: "AnswerBase \<Rightarrow> nat \<Rightarrow> bytes \<Rightarrow> u16 list \<Rightarrow> (AnswerBase \<times> bytes \<times> u16 list) res" where
  "finish_rdata ab n buffer labels =
     (let ab1 = ab\<lparr>ab_rdlength := of_nat n\<rparr>;
          ab2 = ab1\<lparr>ab_size := ab_size ab1 + unat (ab_rdlength ab1)\<rparr>
      in Inr (ab2, WriteRdlength ab2 buffer, labels))"

definition RdataCname_Write :: "AnswerBase \<Rightarrow> bytes \<Rightarrow> writer" where
  "RdataCname_Write ab cname buffer labels =
     rbind (WriteHeader ab buffer labels) (\<lambda>(ab1, buf1, labels1).
     rbind (WriteDomainName buf1 labels1 cname []) (\<lambda>(buf2, labels2).
       finish_rdata ab1 (length buf2 - length buf1) buf2 labels2))"

definition RdataMx_Write :: "AnswerBase \<Rightarrow> bytes \<times> u16 \<Rightarrow> writer" where
  "RdataMx_Write ab mx buffer labels =
     rbind (WriteHeader ab buffer labels) (\<lambda>(ab1, buf1, labels1).
     let buf2 = buf1 @ replicate 2 0;
         buf3 = put_at buf2 (length buf2 - 2) (htons_bytes (snd mx))
     in rbind (WriteDomainName buf3 labels1 (fst mx) []) (\<lambda>(buf4, labels2).
       finish_rdata ab1 (2 + (length buf4 - length buf3)) buf4 labels2))"

definition RdataNs_Write :: "AnswerBase \<Rightarrow> bytes \<Rightarrow> writer" where
  "RdataNs_Write ab fdqn buffer labels =
     rbind (WriteHeader ab buffer labels) (\<lambda>(ab1, buf1, labels1).
     rbind (WriteDomainName buf1 labels1 fdqn []) (\<lambda>(buf2, labels2).
       finish_rdata ab1 (length buf2 - length buf1) buf2 labels2))"

definition zone_labels :: "zptr \<Rightarrow> bytes list" where
  "zone_labels zp = map (\<lambda>z. zlabel (snd z)) zp"

definition soa_numbers :: "soa_t \<Rightarrow> bytes" where
  "soa_numbers s = htonl_bytes (soa_serial s) @ htonl_bytes (soa_refresh s) @
     htonl_bytes (soa_retry s) @ htonl_bytes (soa_expire s) @ htonl_bytes (soa_minimum s)"

text \<open>A zone without an SOA record would make \<open>zone_.soa\<close> a null pointer.\<close>

definition RdataSoa_Write :: "AnswerBase \<Rightarrow> zptr \<Rightarrow> writer" where
  "RdataSoa_Write ab zone buffer labels =
     rbind (WriteHeader ab buffer labels) (\<lambda>(ab1, buf1, labels1).
     case zsoa (target zone) of
       None \<Rightarrow> Inl UndefinedBehaviour
     | Some s \<Rightarrow>
         rbind (GetMname (target zone)) (\<lambda>mname.
         rbind (WriteDomainName buf1 labels1 (ns_fqdn mname) (zone_labels zone)) (\<lambda>(buf2, labels2).
         rbind (WriteDomainName buf2 labels2 (soa_rname s) (zone_labels zone)) (\<lambda>(buf3, labels3).
           let buf4 = buf3 @ replicate 20 0;
               buf5 = put_at buf4 (length buf4 - 20) (soa_numbers s)
           in finish_rdata ab1 (length buf5 - length buf1) buf5 labels3))))"

text \<open>The virtual call.\<close>

fun Write :: "AnswerBase \<Rightarrow> rdata \<Rightarrow> writer" where
  "Write ab (RdataA ip) = RdataA_Write ab ip"
| "Write ab (RdataCname cname) = RdataCname_Write ab cname"
| "Write ab (RdataMx fqdn pri) = RdataMx_Write ab (fqdn, pri)"
| "Write ab (RdataNs fdqn) = RdataNs_Write ab fdqn"
| "Write ab (RdataSoa zone) = RdataSoa_Write ab zone"

section \<open>What a written record is\<close>

text \<open>The data of a record at \<open>s\<close>, up to \<open>e\<close>.\<close>

fun rdata_at :: "nat set \<Rightarrow> bytes \<Rightarrow> nat \<Rightarrow> rdata \<Rightarrow> nat \<Rightarrow> bool" where
  "rdata_at P buf s (RdataA ip) e \<longleftrightarrow> e = s + 4 \<and> segment buf s 4 = to_bytes ip"
| "rdata_at P buf s (RdataCname cname) e \<longleftrightarrow>
     name_at P buf s (ToFraments cname) \<and> name_end buf s = Some e"
| "rdata_at P buf s (RdataMx fqdn pri) e \<longleftrightarrow>
     segment buf s 2 = htons_bytes pri \<and>
     name_at P buf (s + 2) (ToFraments fqdn) \<and> name_end buf (s + 2) = Some e"
| "rdata_at P buf s (RdataNs fdqn) e \<longleftrightarrow>
     name_at P buf s (ToFraments fdqn) \<and> name_end buf s = Some e"
| "rdata_at P buf s (RdataSoa zone) e \<longleftrightarrow>
     (\<exists>soa mname m1 m2. zsoa (target zone) = Some soa \<and> GetMname (target zone) = Inr mname \<and>
        name_at P buf s (ToFraments (complete_name (ns_fqdn mname) (zone_labels zone))) \<and>
        name_end buf s = Some m1 \<and>
        name_at P buf m1 (ToFraments (complete_name (soa_rname soa) (zone_labels zone))) \<and>
        name_end buf m1 = Some m2 \<and>
        segment buf m2 20 = soa_numbers soa \<and> e = m2 + 20)"

text \<open>The names a record's data is written from, and the room the data takes at most.\<close>

definition name_room :: "bytes \<Rightarrow> nat" where
  "name_room name = length (wire_name (ToFraments name))"

fun rdata_ok :: "rdata \<Rightarrow> bool" where
  "rdata_ok (RdataA ip) = True"
| "rdata_ok (RdataCname cname) = good_name cname"
| "rdata_ok (RdataMx fqdn pri) = good_name fqdn"
| "rdata_ok (RdataNs fdqn) = good_name fdqn"
| "rdata_ok (RdataSoa zone) =
     (case (zsoa (target zone), zns (target zone)) of
        (Some soa, n # _) \<Rightarrow> good_name (complete_name (ns_fqdn n) (zone_labels zone)) \<and>
                            good_name (complete_name (soa_rname soa) (zone_labels zone))
      | _ \<Rightarrow> False)"

fun rdata_room :: "rdata \<Rightarrow> nat" where
  "rdata_room (RdataA ip) = 4"
| "rdata_room (RdataCname cname) = name_room cname"
| "rdata_room (RdataMx fqdn pri) = 2 + name_room fqdn"
| "rdata_room (RdataNs fdqn) = name_room fdqn"
| "rdata_room (RdataSoa zone) =
     (case (zsoa (target zone), zns (target zone)) of
        (Some soa, n # _) \<Rightarrow> name_room (complete_name (ns_fqdn n) (zone_labels zone)) +
                            name_room (complete_name (soa_rname soa) (zone_labels zone)) + 20
      | _ \<Rightarrow> 0)"

text \<open>
  A record at \<open>off\<close>, up to \<open>e\<close>: its owner's name, then type, class IN, a time to live of
  300 seconds, the length of the data, and the data.
\<close>

definition fixed_fields :: "u16 \<Rightarrow> u16 \<Rightarrow> bytes" where
  "fixed_fields rtype rdlength =
     htons_bytes rtype @ htons_bytes 1 @ htonl_bytes 300 @ htons_bytes rdlength"

type_synonym rr = "bytes list \<times> rdata"

definition rr_at :: "nat set \<Rightarrow> bytes \<Rightarrow> nat \<Rightarrow> rr \<Rightarrow> nat \<Rightarrow> bool" where
  "rr_at P buf off r e \<longleftrightarrow>
     (\<exists>n. name_at P buf off (fst r) \<and> name_end buf off = Some n \<and>
        n + 10 \<le> e \<and> e \<le> length buf \<and> e - (n + 10) < 2 ^ 16 \<and>
        segment buf n 10 = fixed_fields (rdata_type (snd r)) (of_nat (e - (n + 10))) \<and>
        rdata_at P buf (n + 10) (snd r) e)"

text \<open>The owner a record object stands for, given the names in the buffer.\<close>

definition owner_is :: "nat set \<Rightarrow> bytes \<Rightarrow> AnswerBase \<Rightarrow> bytes list \<Rightarrow> bool" where
  "owner_is P buf ab owner \<longleftrightarrow>
     (ab_name_ptr ab = 0 \<and> ab_name ab \<noteq> [] \<and> good_name (ab_name ab) \<and>
        owner = ToFraments (ab_name ab)) \<or>
     (ab_name ab = [] \<and> ab_name_ptr ab OR 0xC000 = ab_name_ptr ab \<and>
        name_at P buf (ofs14 (ab_name_ptr ab)) owner)"

definition owner_room :: "AnswerBase \<Rightarrow> nat" where
  "owner_room ab = (if ab_name ab \<noteq> [] then name_room (ab_name ab) else 2)"

section \<open>Moving records along with the buffer\<close>

text \<open>Names, data and records stay what they are when bytes are appended.\<close>

lemma segment_append_eq:
  "segment buf off (length ys) = ys \<Longrightarrow> segment (buf @ ext) off (length ys) = ys"
proof -
  assume eq: "segment buf off (length ys) = ys"
  then have "length (segment buf off (length ys)) = length ys" by simp
  then have "off + length ys \<le> length buf \<or> ys = []"
    by (cases ys) (auto simp: segment_def)
  with eq show ?thesis by (auto simp: segment_def)
qed

lemma length_soa_numbers [simp]: "length (soa_numbers s) = 20"
  by (simp add: soa_numbers_def)

lemma length_fixed_fields [simp]: "length (fixed_fields t n) = 10"
  by (simp add: fixed_fields_def)

lemma length_to_bytes [simp]: "length (to_bytes ip) = 4"
  by (cases ip) simp

lemma rdata_at_append: "rdata_at P buf s d e \<Longrightarrow> rdata_at P (buf @ ext) s d e"
proof (cases d)
  case (RdataA ip)
  then show "rdata_at P buf s d e \<Longrightarrow> ?thesis"
    using segment_append_eq [of buf s "to_bytes ip"] by simp
next
  case (RdataMx fqdn pri)
  then show "rdata_at P buf s d e \<Longrightarrow> ?thesis"
    using segment_append_eq [of buf s "htons_bytes pri"]
    by (auto intro: name_at_append name_end_append)
next
  case (RdataSoa zone)
  then show "rdata_at P buf s d e \<Longrightarrow> ?thesis"
    using segment_append_eq [of buf _ "soa_numbers _"]
    by (fastforce intro: name_at_append name_end_append)
qed (auto intro: name_at_append name_end_append)

lemma rdata_at_drop:
  assumes "rdata_at P buf s d e" "drop s buf' = drop s buf" "length buf' = length buf"
    and "\<And>i. i \<in> P \<Longrightarrow> i < length buf \<Longrightarrow> buf' ! i = buf ! i" "P \<subseteq> Q"
  shows "rdata_at Q buf' s d e"
proof -
  have name: "name_at P buf off fs \<Longrightarrow> name_at Q buf' off fs" for off fs
    using name_at_agree [of P buf off fs Q buf'] assms by simp
  have ends: "s \<le> off \<Longrightarrow> name_end buf' off = name_end buf off" for off
    using assms by (intro name_end_drop) auto
  have segs: "s \<le> off \<Longrightarrow> segment buf' off n = segment buf off n" for off n
    using assms(2) by (rule segment_drop)
  show ?thesis
  proof (cases d)
    case (RdataSoa zone)
    with assms(1) obtain soa mname m1 m2 where
      "zsoa (target zone) = Some soa" "GetMname (target zone) = Inr mname"
      "name_at P buf s (ToFraments (complete_name (ns_fqdn mname) (zone_labels zone)))"
      "name_end buf s = Some m1"
      "name_at P buf m1 (ToFraments (complete_name (soa_rname soa) (zone_labels zone)))"
      "name_end buf m1 = Some m2" "segment buf m2 20 = soa_numbers soa" "e = m2 + 20"
      by auto
    moreover from this(4,6) have "s \<le> m1" "s \<le> m2" by (auto dest!: name_end_bound)
    ultimately show ?thesis using RdataSoa name ends segs by auto
  qed (use assms(1) name ends segs in auto)
qed

lemma rr_at_append: "rr_at P buf off r e \<Longrightarrow> rr_at P (buf @ ext) off r e"
  unfolding rr_at_def
  using segment_append_eq [of buf _ "fixed_fields _ _"]
  by (fastforce intro: name_at_append name_end_append rdata_at_append)

lemma rr_at_drop:
  assumes "rr_at P buf off r e" "drop off buf' = drop off buf" "length buf' = length buf"
    and "\<And>i. i \<in> P \<Longrightarrow> i < length buf \<Longrightarrow> buf' ! i = buf ! i" "P \<subseteq> Q"
  shows "rr_at Q buf' off r e"
proof -
  from assms(1) obtain n where n: "name_at P buf off (fst r)" "name_end buf off = Some n"
      "n + 10 \<le> e" "e \<le> length buf" "e - (n + 10) < 2 ^ 16"
      "segment buf n 10 = fixed_fields (rdata_type (snd r)) (of_nat (e - (n + 10)))"
      "rdata_at P buf (n + 10) (snd r) e"
    unfolding rr_at_def by blast
  have "off < n" using n(2) by (rule name_end_bound)
  then have "drop (n + 10) buf' = drop (n + 10) buf"
    using assms(2) by (metis add.commute drop_drop le_add_diff_inverse less_imp_le_nat trans_le_add1)
  with n(7) have "rdata_at Q buf' (n + 10) (snd r) e"
    using assms(3,4,5) by (rule rdata_at_drop)
  moreover have "name_at Q buf' off (fst r)"
    using n(1) assms by (intro name_at_agree [OF n(1)]) auto
  moreover have "name_end buf' off = Some n" using n(2) assms by (simp add: name_end_drop)
  moreover have "segment buf' n 10 = segment buf n 10"
    using assms(2) \<open>off < n\<close> by (intro segment_drop) auto
  ultimately show ?thesis unfolding rr_at_def using n assms(3) by auto
qed

section \<open>Every writer appends\<close>

text \<open>
  The first contract of \<open>Write\<close>: what it returns is the old buffer with bytes behind it, the
  object remembers where it began, and no label is forgotten. Undoing the write then gives
  the old buffer back.
\<close>

locale answer_writer =
  fixes wr :: "AnswerBase \<Rightarrow> 'd \<Rightarrow> bytes \<Rightarrow> u16 list \<Rightarrow> (AnswerBase \<times> bytes \<times> u16 list) res"
  assumes write_frame: "wr ab d buf labels = Inr (ab', buf', labels') \<Longrightarrow>
    (\<exists>ext. buf' = buf @ ext) \<and> ab_orig_len ab' = length buf \<and> set labels \<subseteq> set labels'"
begin

lemma Revert_restores: "wr ab d buf labels = Inr (ab', buf', labels') \<Longrightarrow> Revert ab' buf' = buf"
  by (auto simp: Revert_def dest: write_frame)

lemma write_grows: "wr ab d buf labels = Inr (ab', buf', labels') \<Longrightarrow> length buf \<le> length buf'"
  by (auto dest: write_frame)

end

lemma WriteRdlength_frame:
  assumes "length buf \<le> ab_rdlength_hdr ab" "ab_rdlength_hdr ab + 2 \<le> length (buf @ ext)"
  shows "\<exists>ext'. WriteRdlength ab (buf @ ext) = buf @ ext' \<and> length ext' = length ext"
proof -
  obtain k where k: "ab_rdlength_hdr ab = length buf + k"
    using assms(1) by (auto dest: le_Suc_ex)
  with assms(2) show ?thesis
    by (intro exI [of _ "put_at ext k (htons_bytes (ab_rdlength ab))"])
       (simp add: WriteRdlength_def)
qed

lemma WriteHeader_frame:
  assumes "WriteHeader ab buf labels = Inr (ab', buf', labels')"
  shows "(\<exists>ext. buf' = buf @ ext \<and> 10 \<le> length ext) \<and> ab_orig_len ab' = length buf \<and>
    ab_rdlength_hdr ab' = length buf' - 2 \<and> set labels \<subseteq> set labels'"
proof -
  obtain buf1 labels1 where
    w: "(if ab_name ab \<noteq> [] then WriteDomainName buf labels (ab_name ab) [] else Inr (buf, labels)) =
        Inr (buf1, labels1)"
    using assms by (auto simp: WriteHeader_def)
  then obtain e1 where e1: "buf1 = buf @ e1" and l1: "set labels \<subseteq> set labels1"
    by (auto split: if_splits dest: WriteDomainName_frame)
  show ?thesis
  proof (cases "ab_name_ptr ab = 0")
    case True
    with assms w e1 l1 show ?thesis
      by (auto simp: WriteHeader_def WriteRdlength_def put_at_def Let_def)
  next
    case False
    with assms w e1 l1 AddLabel_frame show ?thesis
      by (fastforce simp: WriteHeader_def WriteRdlength_def put_at_def Let_def)
  qed
qed

lemma finish_rdata_frame:
  assumes "finish_rdata ab n (buf @ ext) labels = Inr (ab', buf', labels')"
    and "length buf \<le> ab_rdlength_hdr ab" "ab_rdlength_hdr ab + 2 \<le> length (buf @ ext)"
  shows "(\<exists>ext. buf' = buf @ ext) \<and> ab_orig_len ab' = ab_orig_len ab \<and> labels' = labels"
proof -
  let ?ab1 = "ab\<lparr>ab_rdlength := of_nat n\<rparr>"
  let ?ab2 = "?ab1\<lparr>ab_size := ab_size ?ab1 + unat (ab_rdlength ?ab1)\<rparr>"
  from WriteRdlength_frame [of buf ?ab2 ext] assms(2,3)
  obtain ext' where "WriteRdlength ?ab2 (buf @ ext) = buf @ ext'" by auto
  with assms(1) show ?thesis by (auto simp: finish_rdata_def Let_def)
qed

text \<open>
  Four of the five writers have one shape: the header, a body that appends the data, and the
  data's length stored back into the header.
\<close>

definition write_with ::
  "(bytes \<Rightarrow> u16 list \<Rightarrow> (bytes \<times> u16 list) res) \<Rightarrow> AnswerBase \<Rightarrow> writer" where
  "write_with body ab buffer labels =
     rbind (WriteHeader ab buffer labels) (\<lambda>(ab1, buf1, labels1).
     rbind (body buf1 labels1) (\<lambda>(buf2, labels2).
       finish_rdata ab1 (length buf2 - length buf1) buf2 labels2))"

definition appends :: "(bytes \<Rightarrow> u16 list \<Rightarrow> (bytes \<times> u16 list) res) \<Rightarrow> bool" where
  "appends body \<longleftrightarrow> (\<forall>buf labels buf' labels'. body buf labels = Inr (buf', labels') \<longrightarrow>
     (\<exists>ext. buf' = buf @ ext) \<and> set labels \<subseteq> set labels')"

lemma write_with_frame:
  assumes "write_with body ab buf labels = Inr (ab', buf', labels')" "appends body"
  shows "(\<exists>ext. buf' = buf @ ext) \<and> ab_orig_len ab' = length buf \<and> set labels \<subseteq> set labels'"
proof -
  from assms(1) obtain ab1 buf1 labels1 buf2 labels2 where
    h: "WriteHeader ab buf labels = Inr (ab1, buf1, labels1)" and
    b: "body buf1 labels1 = Inr (buf2, labels2)" and
    f: "finish_rdata ab1 (length buf2 - length buf1) buf2 labels2 = Inr (ab', buf', labels')"
    by (auto simp: write_with_def)
  from WriteHeader_frame [OF h] obtain e1 where e1: "buf1 = buf @ e1" "10 \<le> length e1"
    "ab_orig_len ab1 = length buf" "ab_rdlength_hdr ab1 = length buf1 - 2" "set labels \<subseteq> set labels1"
    by blast
  from assms(2) b obtain e2 where e2: "buf2 = buf1 @ e2" "set labels1 \<subseteq> set labels2"
    unfolding appends_def by blast
  from f e1 e2 finish_rdata_frame [of ab1 "length buf2 - length buf1" buf "e1 @ e2" labels2]
  show ?thesis by simp
qed

definition name_body :: "bytes \<Rightarrow> bytes \<Rightarrow> u16 list \<Rightarrow> (bytes \<times> u16 list) res" where
  "name_body name buf labels = WriteDomainName buf labels name []"

definition mx_body :: "bytes \<times> u16 \<Rightarrow> bytes \<Rightarrow> u16 list \<Rightarrow> (bytes \<times> u16 list) res" where
  "mx_body mx buf labels = WriteDomainName (buf @ htons_bytes (snd mx)) labels (fst mx) []"

definition soa_body :: "zptr \<Rightarrow> bytes \<Rightarrow> u16 list \<Rightarrow> (bytes \<times> u16 list) res" where
  "soa_body zone buf labels =
     (case zsoa (target zone) of
        None \<Rightarrow> Inl UndefinedBehaviour
      | Some s \<Rightarrow>
          rbind (GetMname (target zone)) (\<lambda>mname.
          rbind (WriteDomainName buf labels (ns_fqdn mname) (zone_labels zone)) (\<lambda>(buf2, labels2).
          rbind (WriteDomainName buf2 labels2 (soa_rname s) (zone_labels zone)) (\<lambda>(buf3, labels3).
            Inr (buf3 @ soa_numbers s, labels3)))))"

lemma appends_name: "appends (name_body name)"
  by (auto simp: appends_def name_body_def dest: WriteDomainName_frame)

lemma appends_mx: "appends (mx_body mx)"
  by (auto simp: appends_def mx_body_def dest!: WriteDomainName_frame)

lemma appends_soa: "appends (soa_body zone)"
  by (fastforce simp: appends_def soa_body_def split: option.splits dest!: WriteDomainName_frame)

lemma RdataCname_Write_body: "RdataCname_Write ab name = write_with (name_body name) ab"
  by (simp add: fun_eq_iff RdataCname_Write_def write_with_def name_body_def)

lemma RdataNs_Write_body: "RdataNs_Write ab name = write_with (name_body name) ab"
  by (simp add: fun_eq_iff RdataNs_Write_def write_with_def name_body_def)

lemma rbind_cong: "m = m' \<Longrightarrow> (\<And>x. m' = Inr x \<Longrightarrow> f x = g x) \<Longrightarrow> rbind m f = rbind m' g"
  by (cases m') auto

lemma RdataMx_Write_body: "RdataMx_Write ab mx = write_with (mx_body mx) ab"
proof (rule ext)+
  fix buf labels
  show "RdataMx_Write ab mx buf labels = write_with (mx_body mx) ab buf labels"
    unfolding RdataMx_Write_def write_with_def mx_body_def
    by (intro rbind_cong)
       (auto simp: Let_def put_at_def dest!: WriteDomainName_frame intro!: rbind_cong arg_cong2 [of _ _ _ _ "\<lambda>n b. finish_rdata _ n b _"])
qed

lemma RdataSoa_Write_body: "RdataSoa_Write ab zone = write_with (soa_body zone) ab"
  by (rule ext)+
     (simp add: RdataSoa_Write_def write_with_def soa_body_def rbind_case Let_def put_at_def
       split: sum.splits option.splits prod.splits)

interpretation cname_frame: answer_writer RdataCname_Write
  by unfold_locales (auto simp: RdataCname_Write_body dest!: write_with_frame [OF _ appends_name])

interpretation ns_frame: answer_writer RdataNs_Write
  by unfold_locales (auto simp: RdataNs_Write_body dest!: write_with_frame [OF _ appends_name])

interpretation mx_frame: answer_writer RdataMx_Write
  by unfold_locales (auto simp: RdataMx_Write_body dest!: write_with_frame [OF _ appends_mx])

interpretation soa_frame: answer_writer RdataSoa_Write
  by unfold_locales (auto simp: RdataSoa_Write_body dest!: write_with_frame [OF _ appends_soa])

interpretation a_frame: answer_writer RdataA_Write
  by unfold_locales (auto simp: RdataA_Write_def dest!: WriteHeader_frame)

interpretation any_frame: answer_writer Write
proof
  fix ab d buf labels ab' buf' labels'
  assume "Write ab d buf labels = Inr (ab', buf', labels')"
  then show "(\<exists>ext. buf' = buf @ ext) \<and> ab_orig_len ab' = length buf \<and> set labels \<subseteq> set labels'"
    by (cases d) (auto dest: a_frame.write_frame cname_frame.write_frame mx_frame.write_frame
        ns_frame.write_frame soa_frame.write_frame)
qed

section \<open>Every writer writes its record\<close>

text \<open>
  The state of the reply between two records: all names lie inside the buffer and every entry
  of the label table leads to one.
\<close>

definition names_ok :: "nat set \<Rightarrow> bytes \<Rightarrow> u16 list \<Rightarrow> bool" where
  "names_ok P buf labels \<longleftrightarrow> P \<subseteq> {..<length buf} \<and> table_ok P buf labels"

definition extended :: "nat set \<Rightarrow> bytes \<Rightarrow> nat set \<Rightarrow> bytes \<Rightarrow> bool" where
  "extended P buf Q buf' \<longleftrightarrow> P \<subseteq> Q \<and> Q \<subseteq> P \<union> {length buf..<length buf'}"

fun rdata_rdlength :: "rdata \<Rightarrow> u16" where
  "rdata_rdlength (RdataA ip) = 4"
| "rdata_rdlength _ = 0"

definition ab_for :: "AnswerBase \<Rightarrow> rdata \<Rightarrow> bool" where
  "ab_for ab d \<longleftrightarrow> ab_type ab = rdata_type d \<and> ab_class ab = 1 \<and> ab_ttl ab = 300 \<and>
     ab_rdlength ab = rdata_rdlength d"

definition record_ready ::
  "nat set \<Rightarrow> bytes \<Rightarrow> u16 list \<Rightarrow> AnswerBase \<Rightarrow> bytes list \<Rightarrow> rdata \<Rightarrow> bool" where
  "record_ready P buf labels ab owner d \<longleftrightarrow>
     names_ok P buf labels \<and> owner_is P buf ab owner \<and> ab_for ab d \<and> rdata_ok d \<and>
     length buf + owner_room ab + 10 + rdata_room d \<le> 2 ^ 14"

definition record_written ::
  "nat set \<Rightarrow> bytes \<Rightarrow> AnswerBase \<Rightarrow> bytes list \<Rightarrow> rdata \<Rightarrow>
     (AnswerBase \<times> bytes \<times> u16 list) res \<Rightarrow> bool" where
  "record_written P buf ab owner d result \<longleftrightarrow>
     (\<exists>ab' buf' labels' Q. result = Inr (ab', buf', labels') \<and> take (length buf) buf' = buf \<and>
        extended P buf Q buf' \<and> names_ok Q buf' labels' \<and>
        rr_at Q buf' (length buf) (owner, d) (length buf') \<and>
        length buf' \<le> length buf + owner_room ab + 10 + rdata_room d)"

text \<open>The second contract: given names that fit, \<open>Write\<close> does not fail and leaves its record.\<close>

locale rr_writer = answer_writer wr
  for wr :: "AnswerBase \<Rightarrow> 'd \<Rightarrow> bytes \<Rightarrow> u16 list \<Rightarrow> (AnswerBase \<times> bytes \<times> u16 list) res" +
  fixes inject :: "'d \<Rightarrow> rdata"
  assumes write_record: "record_ready P buf labels ab owner (inject d) \<Longrightarrow>
    record_written P buf ab owner (inject d) (wr ab d buf labels)"
begin

lemma write_succeeds:
  "record_ready P buf labels ab owner (inject d) \<Longrightarrow> \<exists>ab' ext labels'.
     wr ab d buf labels = Inr (ab', buf @ ext, labels') \<and> Revert ab' (buf @ ext) = buf"
  using write_record write_frame Revert_restores unfolding record_written_def by metis

end

lemma pointer_owner:
  assumes "name_at P buf (ofs14 l) fs" "l OR 0xC000 = l"
  shows "name_at (P \<union> {length buf..<length (buf @ htons_bytes l)}) (buf @ htons_bytes l) (length buf) fs"
    and "name_end (buf @ htons_bytes l) (length buf) = Some (length (buf @ htons_bytes l))"
proof -
  let ?B = "buf @ htons_bytes l"
  let ?Q = "P \<union> {length buf..<length ?B}"
  have "is_pointer (ucast (drop_bit 8 (l OR 0xC000)) :: byte)"
    unfolding is_pointer_def by (rule bit_word_eqI) (auto simp: bit_simps)
  with assms(2) have hi: "is_pointer (ucast (drop_bit 8 l) :: byte)" by simp
  have at: "?B ! length buf = ucast (drop_bit 8 l)" "?B ! (length buf + 1) = ucast l"
    by (simp_all add: htons_bytes_def nth_append)
  show "name_at ?Q ?B (length buf) fs"
  proof (rule name_at.name_pointer)
    show "is_pointer (?B ! length buf)" using hi at by simp
    have "name_at ?Q ?B (ofs14 l) fs"
      using assms(1) by (rule name_at_agree) (auto simp: nth_append)
    then show "name_at ?Q ?B (ofs14 (ntohs_bytes (?B ! length buf) (?B ! (length buf + 1)))) fs"
      unfolding at ntohs_htons .
  qed simp_all
  show "name_end ?B (length buf) = Some (length ?B)"
    using hi pointer_not_small [OF hi] at
    by (subst name_end.simps) (simp add: Let_def)
qed

lemma replicate_two: "replicate 12 (0 :: byte) = [0, 0] @ replicate 10 0"
  by (simp add: numeral_eq_Suc)

lemma put_fixed:
  "length pre = length buf + k \<Longrightarrow> pre = buf @ nm \<Longrightarrow>
   put_at (put_at (pre @ replicate 10 0) (length pre)
        (htons_bytes t @ htons_bytes 1 @ htonl_bytes 300)) (length pre + 8) (htons_bytes n) =
   pre @ fixed_fields t n"
  by (simp add: put_at_def fixed_fields_def)

lemma put_fixed_fields:
  "put_at (put_at (replicate 10 0) 0 (htons_bytes t @ htons_bytes 1 @ htonl_bytes 300)) 8
     (htons_bytes n) = fixed_fields t n"
  by (simp add: put_at_def fixed_fields_def)

lemma WriteHeader_sound:
  assumes "names_ok P buf labels" "owner_is P buf ab owner" "ab_class ab = 1" "ab_ttl ab = 300"
    and "length buf + owner_room ab \<le> 2 ^ 14"
  shows "\<exists>nm labels'. let pre = buf @ nm; Q = P \<union> {length buf..<length pre};
        buf' = pre @ fixed_fields (ab_type ab) (ab_rdlength ab) in
     WriteHeader ab buf labels = Inr (ab\<lparr>ab_orig_len := length buf,
        ab_rdlength_hdr := length buf' - 2, ab_size := length buf' - length buf\<rparr>, buf', labels') \<and>
     name_at Q pre (length buf) owner \<and> name_end pre (length buf) = Some (length pre) \<and>
     table_ok Q pre labels' \<and> length nm \<le> owner_room ab"
proof -
  have P: "P \<subseteq> {..<length buf}" "table_ok P buf labels" using assms(1) by (auto simp: names_ok_def)
  have u: "(ucast (300 :: u16) :: u32) = 300" by simp
  from assms(2) consider
    (named) "ab_name_ptr ab = 0" "ab_name ab \<noteq> []" "good_name (ab_name ab)"
      "owner = ToFraments (ab_name ab)"
  | (ptr) "ab_name ab = []" "ab_name_ptr ab OR 0xC000 = ab_name_ptr ab"
      "name_at P buf (ofs14 (ab_name_ptr ab)) owner"
    unfolding owner_is_def by blast
  then show ?thesis
  proof cases
    case named
    then have room: "owner_room ab = length (wire_name (ToFraments (ab_name ab)))"
      by (simp add: owner_room_def name_room_def)
    then have "length buf < 2 ^ 14" using assms(5) by (simp add: length_wire_name)
    with WriteDomainName_sound [OF P(2), of "ab_name ab" "[]"] named obtain nm labels' where
      "WriteDomainName buf labels (ab_name ab) [] = Inr (buf @ nm, labels')"
      "length nm \<le> owner_room ab" "name_end (buf @ nm) (length buf) = Some (length (buf @ nm))"
      "name_at (P \<union> {length buf..<length (buf @ nm)}) (buf @ nm) (length buf) owner"
      "table_ok (P \<union> {length buf..<length (buf @ nm)}) (buf @ nm) labels'"
      unfolding room by auto
    with named assms(3,4) u show ?thesis
      by (intro exI [of _ nm] exI [of _ labels'])
         (simp add: WriteHeader_def WriteRdlength_def put_fixed_fields add.commute [of 8] Let_def)
  next
    case ptr
    let ?l = "ab_name_ptr ab"
    let ?nm = "htons_bytes ?l"
    have l0: "?l \<noteq> 0" using ptr(2) by auto
    have "table_ok P (buf @ ?nm @ replicate 10 0) labels" using P(2) by (rule table_ok_append)
    moreover have at: "name_at P (buf @ ext) (ofs14 ?l) owner" for ext using ptr(3) by (rule name_at_append)
    ultimately obtain labels' where add:
      "AddLabelForCompression ?l (buf @ ?nm @ replicate 10 0) labels = Inr labels'"
      using AddLabel_sound by blast
    have "table_ok (P \<union> {length buf..<length (buf @ ?nm)}) (buf @ ?nm) labels'"
    proof -
      have "table_ok P (buf @ ?nm) labels'"
        using AddLabel_frame [OF add] table_ok_append [OF P(2), of ?nm] at [of ?nm] ptr(2)
        by (auto simp: table_ok_def)
      then show ?thesis by (rule table_ok_agree) auto
    qed
    moreover have "put_at (buf @ replicate 12 0) (length buf) ?nm = buf @ ?nm @ replicate 10 0"
      unfolding replicate_two by (simp add: put_at_def)
    moreover note pointer_owner [OF ptr(3,2)] put_fixed [of "buf @ ?nm" buf 2 ?nm] u
    ultimately show ?thesis
      using ptr l0 add assms(3,4)
      by (intro exI [of _ ?nm] exI [of _ labels'])
         (simp add: WriteHeader_def WriteRdlength_def owner_room_def Let_def)
  qed
qed

definition body_sound ::
  "(bytes \<Rightarrow> u16 list \<Rightarrow> (bytes \<times> u16 list) res) \<Rightarrow> rdata \<Rightarrow> bool" where
  "body_sound body d \<longleftrightarrow> (\<forall>P buf labels. names_ok P buf labels \<longrightarrow> rdata_ok d \<longrightarrow>
     length buf + rdata_room d \<le> 2 ^ 14 \<longrightarrow>
     (\<exists>rd labels' Q. body buf labels = Inr (buf @ rd, labels') \<and> extended P buf Q (buf @ rd) \<and>
        table_ok Q (buf @ rd) labels' \<and> length rd \<le> rdata_room d \<and>
        rdata_at Q (buf @ rd) (length buf) d (length (buf @ rd))))"

lemma names_okI: "names_ok P buf labels \<Longrightarrow> extended P buf Q (buf @ ext) \<Longrightarrow>
    table_ok Q (buf @ ext) labels' \<Longrightarrow> names_ok Q (buf @ ext) labels'"
  using subset_room [of Q P "length buf" "length (buf @ ext)" "length buf"]
  by (simp add: names_ok_def extended_def)

text \<open>Storing the length of the data into the header changes nothing but the two bytes.\<close>

lemma patched_record:
  assumes "buf1 = pre @ fixed_fields t 0" "B = buf1 @ rd"
    and "B' = pre @ fixed_fields t (of_nat (length rd)) @ rd" "length rd < 2 ^ 16"
    and "name_at Q0 pre (length buf) owner" "name_end pre (length buf) = Some (length pre)"
    and "rdata_at Q B (length buf1) d (length B)" "t = rdata_type d"
    and "Q0 \<subseteq> {..<length pre}" "Q \<subseteq> Q0 \<union> {length buf1..<length B}" "Q0 \<subseteq> Q"
  shows "rr_at Q B' (length buf) (owner, d) (length B') \<and>
         (\<forall>i \<in> Q. i < length B \<longrightarrow> B' ! i = B ! i)"
proof
  have len: "length B' = length B" using assms(1-3) by simp
  have drop: "drop (length buf1) B' = drop (length buf1) B" using assms(1-3) by simp
  show agree: "\<forall>i \<in> Q. i < length B \<longrightarrow> B' ! i = B ! i"
  proof (intro ballI impI)
    fix i
    assume "i \<in> Q" "i < length B"
    then consider "i < length pre" | "length buf1 \<le> i"
      using assms(9,10) by (force simp: subset_iff)
    then show "B' ! i = B ! i"
    proof cases
      case 1
      then show ?thesis using assms(1-3) by (simp add: nth_append)
    next
      case 2
      then show ?thesis using drop len \<open>i < length B\<close> by (intro nth_drop_eq [of "length buf1"])
    qed
  qed
  have "rdata_at Q B' (length buf1) d (length B)"
    using assms(7) drop len agree by (intro rdata_at_drop [OF assms(7)]) auto
  moreover have "name_at Q B' (length buf) owner"
    using assms(5,11) unfolding assms(3)
    by (intro name_at_agree [OF assms(5)]) (auto simp: nth_append)
  moreover have "name_end B' (length buf) = Some (length pre)"
    unfolding assms(3) using assms(6) by (rule name_end_append)
  moreover have "segment B' (length pre) 10 = fixed_fields t (of_nat (length rd))"
    unfolding assms(3) by simp
  ultimately show "rr_at Q B' (length buf) (owner, d) (length B')"
    unfolding rr_at_def using assms(1-4,8) by (intro exI [of _ "length pre"]) simp
qed

lemma put_rdlength:
  "put_at (pre @ fixed_fields t 0 @ rd) (length (pre @ fixed_fields t 0) - 2) (htons_bytes n) =
     pre @ fixed_fields t n @ rd"
proof -
  have "put_at (fixed_fields t 0 @ rd) 8 (htons_bytes n) = fixed_fields t n @ rd"
    by (simp add: put_at_def fixed_fields_def)
  then show ?thesis by (simp add: add.commute [of 8])
qed

lemma write_with_sound:
  assumes "record_ready P buf labels ab owner d" "body_sound body d" "rdata_rdlength d = 0"
  shows "record_written P buf ab owner d (write_with body ab buf labels)"
proof -
  let ?t = "rdata_type d"
  from assms(1) have ready: "names_ok P buf labels" "owner_is P buf ab owner" "ab_class ab = 1"
      "ab_ttl ab = 300" "ab_type ab = ?t" "rdata_ok d" "ab_rdlength ab = 0"
      "length buf + owner_room ab + 10 + rdata_room d \<le> 2 ^ 14"
    using assms(3) by (auto simp: record_ready_def ab_for_def)
  then have "length buf + owner_room ab \<le> 2 ^ 14" by simp
  from WriteHeader_sound [OF ready(1-4) this] obtain nm labels1 where
    h: "WriteHeader ab buf labels = Inr (ab\<lparr>ab_orig_len := length buf,
        ab_rdlength_hdr := length ((buf @ nm) @ fixed_fields ?t 0) - 2,
        ab_size := length ((buf @ nm) @ fixed_fields ?t 0) - length buf\<rparr>,
        (buf @ nm) @ fixed_fields ?t 0, labels1)" (is "_ = Inr (?ab1, ?buf1, _)") and
    n: "name_at (P \<union> {length buf..<length (buf @ nm)}) (buf @ nm) (length buf) owner"
      "name_end (buf @ nm) (length buf) = Some (length (buf @ nm))"
      "table_ok (P \<union> {length buf..<length (buf @ nm)}) (buf @ nm) labels1" "length nm \<le> owner_room ab"
    unfolding Let_def ready(5,7) by blast
  let ?Q0 = "P \<union> {length buf..<length (buf @ nm)}"
  have Q0: "?Q0 \<subseteq> {..<length (buf @ nm)}" using ready(1) by (auto simp: names_ok_def)
  then have "names_ok ?Q0 ?buf1 labels1" using table_ok_append [OF n(3)] by (auto simp: names_ok_def)
  moreover have "length ?buf1 + rdata_room d \<le> 2 ^ 14" using n(4) ready(8) by simp
  ultimately obtain rd labels2 Q where
    b: "body ?buf1 labels1 = Inr (?buf1 @ rd, labels2)" "extended ?Q0 ?buf1 Q (?buf1 @ rd)"
      "table_ok Q (?buf1 @ rd) labels2" "length rd \<le> rdata_room d"
      "rdata_at Q (?buf1 @ rd) (length ?buf1) d (length (?buf1 @ rd))"
    using assms(2) ready(6) unfolding body_sound_def by meson
  let ?B' = "(buf @ nm) @ fixed_fields ?t (of_nat (length rd)) @ rd"
  have rd: "length rd < 2 ^ 16" using b(4) ready(8) by simp
  have Q: "Q \<subseteq> ?Q0 \<union> {length ?buf1..<length (?buf1 @ rd)}" "?Q0 \<subseteq> Q"
    using b(2) by (auto simp: extended_def)
  note rec = patched_record [OF refl refl refl rd n(1,2) b(5) refl Q0 Q]
  have f: "\<exists>ab'. write_with body ab buf labels = Inr (ab', ?B', labels2)"
    using h b(1) put_rdlength [of "buf @ nm" ?t rd "of_nat (length rd)"]
    by (simp add: write_with_def finish_rdata_def WriteRdlength_def Let_def)
  have "table_ok Q ?B' labels2"
    using b(3) rec by (intro table_ok_agree [OF b(3)]) auto
  moreover have "Q \<subseteq> {..<length ?B'}"
    using subset_room [OF Q(1) Q0] by simp
  ultimately have "names_ok Q ?B' labels2" by (simp add: names_ok_def)
  moreover have "extended P buf Q ?B'" using Q by (auto simp: extended_def)
  moreover have "length ?B' \<le> length buf + owner_room ab + 10 + rdata_room d"
    using n(4) b(4) by simp
  ultimately show ?thesis
    unfolding record_written_def using f rec by (metis append.assoc append_eq_conv_conj)
qed

lemma name_body_sound:
  assumes "names_ok P buf labels" "good_name (complete_name name zl)"
    and "length buf + name_room (complete_name name zl) \<le> 2 ^ 14"
  shows "\<exists>rd labels' Q. WriteDomainName buf labels name zl = Inr (buf @ rd, labels') \<and>
     extended P buf Q (buf @ rd) \<and> table_ok Q (buf @ rd) labels' \<and>
     length rd \<le> name_room (complete_name name zl) \<and>
     name_at Q (buf @ rd) (length buf) (ToFraments (complete_name name zl)) \<and>
     name_end (buf @ rd) (length buf) = Some (length (buf @ rd))"
proof -
  have "length buf < 2 ^ 14" using assms(3) by (simp add: name_room_def length_wire_name)
  with assms WriteDomainName_sound [of P buf labels name zl] obtain rd labels' where
    "WriteDomainName buf labels name zl = Inr (buf @ rd, labels')"
    "length rd \<le> name_room (complete_name name zl)"
    "name_end (buf @ rd) (length buf) = Some (length (buf @ rd))"
    "name_at (P \<union> {length buf..<length (buf @ rd)}) (buf @ rd) (length buf)
       (ToFraments (complete_name name zl))"
    "table_ok (P \<union> {length buf..<length (buf @ rd)}) (buf @ rd) labels'"
    by (auto simp: names_ok_def name_room_def)
  then show ?thesis unfolding extended_def by blast
qed

lemma body_sound_cname: "body_sound (name_body name) (RdataCname name)"
  using name_body_sound [of _ _ _ name "[]"] by (fastforce simp: body_sound_def name_body_def)

lemma body_sound_ns: "body_sound (name_body name) (RdataNs name)"
  using name_body_sound [of _ _ _ name "[]"] by (fastforce simp: body_sound_def name_body_def)

lemma names_ok_append: "names_ok P buf labels \<Longrightarrow> names_ok P (buf @ ext) labels"
  by (force simp: names_ok_def intro: table_ok_append)

lemma body_sound_mx: "body_sound (mx_body mx) (RdataMx (fst mx) (snd mx))"
  unfolding body_sound_def
proof (intro allI impI)
  fix P buf labels
  assume a: "names_ok P buf labels" "rdata_ok (RdataMx (fst mx) (snd mx))"
    "length buf + rdata_room (RdataMx (fst mx) (snd mx)) \<le> 2 ^ 14"
  let ?buf = "buf @ htons_bytes (snd mx)"
  from a name_body_sound [OF names_ok_append [OF a(1)], of "fst mx" "[]" "htons_bytes (snd mx)"]
  obtain rd labels' Q where
    w: "WriteDomainName ?buf labels (fst mx) [] = Inr (?buf @ rd, labels')"
      "extended P ?buf Q (?buf @ rd)" "table_ok Q (?buf @ rd) labels'" "length rd \<le> name_room (fst mx)"
      "name_at Q (?buf @ rd) (length ?buf) (ToFraments (fst mx))"
      "name_end (?buf @ rd) (length ?buf) = Some (length (?buf @ rd))"
    by auto
  have "extended P buf Q (buf @ htons_bytes (snd mx) @ rd)"
    using w(2) by (force simp: extended_def subset_iff)
  with w show "\<exists>rd labels' Q. mx_body mx buf labels = Inr (buf @ rd, labels') \<and>
      extended P buf Q (buf @ rd) \<and> table_ok Q (buf @ rd) labels' \<and>
      length rd \<le> rdata_room (RdataMx (fst mx) (snd mx)) \<and>
      rdata_at Q (buf @ rd) (length buf) (RdataMx (fst mx) (snd mx)) (length (buf @ rd))"
    by (intro exI [of _ "htons_bytes (snd mx) @ rd"] exI [of _ labels'] exI [of _ Q])
       (simp add: mx_body_def)
qed

lemma extended_trans:
  "extended P b1 Q b2 \<Longrightarrow> extended Q b2 R b3 \<Longrightarrow> length b1 \<le> length b2 \<Longrightarrow> length b2 \<le> length b3 \<Longrightarrow>
     extended P b1 R b3"
  by (force simp: extended_def subset_iff)

lemma body_sound_soa: "body_sound (soa_body zone) (RdataSoa zone)"
  unfolding body_sound_def
proof (intro allI impI)
  fix P buf labels
  assume a: "names_ok P buf labels" "rdata_ok (RdataSoa zone)"
    "length buf + rdata_room (RdataSoa zone) \<le> 2 ^ 14"
  from a(2) obtain soa n ns where z: "zsoa (target zone) = Some soa" "zns (target zone) = n # ns"
    by (auto split: option.splits list.splits)
  let ?zl = "zone_labels zone"
  let ?m = "complete_name (ns_fqdn n) ?zl" and ?r = "complete_name (soa_rname soa) ?zl"
  from a z have good: "good_name ?m" "good_name ?r"
      and room: "length buf + (name_room ?m + name_room ?r + 20) \<le> 2 ^ 14" by simp_all
  from room have r1: "length buf + name_room ?m \<le> 2 ^ 14" by simp
  from name_body_sound [OF a(1) good(1) r1] obtain m l1 Q1 where
    w1: "WriteDomainName buf labels (ns_fqdn n) ?zl = Inr (buf @ m, l1)"
      "extended P buf Q1 (buf @ m)" "table_ok Q1 (buf @ m) l1" "length m \<le> name_room ?m"
      "name_at Q1 (buf @ m) (length buf) (ToFraments ?m)"
      "name_end (buf @ m) (length buf) = Some (length (buf @ m))"
    by blast
  from names_okI [OF a(1) w1(2,3)] have ok1: "names_ok Q1 (buf @ m) l1" .
  from room w1(4) have r2: "length (buf @ m) + name_room ?r \<le> 2 ^ 14" by simp
  from name_body_sound [OF ok1 good(2) r2] obtain r l2 Q2 where
    w2: "WriteDomainName (buf @ m) l1 (soa_rname soa) ?zl = Inr ((buf @ m) @ r, l2)"
      "extended Q1 (buf @ m) Q2 ((buf @ m) @ r)" "table_ok Q2 ((buf @ m) @ r) l2"
      "length r \<le> name_room ?r"
      "name_at Q2 ((buf @ m) @ r) (length (buf @ m)) (ToFraments ?r)"
      "name_end ((buf @ m) @ r) (length (buf @ m)) = Some (length ((buf @ m) @ r))"
    by blast
  let ?rd = "m @ r @ soa_numbers soa"
  have ext: "extended P buf Q2 ((buf @ m) @ r)"
    using extended_trans [OF w1(2) w2(2)] by simp
  then have "extended P buf Q2 (buf @ ?rd)" by (force simp: extended_def subset_iff)
  moreover have "table_ok Q2 (buf @ ?rd) l2"
    using table_ok_append [OF w2(3), of "soa_numbers soa"] by simp
  moreover have "name_at Q2 (buf @ ?rd) (length buf) (ToFraments ?m)"
    using w2(2) w1(5) by (intro name_at_agree [OF w1(5)]) (auto simp: extended_def nth_append)
  moreover have "name_end (buf @ ?rd) (length buf) = Some (length (buf @ m))"
    using name_end_append [OF w1(6), of "r @ soa_numbers soa"] by simp
  moreover have "name_at Q2 (buf @ ?rd) (length (buf @ m)) (ToFraments ?r)"
    using name_at_append [OF w2(5), of "soa_numbers soa"] by simp
  moreover have "name_end (buf @ ?rd) (length (buf @ m)) = Some (length ((buf @ m) @ r))"
    using name_end_append [OF w2(6), of "soa_numbers soa"] by simp
  moreover have "segment (buf @ ?rd) (length ((buf @ m) @ r)) 20 = soa_numbers soa"
    by (simp add: segment_def)
  ultimately show "\<exists>rd labels' Q. soa_body zone buf labels = Inr (buf @ rd, labels') \<and>
      extended P buf Q (buf @ rd) \<and> table_ok Q (buf @ rd) labels' \<and>
      length rd \<le> rdata_room (RdataSoa zone) \<and>
      rdata_at Q (buf @ rd) (length buf) (RdataSoa zone) (length (buf @ rd))"
    using w1 w2 z
    by (intro exI [of _ ?rd] exI [of _ l2] exI [of _ Q2]) (auto simp: soa_body_def GetMname_def)
qed

lemma RdataA_sound:
  assumes "record_ready P buf labels ab owner (RdataA ip)"
  shows "record_written P buf ab owner (RdataA ip) (RdataA_Write ab ip buf labels)"
proof -
  from assms have ready: "names_ok P buf labels" "owner_is P buf ab owner" "ab_class ab = 1"
      "ab_ttl ab = 300" "ab_type ab = 1" "ab_rdlength ab = 4" "length buf + owner_room ab \<le> 2 ^ 14"
    by (auto simp: record_ready_def ab_for_def)
  from WriteHeader_sound [OF ready(1-4,7)] obtain nm labels' ab' where
    h: "WriteHeader ab buf labels = Inr (ab', (buf @ nm) @ fixed_fields 1 4, labels')" and
    n: "name_at (P \<union> {length buf..<length (buf @ nm)}) (buf @ nm) (length buf) owner"
      "name_end (buf @ nm) (length buf) = Some (length (buf @ nm))"
      "table_ok (P \<union> {length buf..<length (buf @ nm)}) (buf @ nm) labels'" "length nm \<le> owner_room ab"
    unfolding Let_def ready(5,6) by blast
  let ?Q = "P \<union> {length buf..<length (buf @ nm)}"
  let ?B = "(buf @ nm) @ fixed_fields 1 4 @ to_bytes ip"
  have "rr_at ?Q ?B (length buf) (owner, RdataA ip) (length ?B)"
    unfolding rr_at_def
    using name_at_append [OF n(1)] name_end_append [OF n(2)]
    by (intro exI [of _ "length (buf @ nm)"]) (simp add: segment_def)
  moreover have "names_ok ?Q ?B labels'"
    using table_ok_append [OF n(3)] ready(1) by (force simp: names_ok_def subset_iff)
  moreover have "extended P buf ?Q ?B" by (auto simp: extended_def)
  moreover have "length ?B \<le> length buf + owner_room ab + 10 + rdata_room (RdataA ip)"
    using n(4) by simp
  moreover have "\<exists>ab'. RdataA_Write ab ip buf labels = Inr (ab', ?B, labels')"
    using h by (simp add: RdataA_Write_def)
  ultimately show ?thesis
    unfolding record_written_def by (metis append.assoc append_eq_conv_conj)
qed

interpretation a_writer: rr_writer RdataA_Write RdataA
  by unfold_locales (rule RdataA_sound)

interpretation cname_writer: rr_writer RdataCname_Write RdataCname
  by unfold_locales
     (auto simp: RdataCname_Write_body intro: write_with_sound [OF _ body_sound_cname])

interpretation ns_writer: rr_writer RdataNs_Write RdataNs
  by unfold_locales (auto simp: RdataNs_Write_body intro: write_with_sound [OF _ body_sound_ns])

interpretation mx_writer: rr_writer RdataMx_Write "\<lambda>mx. RdataMx (fst mx) (snd mx)"
  by unfold_locales (auto simp: RdataMx_Write_body intro: write_with_sound [OF _ body_sound_mx])

interpretation soa_writer: rr_writer RdataSoa_Write RdataSoa
  by unfold_locales (auto simp: RdataSoa_Write_body intro: write_with_sound [OF _ body_sound_soa])

interpretation any_writer: rr_writer Write "\<lambda>d. d"
proof
  fix P buf labels ab owner and d :: rdata
  assume "record_ready P buf labels ab owner d"
  then show "record_written P buf ab owner d (Write ab d buf labels)"
    using mx_writer.write_record [of P buf labels ab owner "(fqdn, pri)" for fqdn pri]
    by (cases d) (auto intro: a_writer.write_record cname_writer.write_record
        ns_writer.write_record soa_writer.write_record)
qed

end
