(* ===== verification/DnsReply.thy ===== *)
theory DnsReply
  imports DnsAnswer
begin

text \<open>
  The reference reader of a reply: RFC 1035 records decoded from the bytes alone, and the
  proof that it reads back what the writers of \<open>src/dnsd/Message.h\<close> wrote. It is the
  specification the daemon's replies are measured against, and models no code.
\<close>

section \<open>Decoding a record\<close>

datatype rr_data =
    AddressData bytes
  | NameData "bytes list"
  | MailData u16 "bytes list"
  | SoaData "bytes list" "bytes list" "u32 list"

record rr_view =
  rv_owner :: "bytes list"
  rv_type :: u16
  rv_class :: u16
  rv_ttl :: u32
  rv_data :: rr_data

fun u32_list :: "bytes \<Rightarrow> u32 list" where
  "u32_list (a # b # c # d # rest) = ntohl_bytes a b c d # u32_list rest"
| "u32_list _ = []"

text \<open>The name at an offset with the offset behind it.\<close>

definition read_name :: "bytes \<Rightarrow> nat \<Rightarrow> (bytes list \<times> nat) option" where
  "read_name buf off =
     Option.bind (decode_name buf off) (\<lambda>fs. Option.bind (name_end buf off) (\<lambda>e. Some (fs, e)))"

definition decode_data :: "bytes \<Rightarrow> nat \<Rightarrow> u16 \<Rightarrow> (rr_data \<times> nat) option" where
  "decode_data buf s t =
     (if t = 1 then (if s + 4 \<le> length buf then Some (AddressData (segment buf s 4), s + 4) else None)
      else if t = 2 \<or> t = 5 then Option.bind (read_name buf s) (\<lambda>(fs, e). Some (NameData fs, e))
      else if t = 15 then
        (if s + 2 \<le> length buf
         then Option.bind (read_name buf (s + 2)) (\<lambda>(fs, e).
                Some (MailData (ntohs_bytes (buf ! s) (buf ! (s + 1))) fs, e))
         else None)
      else if t = 6 then
        Option.bind (read_name buf s) (\<lambda>(mname, m1).
        Option.bind (read_name buf m1) (\<lambda>(rname, m2).
          if m2 + 20 \<le> length buf
          then Some (SoaData mname rname (u32_list (segment buf m2 20)), m2 + 20) else None))
      else None)"

text \<open>A record is well formed only if its data takes exactly the bytes \<open>RDLENGTH\<close> announces.\<close>

definition decode_rr :: "bytes \<Rightarrow> nat \<Rightarrow> (rr_view \<times> nat) option" where
  "decode_rr buf off =
     Option.bind (read_name buf off) (\<lambda>(owner, n).
       case segment buf n 10 of
         [t1, t2, c1, c2, l1, l2, l3, l4, r1, r2] \<Rightarrow>
           Option.bind (decode_data buf (n + 10) (ntohs_bytes t1 t2)) (\<lambda>(d, e).
             if e \<le> length buf \<and> e - (n + 10) = unat (ntohs_bytes r1 r2)
             then Some (\<lparr>rv_owner = owner, rv_type = ntohs_bytes t1 t2, rv_class = ntohs_bytes c1 c2,
                         rv_ttl = ntohl_bytes l1 l2 l3 l4, rv_data = d\<rparr>, e)
             else None)
       | _ \<Rightarrow> None)"

text \<open>The view of a record that is to be written.\<close>

fun data_view :: "rdata \<Rightarrow> rr_data" where
  "data_view (RdataA ip) = AddressData (to_bytes ip)"
| "data_view (RdataCname cname) = NameData (ToFraments cname)"
| "data_view (RdataMx fqdn pri) = MailData pri (ToFraments fqdn)"
| "data_view (RdataNs fdqn) = NameData (ToFraments fdqn)"
| "data_view (RdataSoa zone) =
     (case (zsoa (target zone), zns (target zone)) of
        (Some s, n # _) \<Rightarrow>
          SoaData (ToFraments (complete_name (ns_fqdn n) (zone_labels zone)))
            (ToFraments (complete_name (soa_rname s) (zone_labels zone)))
            [soa_serial s, soa_refresh s, soa_retry s, soa_expire s, soa_minimum s]
      | _ \<Rightarrow> SoaData [] [] [])"

definition view :: "rr \<Rightarrow> rr_view" where
  "view r = \<lparr>rv_owner = fst r, rv_type = rdata_type (snd r), rv_class = 1, rv_ttl = 300,
     rv_data = data_view (snd r)\<rparr>"

lemma read_name_at:
  "name_at P buf off fs \<Longrightarrow> name_end buf off = Some e \<Longrightarrow> read_name buf off = Some (fs, e)"
  by (simp add: read_name_def name_at_decode)

lemma u32_list_soa:
  "u32_list (soa_numbers s) =
     [soa_serial s, soa_refresh s, soa_retry s, soa_expire s, soa_minimum s]"
  by (simp add: soa_numbers_def htonl_bytes_def)

lemma segment_two:
  assumes "segment buf s 2 = htons_bytes w"
  shows "s + 2 \<le> length buf \<and> ntohs_bytes (buf ! s) (buf ! (s + 1)) = w"
proof -
  from assms have "length (segment buf s 2) = 2" by simp
  then have len: "s + 2 \<le> length buf" by (auto simp: segment_def min_def split: if_splits)
  then have "segment buf s 2 = [buf ! s, buf ! (s + 1)]"
    by (simp add: segment_def numeral_2_eq_2 take_Suc_conv_app_nth)
  with assms len show ?thesis by (simp add: htons_bytes_def)
qed

lemma rdata_at_decode:
  assumes "rdata_at P buf s d e" "e \<le> length buf"
  shows "decode_data buf s (rdata_type d) = Some (data_view d, e)"
proof (cases d)
  case (RdataMx fqdn pri)
  with assms segment_two [of buf s pri] show ?thesis
    by (auto simp: decode_data_def dest!: read_name_at)
next
  case (RdataSoa zone)
  with assms(1) obtain soa mname m1 m2 where
    "zsoa (target zone) = Some soa" "GetMname (target zone) = Inr mname"
    "name_at P buf s (ToFraments (complete_name (ns_fqdn mname) (zone_labels zone)))"
    "name_end buf s = Some m1"
    "name_at P buf m1 (ToFraments (complete_name (soa_rname soa) (zone_labels zone)))"
    "name_end buf m1 = Some m2" "segment buf m2 20 = soa_numbers soa" "e = m2 + 20"
    by auto
  with RdataSoa assms(2) show ?thesis
    using read_name_at [of P buf s _ m1] read_name_at [of P buf m1 _ m2]
    by (auto simp: decode_data_def GetMname_def u32_list_soa split: list.splits)
qed (use assms in \<open>auto simp: decode_data_def dest!: read_name_at\<close>)

lemma rr_at_decode: "rr_at P buf off r e \<Longrightarrow> decode_rr buf off = Some (view r, e)"
proof -
  assume "rr_at P buf off r e"
  then obtain n where n: "name_at P buf off (fst r)" "name_end buf off = Some n"
      "e \<le> length buf" "e - (n + 10) < 2 ^ 16"
      "segment buf n 10 = fixed_fields (rdata_type (snd r)) (of_nat (e - (n + 10)))"
      "rdata_at P buf (n + 10) (snd r) e"
    unfolding rr_at_def by blast
  from rdata_at_decode [OF n(6,3)]
  have d: "decode_data buf (n + 10) (rdata_type (snd r)) = Some (data_view (snd r), e)" .
  have w: "unat (of_nat (e - (n + 10)) :: u16) = e - (n + 10)"
    using n(4) by (simp add: unat_of_nat take_bit_eq_mod)
  show ?thesis
    by (simp only: decode_rr_def read_name_at [OF n(1,2)] Option.bind.simps prod.case n(5)
          fixed_fields_def htons_bytes_def htonl_bytes_def append.simps list.case
          ntohs_htons ntohl_htonl d w view_def)
       (simp add: n(3))
qed

section \<open>Write and decode\<close>

text \<open>
  C17: a record whose names fit, written to a reply whose label table is sound, leaves what
  was there, decodes to its owner, type, class IN, the time to live of 300 seconds and its
  data, ends where the reply now ends, and keeps the label table sound.
\<close>

theorem Write_decodes:
  assumes "record_ready P buf labels ab owner d"
  shows "case Write ab d buf labels of
      Inl x \<Rightarrow> False
    | Inr (ab', buf', labels') \<Rightarrow>
        take (length buf) buf' = buf \<and>
        decode_rr buf' (length buf) = Some (view (owner, d), length buf') \<and>
        (\<exists>Q. names_ok Q buf' labels')"
  using any_writer.write_record [OF assms] rr_at_decode
  unfolding record_written_def by fastforce

theorem Write_decodes_witness:
  "case Write (pointer_answer 0 15 0) (RdataMx [100, 46, 98, 99] 10) sample_reply [0xC000] of
      Inl x \<Rightarrow> False
    | Inr (ab', buf', labels') \<Rightarrow>
        take (length sample_reply) buf' = sample_reply \<and>
        decode_rr buf' (length sample_reply) =
          Some (view ([[97], [98, 99]], RdataMx [100, 46, 98, 99] 10), length buf') \<and>
        (\<exists>Q. names_ok Q buf' labels')"
proof (rule Write_decodes [of "{..<6}"])
  have at: "name_at {..<6} sample_reply 0 [[97], [98, 99]]"
    by (rule name_at_wire) (auto simp: sample_reply_def wire_at_def segment_def label_size_ok_def)
  then have "names_ok {..<6} sample_reply [0xC000]"
    by (auto simp: names_ok_def table_ok_def ofs14_def sample_reply_def)
  moreover have "owner_is {..<6} sample_reply (pointer_answer 0 15 0) [[97], [98, 99]]"
    using at by (simp add: owner_is_def pointer_answer_def ofs14_def)
  ultimately show "record_ready {..<6} sample_reply [0xC000] (pointer_answer 0 15 0)
      [[97], [98, 99]] (RdataMx [100, 46, 98, 99] 10)"
    by (auto simp: record_ready_def ab_for_def pointer_answer_def owner_room_def name_room_def
        sample_reply_def good_name_def label_size_ok_def dot_def)
qed

text \<open>
  Whatever the record, its names and the label table are, undoing a write that returned
  gives the reply as it was before.
\<close>

theorem Write_Revert:
  assumes "Write ab d buf labels = Inr (ab', buf', labels')"
  shows "Revert ab' buf' = buf"
  using assms by (rule any_frame.Revert_restores)

theorem Write_Revert_witness:
  "\<exists>ab' buf' labels'. Write (named_answer [97] 1 4) (RdataA (10, 0, 0, 1)) [] [] =
      Inr (ab', buf', labels') \<and> Revert ab' buf' = [] \<and> length buf' = 17"
proof -
  let ?w = "Write (named_answer [97] 1 4) (RdataA (10, 0, 0, 1)) [] []"
  have "\<exists>ab' buf' labels'. ?w = Inr (ab', buf', labels') \<and> length buf' = 17"
    by (simp add: RdataA_Write_def WriteHeader_def named_answer_def WriteDomainName_def write_name_def
        SearchForDomainName_def complete_name_def wire_label_def AddLabelForCompression_def
        read_byte_def is_pointer_def ofs14_def WriteRdlength_def put_at_def Let_def dot_def)
  then show ?thesis using Write_Revert by blast
qed

end
