(* ===== verification/Stats.thy ===== *)
theory Stats
  imports Prelude
begin

text \<open>
  Request statistics: \<open>Statistics\<close>, \<open>RequestStats\<close> and \<open>StatisticsManager\<close> of
  \<open>include/Statistics.h\<close> and \<open>src/daemon/StatisticsManager.cpp\<close>. Every worker thread counts
  in an object of its own; the housekeeping of both daemons hands a copy to the manager and
  clears the object; the manager's pipeline adds the copies up later.
\<close>

section \<open>Counters\<close>

record Statistics =
  connections :: u64
  failed_connections :: u64
  ok_requests :: u64
  failed_requests :: u64
  bad_requests :: u64
  timeout_dropped_connections :: u64
  overflow_dropped_connections :: u64
  bytes_received :: u64
  bytes_sent :: u64
  unknown_names :: u64

definition new_Statistics :: Statistics where
  "new_Statistics = \<lparr>connections = 0, failed_connections = 0, ok_requests = 0,
     failed_requests = 0, bad_requests = 0, timeout_dropped_connections = 0,
     overflow_dropped_connections = 0, bytes_received = 0, bytes_sent = 0, unknown_names = 0\<rparr>"

text \<open>\<open>operator +=\<close>: the line for \<open>timeout_dropped_connections\<close> adds the object's own counter.\<close>

definition add_assign :: "Statistics \<Rightarrow> Statistics \<Rightarrow> Statistics" where
  "add_assign s v = s\<lparr>
     connections := connections s + connections v,
     failed_connections := failed_connections s + failed_connections v,
     ok_requests := ok_requests s + ok_requests v,
     failed_requests := failed_requests s + failed_requests v,
     bad_requests := bad_requests s + bad_requests v,
     timeout_dropped_connections := timeout_dropped_connections s + timeout_dropped_connections s,
     overflow_dropped_connections := overflow_dropped_connections s + overflow_dropped_connections v,
     bytes_received := bytes_received s + bytes_received v,
     bytes_sent := bytes_sent s + bytes_sent v,
     unknown_names := unknown_names s + unknown_names v\<rparr>"

definition Reset_stats :: "Statistics \<Rightarrow> Statistics" where
  "Reset_stats s = s\<lparr>connections := 0, failed_connections := 0, ok_requests := 0,
     failed_requests := 0, bad_requests := 0, timeout_dropped_connections := 0,
     overflow_dropped_connections := 0, bytes_received := 0, bytes_sent := 0, unknown_names := 0\<rparr>"

section \<open>The outcome of a request\<close>

datatype RequestState = SUCESS | IGNORE | FAIL | BAD | UNSET

text \<open>The destructor of \<open>RequestStats\<close>.\<close>

fun RequestStats_done :: "RequestState \<Rightarrow> Statistics \<Rightarrow> Statistics" where
  "RequestStats_done SUCESS s = s\<lparr>ok_requests := ok_requests s + 1\<rparr>"
| "RequestStats_done IGNORE s = s"
| "RequestStats_done FAIL s = s\<lparr>failed_requests := failed_requests s + 1\<rparr>"
| "RequestStats_done UNSET s = s\<lparr>failed_requests := failed_requests s + 1\<rparr>"
| "RequestStats_done BAD s = s\<lparr>bad_requests := bad_requests s + 1\<rparr>"

section \<open>The manager\<close>

datatype StatType = HTTP | DNS

fun Ix :: "StatType \<Rightarrow> nat" where
  "Ix HTTP = 0"
| "Ix DNS = 1"

text \<open>
  The manager's array, the tasks \<open>AddStat\<close> dispatched to its pipeline that have not run yet,
  and the thread-local objects of the workers with the type each reports under.
\<close>

record stats_system =
  sy_stats :: "Statistics list"
  sy_tasks :: "(StatType \<times> Statistics) list"
  sy_thread :: "(StatType \<times> Statistics) list"

definition AddStat :: "StatType \<Rightarrow> Statistics \<Rightarrow> stats_system \<Rightarrow> stats_system" where
  "AddStat stype stats s = s\<lparr>sy_tasks := sy_tasks s @ [(stype, stats)]\<rparr>"

text \<open>The body of the dispatched task.\<close>

definition run_AddStat :: "StatType \<times> Statistics \<Rightarrow> stats_system \<Rightarrow> stats_system" where
  "run_AddStat t s =
     s\<lparr>sy_stats := (sy_stats s)[Ix (fst t) := add_assign (sy_stats s ! Ix (fst t)) (snd t)]\<rparr>"

definition GetStats :: "StatType \<Rightarrow> stats_system \<Rightarrow> Statistics" where
  "GetStats stype s = sy_stats s ! Ix stype"

text \<open>\<open>UpdateStats\<close> of the DNS daemon and the HTTP housekeeping, on worker \<open>i\<close>.\<close>

definition UpdateStats :: "nat \<Rightarrow> stats_system \<Rightarrow> stats_system" where
  "UpdateStats i s =
     (let (ty, st) = sy_thread s ! i; s1 = AddStat ty st s
      in s1\<lparr>sy_thread := (sy_thread s1)[i := (ty, Reset_stats st)]\<rparr>)"

section \<open>Counting, reporting and adding up\<close>

lemma sum_list_change:
  fixes xs :: "u64 list"
  assumes "i < length xs"
  shows "sum_list (xs[i := y]) + xs ! i = sum_list xs + y"
proof -
  have "sum_list xs = sum_list (take i xs @ xs ! i # drop (Suc i) xs)"
    using id_take_nth_drop [OF assms] by (rule arg_cong)
  then show ?thesis unfolding upd_conv_take_nth_drop [OF assms] by (simp add: algebra_simps)
qed

text \<open>The counters by name, to speak of all of them at once.\<close>

datatype counter = Connections | FailedConnections | OkRequests | FailedRequests | BadRequests
  | TimeoutDropped | OverflowDropped | BytesReceived | BytesSent | UnknownNames

fun count :: "counter \<Rightarrow> Statistics \<Rightarrow> u64" where
  "count Connections s = connections s"
| "count FailedConnections s = failed_connections s"
| "count OkRequests s = ok_requests s"
| "count FailedRequests s = failed_requests s"
| "count BadRequests s = bad_requests s"
| "count TimeoutDropped s = timeout_dropped_connections s"
| "count OverflowDropped s = overflow_dropped_connections s"
| "count BytesReceived s = bytes_received s"
| "count BytesSent s = bytes_sent s"
| "count UnknownNames s = unknown_names s"

fun bump :: "counter \<Rightarrow> u64 \<Rightarrow> Statistics \<Rightarrow> Statistics" where
  "bump Connections n s = s\<lparr>connections := connections s + n\<rparr>"
| "bump FailedConnections n s = s\<lparr>failed_connections := failed_connections s + n\<rparr>"
| "bump OkRequests n s = s\<lparr>ok_requests := ok_requests s + n\<rparr>"
| "bump FailedRequests n s = s\<lparr>failed_requests := failed_requests s + n\<rparr>"
| "bump BadRequests n s = s\<lparr>bad_requests := bad_requests s + n\<rparr>"
| "bump TimeoutDropped n s = s\<lparr>timeout_dropped_connections := timeout_dropped_connections s + n\<rparr>"
| "bump OverflowDropped n s = s\<lparr>overflow_dropped_connections := overflow_dropped_connections s + n\<rparr>"
| "bump BytesReceived n s = s\<lparr>bytes_received := bytes_received s + n\<rparr>"
| "bump BytesSent n s = s\<lparr>bytes_sent := bytes_sent s + n\<rparr>"
| "bump UnknownNames n s = s\<lparr>unknown_names := unknown_names s + n\<rparr>"

text \<open>
  A run of the system: a worker counts \<open>n\<close> on a counter, a worker's housekeeping fires, or
  the manager's pipeline runs its next task. What was counted is the run's trace.
\<close>

type_synonym stats_event = "StatType \<times> counter \<times> u64"

inductive stats_run :: "stats_system \<Rightarrow> stats_event list \<Rightarrow> stats_system \<Rightarrow> bool" for s0 where
  run_start: "stats_run s0 [] s0"
| run_count: "\<lbrakk> stats_run s0 es s; i < length (sy_thread s); sy_thread s ! i = (ty, st) \<rbrakk>
    \<Longrightarrow> stats_run s0 ((ty, c, n) # es) (s\<lparr>sy_thread := (sy_thread s)[i := (ty, bump c n st)]\<rparr>)"
| run_housekeeping: "\<lbrakk> stats_run s0 es s; i < length (sy_thread s) \<rbrakk>
    \<Longrightarrow> stats_run s0 es (UpdateStats i s)"
| run_task: "\<lbrakk> stats_run s0 es s; sy_tasks s = t # ts \<rbrakk>
    \<Longrightarrow> stats_run s0 es (run_AddStat t (s\<lparr>sy_tasks := ts\<rparr>))"

definition new_system :: "StatType list \<Rightarrow> stats_system" where
  "new_system workers = \<lparr>sy_stats = [new_Statistics, new_Statistics], sy_tasks = [],
     sy_thread = map (\<lambda>ty. (ty, new_Statistics)) workers\<rparr>"

text \<open>What was counted under a type, and what the system holds of it in its three places.\<close>

definition counted :: "StatType \<Rightarrow> counter \<Rightarrow> stats_event list \<Rightarrow> u64" where
  "counted ty c es = (\<Sum>(t, k, n) \<leftarrow> es. if t = ty \<and> k = c then n else 0)"

definition share :: "StatType \<Rightarrow> counter \<Rightarrow> StatType \<times> Statistics \<Rightarrow> u64" where
  "share ty c p = (if fst p = ty then count c (snd p) else 0)"

definition held :: "StatType \<Rightarrow> counter \<Rightarrow> stats_system \<Rightarrow> u64" where
  "held ty c s = count c (GetStats ty s) + sum_list (map (share ty c) (sy_tasks s)) +
     sum_list (map (share ty c) (sy_thread s))"

lemma count_add_assign: "c \<noteq> TimeoutDropped \<Longrightarrow> count c (add_assign s v) = count c s + count c v"
  by (cases c) (simp_all add: add_assign_def)

lemma count_Reset [simp]: "count c (Reset_stats s) = 0"
  by (cases c) (simp_all add: Reset_stats_def)

lemma count_new [simp]: "count c new_Statistics = 0"
  by (cases c) (simp_all add: new_Statistics_def)

lemma count_bump: "count c (bump k n s) = count c s + (if k = c then n else 0)"
  by (cases k; cases c) simp_all

lemma sum_list_update_group:
  "i < length xs \<Longrightarrow> sum_list (map f (xs[i := y])) = sum_list (map f xs) - f (xs ! i) + (f y :: 'a :: ab_group_add)"
  by (induction xs arbitrary: i) (auto simp: less_Suc_eq_0_disj algebra_simps split: nat.splits)

lemma Ix_less [simp]: "Ix ty < 2"
  by (cases ty) simp_all

lemma Ix_inj [simp]: "Ix a = Ix b \<longleftrightarrow> a = b"
  by (cases a; cases b) simp_all

lemma stats_run_held:
  assumes "stats_run (new_system workers) es s" "c \<noteq> TimeoutDropped"
  shows "length (sy_stats s) = 2 \<and> held ty c s = counted ty c es"
  using assms(1)
proof induction
  case run_start
  have "sum_list (map (share ty c) (sy_thread (new_system workers))) = 0"
    by (induction workers) (simp_all add: new_system_def share_def)
  then show ?case
    by (cases ty) (simp_all add: new_system_def held_def GetStats_def counted_def)
next
  case (run_count es s i ty' st k n)
  then show ?case
    by (auto simp: held_def GetStats_def counted_def sum_list_update_group share_def count_bump
        add.assoc)
next
  case (run_housekeeping es s i)
  then show ?case
    by (cases "sy_thread s ! i")
       (auto simp: held_def GetStats_def UpdateStats_def AddStat_def sum_list_update_group
          share_def add.assoc)
next
  case (run_task es s t ts)
  then show ?case
    by (auto simp: held_def GetStats_def run_AddStat_def share_def nth_list_update
        count_add_assign assms(2) add.assoc)
qed

text \<open>
  C30: nothing counted is lost or counted twice. Whatever the order in which workers count,
  report and are added up, the manager's totals, the reports under way and the workers' own
  counters make up what was counted, for every counter but the connections dropped by
  time-out.
\<close>

theorem statistics_conserved:
  assumes "stats_run (new_system workers) es s" "c \<noteq> TimeoutDropped"
  shows "held ty c s = counted ty c es"
  using stats_run_held [OF assms] by simp

lemma stats_run_append:
  assumes "stats_run s0 es s"
  shows "stats_run s es' s' \<Longrightarrow> stats_run s0 (es' @ es) s'"
  by (induction rule: stats_run.induct) (use assms stats_run.intros in \<open>fastforce+\<close>)

lemma sample_run:
  "stats_run (new_system [HTTP, DNS]) [(DNS, BytesSent, 40), (DNS, OkRequests, 1)]
     (UpdateStats 1 ((new_system [HTTP, DNS])\<lparr>sy_thread :=
        [(HTTP, new_Statistics), (DNS, bump BytesSent 40 (bump OkRequests 1 new_Statistics))]\<rparr>))"
proof -
  let ?s = "new_system [HTTP, DNS]"
  have "stats_run ?s [(DNS, OkRequests, 1)]
      (?s\<lparr>sy_thread := (sy_thread ?s)[1 := (DNS, bump OkRequests 1 new_Statistics)]\<rparr>)"
    by (rule run_count [OF run_start]) (simp_all add: new_system_def)
  then have "stats_run ?s [(DNS, OkRequests, 1)]
      (?s\<lparr>sy_thread := [(HTTP, new_Statistics), (DNS, bump OkRequests 1 new_Statistics)]\<rparr>)"
    by (simp add: new_system_def)
  from run_count [OF this, of 1 DNS "bump OkRequests 1 new_Statistics" BytesSent 40]
  have "stats_run ?s [(DNS, BytesSent, 40), (DNS, OkRequests, 1)]
      (?s\<lparr>sy_thread := [(HTTP, new_Statistics), (DNS, bump BytesSent 40 (bump OkRequests 1 new_Statistics))]\<rparr>)"
    by (simp add: new_system_def)
  from run_housekeeping [OF this, of 1] show ?thesis by (simp add: new_system_def)
qed

theorem statistics_conserved_witness:
  "held DNS BytesSent (UpdateStats 1 ((new_system [HTTP, DNS])\<lparr>sy_thread :=
        [(HTTP, new_Statistics), (DNS, bump BytesSent 40 (bump OkRequests 1 new_Statistics))]\<rparr>)) = 40"
  using statistics_conserved [OF sample_run, of BytesSent DNS] by (simp add: counted_def)

text \<open>
  The total of connections dropped by time-out stays zero, whatever the workers count.
\<close>

theorem timeouts_never_reported:
  assumes "stats_run (new_system workers) es s"
  shows "timeout_dropped_connections (GetStats ty s) = 0"
proof -
  have "length (sy_stats s) = 2 \<and> (\<forall>ty. timeout_dropped_connections (GetStats ty s) = 0)"
    using assms
  proof induction
    case run_start
    have "timeout_dropped_connections (GetStats ty (new_system workers)) = 0" for ty
      by (cases ty) (simp_all add: new_system_def GetStats_def new_Statistics_def)
    then show ?case by (simp add: new_system_def)
  next
    case (run_housekeeping es s i)
    then show ?case
      by (cases "sy_thread s ! i") (simp add: GetStats_def UpdateStats_def AddStat_def)
  next
    case (run_task es s t ts)
    then show ?case
      by (auto simp: GetStats_def run_AddStat_def nth_list_update add_assign_def)
  qed (simp_all add: GetStats_def)
  then show ?thesis by blast
qed

theorem timeouts_never_reported_witness:
  "timeout_dropped_connections (GetStats HTTP (run_AddStat
     (HTTP, bump TimeoutDropped 7 new_Statistics) (new_system [HTTP, DNS])\<lparr>sy_thread :=
        [(HTTP, new_Statistics), (DNS, new_Statistics)]\<rparr>)) = 0"
proof (rule timeouts_never_reported)
  let ?s = "new_system [HTTP, DNS]"
  let ?st = "bump TimeoutDropped 7 new_Statistics"
  have "stats_run ?s [(HTTP, TimeoutDropped, 7)] (?s\<lparr>sy_thread := (sy_thread ?s)[0 := (HTTP, ?st)]\<rparr>)"
    by (rule run_count [OF run_start]) (simp_all add: new_system_def)
  from run_housekeeping [OF this, of 0]
  have "stats_run ?s [(HTTP, TimeoutDropped, 7)]
      (?s\<lparr>sy_tasks := [(HTTP, ?st)], sy_thread := [(HTTP, new_Statistics), (DNS, new_Statistics)]\<rparr>)"
    by (simp add: new_system_def UpdateStats_def AddStat_def Reset_stats_def new_Statistics_def)
  from run_task [OF this]
  show "stats_run ?s [(HTTP, TimeoutDropped, 7)] (run_AddStat (HTTP, ?st) ?s\<lparr>sy_thread :=
        [(HTTP, new_Statistics), (DNS, new_Statistics)]\<rparr>)"
    by (simp add: new_system_def run_AddStat_def)
qed

end
