(* ===== verification/DnsDaemon.thy ===== *)
theory DnsDaemon
  imports DnsReply Stats
begin

text \<open>
  The DNS server: class \<open>DnsDaemonImpl\<close> of \<open>src/dnsd/DnsDaemon.cpp\<close>, from the datagram a
  worker receives to the datagram it sends back.
\<close>

section \<open>State\<close>

text \<open>
  What a query is answered from: the byte order of the host, the match of a label against
  the regular expression of the parser, \<open>boost::iequals\<close>, and the root zones.
\<close>

record env =
  env_endian :: endian
  env_label_ok :: "bytes \<Rightarrow> bool"
  env_ieq :: "bytes \<Rightarrow> bytes \<Rightarrow> bool"
  env_zones :: "zone list"

text \<open>The section of the reply whose counter a call of \<open>Store\<close> gets.\<close>

datatype rr_section = Answers | Authority | Additional

text \<open>The local variables of \<open>ProcessQuestions\<close> that it hands on by reference.\<close>

record reply =
  rp_buffer :: bytes
  rp_labels :: "u16 list"
  rp_authorative :: bool
  rp_num_questions :: u16
  rp_num_answers :: u16
  rp_num_ns :: u16
  rp_num_opt :: u16
  rp_authorative_zones :: "zptr list"
  rp_ns_zones :: "zptr list"

definition new_reply :: "bytes \<Rightarrow> reply" where
  "new_reply buffer = \<lparr>rp_buffer = buffer, rp_labels = [], rp_authorative = True,
     rp_num_questions = 0, rp_num_answers = 0, rp_num_ns = 0, rp_num_opt = 0,
     rp_authorative_zones = [], rp_ns_zones = []\<rparr>"

definition max_query_buffer :: nat where
  "max_query_buffer = 512"

definition max_reply_buffer :: nat where
  "max_reply_buffer = 512"

section \<open>Storing records\<close>

fun count_record :: "rr_section \<Rightarrow> reply \<Rightarrow> reply" where
  "count_record Answers s = s\<lparr>rp_num_answers := rp_num_answers s + 1\<rparr>"
| "count_record Authority s = s\<lparr>rp_num_ns := rp_num_ns s + 1\<rparr>"
| "count_record Additional s = s\<lparr>rp_num_opt := rp_num_opt s + 1\<rparr>"

text \<open>
  A \<open>Write\<close> that throws may leave bytes behind the old end of the buffer; whoever catches the
  exception cuts the buffer to the header, so they are not kept here.
\<close>

definition Store :: "rr_section \<Rightarrow> AnswerBase \<Rightarrow> rdata \<Rightarrow> (reply, unit) op" where
  "Store sec a d s =
     (case Write a d (rp_buffer s) (rp_labels s) of
        Inl x \<Rightarrow> (Inl x, s)
      | Inr (a', buffer, labels) \<Rightarrow>
          let s1 = s\<lparr>rp_buffer := buffer, rp_labels := labels\<rparr>
          in if max_reply_buffer < length buffer
             then (Inl Truncated, s1\<lparr>rp_buffer := Revert a' buffer\<rparr>)
             else (Inr (), count_record sec s1))"

definition AddZone :: "zptr list \<Rightarrow> zptr option \<Rightarrow> zptr list" where
  "AddZone zones zone =
     (case zone of None \<Rightarrow> zones | Some z \<Rightarrow> if z \<in> set zones then zones else zones @ [z])"

definition add_authorative :: "zptr option \<Rightarrow> (reply, unit) op" where
  "add_authorative zone = op_upd (\<lambda>s. s\<lparr>rp_authorative_zones := AddZone (rp_authorative_zones s) zone\<rparr>)"

definition add_ns :: "zptr option \<Rightarrow> (reply, unit) op" where
  "add_ns zone = op_upd (\<lambda>s. s\<lparr>rp_ns_zones := AddZone (rp_ns_zones s) zone\<rparr>)"

definition find_zone :: "env \<Rightarrow> bytes \<Rightarrow> zptr option" where
  "find_zone env name = fst (Lookup (env_ieq env) (env_zones env) (ToFraments name) False)"

section \<open>Answering a question\<close>

text \<open>The name \<open>StoreCname\<close> completes by the parent's domain name.\<close>

definition full_cname :: "zptr \<Rightarrow> bytes" where
  "full_cname zone =
     (let cname = zcname (target zone)
      in if last cname \<noteq> dot \<and> tl zone \<noteq> [] then cname @ [dot] @ GetDomainName (tl zone) else cname)"

definition StoreCname :: "zptr \<Rightarrow> Question \<Rightarrow> (reply, bytes) op" where
  "StoreCname zone question =
     op_bind (Store Answers (pointer_answer (q_offset question) 5 0) (RdataCname (full_cname zone)))
       (\<lambda>_. op_ret (full_cname zone))"

definition StoreA :: "env \<Rightarrow> zptr \<Rightarrow> Question \<Rightarrow> (reply, unit) op" where
  "StoreA env zone question =
     (if zcname (target zone) \<noteq> [] then
        op_bind (StoreCname zone question) (\<lambda>full.
          if q_qtype question = 1 then
            (case find_zone env full of
               None \<Rightarrow> op_ret ()
             | Some z \<Rightarrow> op_for (za (target z)) (\<lambda>ip. Store Answers (named_answer full 1 4) (RdataA ip)))
          else op_ret ())
      else op_for (za (target zone))
             (\<lambda>ip. Store Answers (pointer_answer (q_offset question) 1 4) (RdataA ip)))"

definition StoreMx :: "env \<Rightarrow> zptr \<Rightarrow> Question \<Rightarrow> (reply, unit) op" where
  "StoreMx env zone question =
     op_for (zmx (target zone)) (\<lambda>mx.
       let fdqn = GetFdqn mx (Some zone)
       in op_bind (Store Answers (pointer_answer (q_offset question) 15 0) (RdataMx fdqn (mx_priority mx)))
            (\<lambda>_. add_ns (find_zone env fdqn)))"

definition StoreByType :: "env \<Rightarrow> zptr \<Rightarrow> zptr option \<Rightarrow> Question \<Rightarrow> (reply, unit) op" where
  "StoreByType env zone soa_zone question =
     (let qtype = q_qtype question
      in if qtype = 1 \<or> qtype = 255 then StoreA env zone question
         else if qtype = 5 then
           (if zcname (target zone) \<noteq> []
            then op_bind (StoreCname zone question) (\<lambda>_. op_ret ()) else op_ret ())
         else if qtype = 6 then
           (case soa_zone of
              None \<Rightarrow> op_throw NoSoaRecord
            | Some sz \<Rightarrow>
                op_bind (Store Answers (pointer_answer (q_offset question) 6 0) (RdataSoa sz))
                  (\<lambda>_. add_authorative soa_zone))
         else if qtype = 2 then add_authorative soa_zone
         else if qtype = 15 then StoreMx env zone question
         else op_ret ())"

definition ProcessQuestion :: "env \<Rightarrow> Question \<Rightarrow> (reply, unit) op" where
  "ProcessQuestion env question s =
     (case Lookup (env_ieq env) (env_zones env) (q_labels question) False of
        (None, is_authorative) \<Rightarrow> (Inl (if is_authorative then UnknownSubDomain else UnknownDomain), s)
      | (Some zone, _) \<Rightarrow>
          (case GetSoaZone zone of
             None \<Rightarrow> (Inl UndefinedBehaviour, s)
           | Some soa_zone \<Rightarrow>
               let lacking = (case soa_zone of None \<Rightarrow> True | Some z \<Rightarrow> \<not> zauthorative (target z));
                   s1 = (if lacking then s\<lparr>rp_authorative := False\<rparr> else s)
               in op_bind (StoreByType env zone soa_zone question)
                    (\<lambda>_. if q_qtype question = 255 then add_authorative soa_zone else op_ret ()) s1))"

definition ProcessNsAuthZone :: "env \<Rightarrow> zptr \<Rightarrow> (reply, unit) op" where
  "ProcessNsAuthZone env zone =
     op_for (zns (target zone)) (\<lambda>ns.
       let fdqn = GetFdqn ns (Some zone)
       in op_bind (Store Authority (named_answer (GetDomainName zone) 2 0) (RdataNs fdqn))
            (\<lambda>_. add_ns (find_zone env fdqn)))"

definition ProcessNsZone :: "zptr \<Rightarrow> (reply, unit) op" where
  "ProcessNsZone zone =
     op_for (za (target zone))
       (\<lambda>ip. Store Additional (named_answer (GetDomainName zone) 1 4) (RdataA ip))"

section \<open>Answering a query\<close>

text \<open>
  The first pass. \<open>left\<close> is \<open>bytes_left\<close>, which no round changes; the natural number counts
  the rounds that remain.
\<close>

fun read_questions ::
  "env \<Rightarrow> bytes \<Rightarrow> nat \<Rightarrow> nat \<Rightarrow> nat \<Rightarrow> string_ref list \<Rightarrow> (reply, Question list) op" where
  "read_questions env query len left 0 pointers s = (Inr [], s)"
| "read_questions env query len left (Suc rounds) pointers s =
     (if left = 0 then (Inl InvalidQuery, s)
      else let p = len - left
      in case parse_question (env_endian env) (env_label_ok env) query p left pointers
                (of_nat (length (rp_buffer s))) of
           Inl x \<Rightarrow> (Inl x, s)
         | Inr (question, pointers') \<Rightarrow>
             if q_qclass question \<noteq> 1 \<and> q_qclass question \<noteq> 255 then (Inl Refused, s)
             else if length (rp_buffer s) + q_size question < max_reply_buffer then
               (case read_questions env query len left rounds pointers'
                       (s\<lparr>rp_buffer := rp_buffer s @ segment query p (q_size question),
                          rp_num_questions := rp_num_questions s + 1\<rparr>) of
                  (Inl x, s') \<Rightarrow> (Inl x, s')
                | (Inr questions, s') \<Rightarrow> (Inr (question # questions), s'))
             else (Inl InvalidQuery, s))"

text \<open>The body of the \<open>try\<close> block: answers, name servers, and their addresses.\<close>

definition answer_questions :: "env \<Rightarrow> Question list \<Rightarrow> (reply, unit) op" where
  "answer_questions env questions =
     op_bind (op_for questions (ProcessQuestion env)) (\<lambda>_.
     op_bind (\<lambda>s. op_for (rp_authorative_zones s) (ProcessNsAuthZone env) s) (\<lambda>_ s.
       op_for (rp_ns_zones s) ProcessNsZone s))"

definition reply_header :: "bool \<Rightarrow> MessageHeader \<Rightarrow> reply \<Rightarrow> MessageHeader" where
  "reply_header truncated header s =
     SetArCount (rp_num_opt s) (SetNsCount (rp_num_ns s) (SetAnCount (rp_num_answers s)
       (SetQdCount (rp_num_questions s) (SetAa (rp_authorative s) (SetRa False
         (SetQr True (SetTc truncated header)))))))"

text \<open>\<open>vector::resize\<close>; new elements are zero.\<close>

definition resize :: "nat \<Rightarrow> bytes \<Rightarrow> bytes" where
  "resize n buffer = take n buffer @ replicate (n - length buffer) 0"

definition ProcessQuestions :: "env \<Rightarrow> bytes \<Rightarrow> nat \<Rightarrow> MessageHeader \<Rightarrow> (bytes, unit) op" where
  "ProcessQuestions env query len header buffer =
     (case read_questions env query len (len - header_size) (unat (hdr_qdcount header)) []
             (new_reply (resize header_size buffer)) of
        (Inl x, s) \<Rightarrow> (Inl x, rp_buffer s)
      | (Inr questions, s) \<Rightarrow>
          (case answer_questions env questions s of
             (Inr _, s') \<Rightarrow> (Inr (), write_header (reply_header False header s') (rp_buffer s'))
           | (Inl Truncated, s') \<Rightarrow> (Inr (), write_header (reply_header True header s') (rp_buffer s'))
           | (Inl x, s') \<Rightarrow> (Inl x, rp_buffer s')))"

definition CreateErrorReply :: "Rcode \<Rightarrow> MessageHeader \<Rightarrow> bytes \<Rightarrow> bytes" where
  "CreateErrorReply errCode hdr buffer =
     write_header (ResetAllCounters (SetRcode errCode (SetQr True hdr))) (resize header_size buffer)"

text \<open>
  What a worker keeps: its buffers, its thread's statistics, the state of the request it
  is at, and the daemon's count of incoming datagrams.
\<close>

record worker =
  wk_query :: bytes
  wk_reply :: bytes
  wk_stats :: Statistics
  wk_request :: RequestState
  wk_incoming :: u64

definition reply_error :: "Rcode \<Rightarrow> MessageHeader \<Rightarrow> worker \<Rightarrow> worker" where
  "reply_error errCode hdr w = w\<lparr>wk_reply := CreateErrorReply errCode hdr (wk_reply w)\<rparr>"

definition unknown_name :: "worker \<Rightarrow> worker" where
  "unknown_name w = w\<lparr>wk_stats := (wk_stats w)\<lparr>unknown_names := unknown_names (wk_stats w) + 1\<rparr>\<rparr>"

text \<open>The handlers of \<open>ProcesssQuerey\<close>, in the order of the code.\<close>

fun handle :: "exn \<Rightarrow> MessageHeader \<Rightarrow> (worker, unit) op" where
  "handle InvalidQuery hdr w = (Inr (), reply_error FORMAT_ERROR hdr w\<lparr>wk_request := BAD\<rparr>)"
| "handle UnknownDomain hdr w = (Inl UnknownDomain, unknown_name w)"
| "handle UnknownSubDomain hdr w = (Inr (), unknown_name (reply_error NAME_ERROR hdr w))"
| "handle NoSoaRecord hdr w = (Inr (), reply_error SERVER_FAILURE hdr w)"
| "handle Refused hdr w = (Inr (), reply_error REFUSED hdr w)"
| "handle NoLabelsException hdr w = (Inr (), reply_error FORMAT_ERROR hdr w\<lparr>wk_request := BAD\<rparr>)"
| "handle IllegalLabelException hdr w = (Inr (), reply_error FORMAT_ERROR hdr w\<lparr>wk_request := BAD\<rparr>)"
| "handle IllegalPointereException hdr w = (Inr (), reply_error FORMAT_ERROR hdr w\<lparr>wk_request := BAD\<rparr>)"
| "handle UndefinedBehaviour hdr w = (Inl UndefinedBehaviour, w)"
| "handle _ hdr w = (Inr (), reply_error SERVER_FAILURE hdr w)"

definition ProcesssQuerey :: "env \<Rightarrow> nat \<Rightarrow> (worker, unit) op" where
  "ProcesssQuerey env queryLen w =
     (let w0 = w\<lparr>wk_reply := []\<rparr>
      in case parse_header (wk_query w) queryLen of
           Inl x \<Rightarrow> (Inl x, w0)
         | Inr header \<Rightarrow>
             if GetQr header then handle InvalidQuery header w0
             else if GetOpcode header = 0 then
               (case ProcessQuestions env (wk_query w) queryLen header (wk_reply w0) of
                  (Inr _, buffer) \<Rightarrow> (Inr (), w0\<lparr>wk_reply := buffer\<rparr>)
                | (Inl x, buffer) \<Rightarrow> handle x header (w0\<lparr>wk_reply := buffer\<rparr>))
             else (Inr (), reply_error NOT_IMPLEMENTED header w0))"

text \<open>
  One round of the receive loop: the datagram overwrites the front of the query buffer, the
  answer is what is sent, if anything is. \<open>RequestStats\<close> is destroyed at the end of the
  round, also when \<open>continue\<close> leaves it. Every exception but \<open>UnknownDomain\<close> is caught and
  logged.
\<close>

definition request_done :: "worker \<Rightarrow> worker" where
  "request_done w = w\<lparr>wk_stats := RequestStats_done (wk_request w) (wk_stats w)\<rparr>"

definition start_request :: "bytes \<Rightarrow> worker \<Rightarrow> worker" where
  "start_request datagram w =
     w\<lparr>wk_query := datagram @ drop (length datagram) (wk_query w),
       wk_stats := (wk_stats w)\<lparr>bytes_received := bytes_received (wk_stats w) + of_nat (length datagram)\<rparr>,
       wk_request := UNSET, wk_incoming := wk_incoming w + 1\<rparr>"

definition send_reply :: "worker \<Rightarrow> worker" where
  "send_reply w = w\<lparr>wk_request := SUCESS, wk_stats :=
     (wk_stats w)\<lparr>bytes_sent := bytes_sent (wk_stats w) + of_nat (length (wk_reply w))\<rparr>\<rparr>"

definition receive_one :: "env \<Rightarrow> bytes \<Rightarrow> (worker, bytes option) op" where
  "receive_one env datagram w =
     (case ProcesssQuerey env (length datagram) (start_request datagram w) of
        (Inl UnknownDomain, w1) \<Rightarrow> (Inr None, request_done w1)
      | (Inl UndefinedBehaviour, w1) \<Rightarrow> (Inl UndefinedBehaviour, w1)
      | (_, w1) \<Rightarrow>
          if wk_reply w1 \<noteq> [] then (Inr (Some (wk_reply w1)), request_done (send_reply w1))
          else (Inr None, request_done w1))"

section \<open>Headers of replies\<close>

text \<open>
  The header of a reply is the query's with the reply bit set, recursion not available,
  the truncation and authority bits and the four counts the code computed; identifier,
  operation code and response code are the query's.
\<close>

theorem reply_header_fields:
  "let h = reply_header truncated header s in
     GetQr h \<and> \<not> GetRa h \<and> GetTc h = truncated \<and> GetAa h = rp_authorative s \<and>
     GetOpcode h = GetOpcode header \<and> GetRcode h = GetRcode header \<and> hdr_id h = hdr_id header \<and>
     hdr_qdcount h = rp_num_questions s \<and> hdr_ancount h = rp_num_answers s \<and>
     hdr_nscount h = rp_num_ns s \<and> hdr_arcount h = rp_num_opt s"
  by (simp add: reply_header_def SetQdCount_def SetAnCount_def SetNsCount_def SetArCount_def
      fields_kept fields_stored counts_kept Let_def)

lemma header_of_reply:
  "GetQr (reply_header t header s)" "hdr_id (reply_header t header s) = hdr_id header"
  "GetOpcode (reply_header t header s) = GetOpcode header"
  "GetTc (reply_header t header s) = t" "\<not> GetRa (reply_header t header s)"
  "GetAa (reply_header t header s) = rp_authorative s"
  "hdr_qdcount (reply_header t header s) = rp_num_questions s"
  "hdr_ancount (reply_header t header s) = rp_num_answers s"
  "hdr_nscount (reply_header t header s) = rp_num_ns s"
  "hdr_arcount (reply_header t header s) = rp_num_opt s"
  by (simp_all add: reply_header_def SetQdCount_def SetAnCount_def SetNsCount_def SetArCount_def
      fields_kept fields_stored counts_kept)

lemma length_resize [simp]: "length (resize n buffer) = n"
  by (simp add: resize_def)

lemma length_CreateErrorReply [simp]: "length (CreateErrorReply c hdr buffer) = header_size"
  by (simp add: CreateErrorReply_def)

lemma error_header:
  "parse_header (CreateErrorReply c hdr buffer) header_size =
     Inr (ResetAllCounters (SetRcode c (SetQr True hdr)))"
  using parse_header_bytes [of header_size "ResetAllCounters (SetRcode c (SetQr True hdr))" "[]"]
  by (simp add: CreateErrorReply_def write_header_eq)

text \<open>
  An error reply is a header alone: twelve bytes that keep the query's identifier and
  operation code, with the reply bit, the response code and no records.
\<close>

theorem error_reply_decodes:
  "length (CreateErrorReply c hdr buffer) = 12 \<and>
   (\<exists>h. parse_header (CreateErrorReply c hdr buffer) 12 = Inr h \<and> GetQr h \<and>
      hdr_id h = hdr_id hdr \<and> GetOpcode h = GetOpcode hdr \<and> GetRcode h = rcode_value c \<and>
      hdr_qdcount h = 0 \<and> hdr_ancount h = 0 \<and> hdr_nscount h = 0 \<and> hdr_arcount h = 0)"
  using error_header [of c hdr buffer] length_CreateErrorReply [of c hdr buffer]
  unfolding header_size_def
  by (auto simp: ResetAllCounters_def fields_kept fields_stored counts_kept)

section \<open>What answering keeps\<close>

text \<open>The reply only grows, and never beyond its limit.\<close>

definition grows :: "reply \<Rightarrow> reply \<Rightarrow> bool" where
  "grows s s' \<longleftrightarrow> take (length (rp_buffer s)) (rp_buffer s') = rp_buffer s \<and>
     (length (rp_buffer s) \<le> max_reply_buffer \<longrightarrow> length (rp_buffer s') \<le> max_reply_buffer)"

lemma grows_length: "grows s s' \<Longrightarrow> length (rp_buffer s) \<le> length (rp_buffer s')"
  unfolding grows_def by (metis length_take min.cobounded2 min.commute nle_le)

lemma grows_refl: "reflp grows"
  by (simp add: reflp_def grows_def)

lemma grows_trans: "transp grows"
proof (rule transpI)
  fix s1 s2 s3
  assume a: "grows s1 s2" "grows s2 s3"
  from grows_length [OF a(1)] a
  have "take (length (rp_buffer s1)) (rp_buffer s3) = take (length (rp_buffer s1)) (rp_buffer s2)"
    unfolding grows_def by (metis min.absorb2 min.commute take_take)
  with a show "grows s1 s3" by (simp add: grows_def)
qed

lemmas grows_intros = keeps_intros [where R = grows]

lemma Store_grows: "op_keeps grows (Store sec a d)"
  unfolding op_keeps_def
proof
  fix s
  show "grows s (snd (Store sec a d s))"
  proof (cases "Write a d (rp_buffer s) (rp_labels s)")
    case (Inl x)
    then show ?thesis by (simp add: Store_def grows_def)
  next
    case (Inr w)
    obtain a' buffer labels where w: "w = (a', buffer, labels)" by (cases w)
    from any_frame.write_frame [OF Inr [unfolded w]] obtain ext where "buffer = rp_buffer s @ ext" by blast
    moreover from any_frame.Revert_restores [OF Inr [unfolded w]] have "Revert a' buffer = rp_buffer s" .
    ultimately show ?thesis
      using Inr w by (cases sec) (auto simp: Store_def Let_def grows_def)
  qed
qed

lemma add_authorative_grows: "op_keeps grows (add_authorative z)"
  by (simp add: op_keeps_def add_authorative_def op_upd_def grows_def)

lemma add_ns_grows: "op_keeps grows (add_ns z)"
  by (simp add: op_keeps_def add_ns_def op_upd_def grows_def)

lemmas steps_grow = grows_intros grows_refl grows_trans Store_grows add_authorative_grows add_ns_grows

lemma StoreCname_grows: "op_keeps grows (StoreCname zone q)"
  unfolding StoreCname_def by (intro steps_grow)

lemma StoreA_grows: "op_keeps grows (StoreA env zone q)"
proof -
  have "op_keeps grows (case find_zone env full of None \<Rightarrow> op_ret ()
      | Some z \<Rightarrow> op_for (za (target z)) (\<lambda>ip. Store Answers (named_answer full 1 4) (RdataA ip)))" for full
    by (cases "find_zone env full") (auto intro!: steps_grow)
  then show ?thesis unfolding StoreA_def by (auto intro!: steps_grow StoreCname_grows)
qed

lemma StoreMx_grows: "op_keeps grows (StoreMx env zone q)"
  unfolding StoreMx_def Let_def by (intro steps_grow)

lemma StoreByType_grows: "op_keeps grows (StoreByType env zone soa q)"
  unfolding StoreByType_def Let_def
  by (auto intro!: steps_grow StoreCname_grows StoreA_grows StoreMx_grows split: option.splits)

lemma ProcessQuestion_grows: "op_keeps grows (ProcessQuestion env q)"
proof -
  have "grows s (snd (ProcessQuestion env q s))" for s
  proof (cases "Lookup (env_ieq env) (env_zones env) (q_labels q) False")
    case (Pair r b)
    show ?thesis
    proof (cases r)
      case None
      with Pair show ?thesis by (simp add: ProcessQuestion_def grows_def)
    next
      case (Some zone)
      show ?thesis
      proof (cases "GetSoaZone zone")
        case None
        with Pair Some show ?thesis by (simp add: ProcessQuestion_def grows_def)
      next
        case soa: (Some soa)
        let ?op = "op_bind (StoreByType env zone soa q)
            (\<lambda>_. if q_qtype q = 255 then add_authorative soa else op_ret ())"
        have "op_keeps grows ?op" by (auto intro!: steps_grow StoreByType_grows)
        then have keep: "grows s' (snd (?op s'))" for s' by (simp add: op_keeps_def)
        have "ProcessQuestion env q s = ?op s \<or> ProcessQuestion env q s = ?op (s\<lparr>rp_authorative := False\<rparr>)"
          unfolding ProcessQuestion_def Pair Some by (simp only: prod.case option.case soa Let_def) simp
        with keep [of s] keep [of "s\<lparr>rp_authorative := False\<rparr>"] show ?thesis
          by (auto simp: grows_def)
      qed
    qed
  qed
  then show ?thesis by (simp add: op_keeps_def)
qed

lemma op_keeps_at: "(\<And>s. op_keeps R (g s)) \<Longrightarrow> op_keeps R (\<lambda>s. g s s)"
  by (simp add: op_keeps_def)

lemma ProcessNsAuthZone_grows: "op_keeps grows (ProcessNsAuthZone env zone)"
  unfolding ProcessNsAuthZone_def Let_def by (intro steps_grow)

lemma ProcessNsZone_grows: "op_keeps grows (ProcessNsZone zone)"
  unfolding ProcessNsZone_def by (intro steps_grow)

lemma answer_questions_grows: "op_keeps grows (answer_questions env qs)"
proof -
  have 1: "op_keeps grows (\<lambda>s. op_for (rp_authorative_zones s) (ProcessNsAuthZone env) s)"
    by (rule op_keeps_at) (intro steps_grow ProcessNsAuthZone_grows)
  have 2: "op_keeps grows (\<lambda>s. op_for (rp_ns_zones s) ProcessNsZone s)"
    by (rule op_keeps_at) (intro steps_grow ProcessNsZone_grows)
  show ?thesis
    unfolding answer_questions_def by (intro steps_grow ProcessQuestion_grows 1 2)
qed

lemma read_questions_grows: "op_keeps grows (read_questions env query len left n pointers)"
proof -
  have "grows s (snd (read_questions env query len left n pointers s))" for s
  proof (induction n arbitrary: pointers s)
    case 0
    then show ?case by (simp add: grows_def)
  next
    case (Suc n)
    show ?case
    proof (cases "parse_question (env_endian env) (env_label_ok env) query (len - left) left pointers
        (of_nat (length (rp_buffer s)))")
      case (Inl x)
      then show ?thesis by (simp add: grows_def)
    next
      case (Inr r)
      obtain q known where r: "r = (q, known)" by (cases r)
      let ?s = "s\<lparr>rp_buffer := rp_buffer s @ segment query (len - left) (q_size q),
          rp_num_questions := rp_num_questions s + 1\<rparr>"
      let ?rest = "read_questions env query len left n known ?s"
      have "grows s (snd ?rest)" if "length (rp_buffer s) + q_size q < max_reply_buffer"
      proof (rule transpD [OF grows_trans])
        show "grows s ?s" using that by (simp add: grows_def segment_def)
        show "grows ?s (snd ?rest)" by (rule Suc.IH)
      qed
      moreover have "snd (case ?rest of (Inl x, s') \<Rightarrow> (Inl x, s')
          | (Inr questions, s') \<Rightarrow> (Inr (q # questions), s')) = snd ?rest"
        by (cases ?rest) (auto split: sum.splits)
      moreover have "grows s s" by (simp add: grows_def)
      ultimately show ?thesis
        using Inr r by (simp add: Let_def)
    qed
  qed
  then show ?thesis by (simp add: op_keeps_def)
qed

section \<open>Every reply is a reply to its query\<close>

definition replies_to :: "MessageHeader \<Rightarrow> bytes \<Rightarrow> bool" where
  "replies_to hdr b \<longleftrightarrow> 12 \<le> length b \<and> length b \<le> 512 \<and>
     (\<exists>h. parse_header b (length b) = Inr h \<and> GetQr h \<and> hdr_id h = hdr_id hdr \<and>
        GetOpcode h = GetOpcode hdr)"

lemma replies_to_nonempty: "replies_to hdr b \<Longrightarrow> b \<noteq> []"
  by (auto simp: replies_to_def)

lemma replies_to_written:
  assumes "header_size \<le> length buf" "length buf \<le> max_reply_buffer"
  shows "replies_to hdr (write_header (reply_header t hdr s) buf)"
proof -
  have "parse_header (write_header (reply_header t hdr s) buf) (length buf) = Inr (reply_header t hdr s)"
    using assms by (simp add: write_header_eq parse_header_bytes)
  with assms header_of_reply show ?thesis
    by (simp add: replies_to_def header_size_def max_reply_buffer_def)
qed

lemma ProcessQuestions_Inr:
  assumes "ProcessQuestions env query len hdr buffer = (Inr r, buf)"
  shows "\<exists>qs s1 out s t. read_questions env query len (len - header_size) (unat (hdr_qdcount hdr)) []
        (new_reply (resize header_size buffer)) = (Inr qs, s1) \<and>
      answer_questions env qs s1 = (out, s) \<and> (out = Inr () \<and> \<not> t \<or> out = Inl Truncated \<and> t) \<and>
      buf = write_header (reply_header t hdr s) (rp_buffer s)"
  using assms unfolding ProcessQuestions_def
  by (auto split: prod.splits sum.splits exn.splits)

lemma ProcessQuestions_replies:
  assumes "ProcessQuestions env query len hdr buffer = (Inr r, buf)"
  shows "replies_to hdr buf"
proof -
  let ?s0 = "new_reply (resize header_size buffer)"
  from ProcessQuestions_Inr [OF assms] obtain qs s1 out s t where
    q: "read_questions env query len (len - header_size) (unat (hdr_qdcount hdr)) [] ?s0 = (Inr qs, s1)" and
    a: "answer_questions env qs s1 = (out, s)" and
    b: "buf = write_header (reply_header t hdr s) (rp_buffer s)" by blast
  have "grows ?s0 s"
    using transpD [OF grows_trans op_keepsD [OF read_questions_grows q] op_keepsD [OF answer_questions_grows a]] .
  then have "header_size \<le> length (rp_buffer s)" "length (rp_buffer s) \<le> max_reply_buffer"
    using grows_length [of ?s0 s]
    by (auto simp: grows_def new_reply_def header_size_def max_reply_buffer_def)
  then show ?thesis unfolding b by (rule replies_to_written)
qed

lemma reply_error_replies: "replies_to hdr (CreateErrorReply c hdr buffer)"
proof -
  have "parse_header (CreateErrorReply c hdr buffer) (length (CreateErrorReply c hdr buffer)) =
      Inr (ResetAllCounters (SetRcode c (SetQr True hdr)))"
    by (simp add: error_header)
  then show ?thesis
    by (simp add: replies_to_def header_size_def ResetAllCounters_def fields_kept fields_stored counts_kept)
qed

text \<open>What a handler does to the worker, and what the whole query does.\<close>

definition same_but_names :: "worker \<Rightarrow> worker \<Rightarrow> bool" where
  "same_but_names w w' \<longleftrightarrow> wk_query w' = wk_query w \<and> wk_incoming w' = wk_incoming w \<and>
     (wk_stats w')\<lparr>unknown_names := 0\<rparr> = (wk_stats w)\<lparr>unknown_names := 0\<rparr>"

lemma handle_effect:
  assumes "handle x hdr w = (r, w')"
  shows "same_but_names w w' \<and>
    (r = Inr () \<and> replies_to hdr (wk_reply w') \<or>
     r = Inl x \<and> x \<in> {UnknownDomain, UndefinedBehaviour} \<and> wk_request w' = wk_request w)"
proof -
  have "same_but_names w (snd (handle x hdr w)) \<and>
      (fst (handle x hdr w) = Inr () \<and> replies_to hdr (wk_reply (snd (handle x hdr w))) \<or>
       fst (handle x hdr w) = Inl x \<and> x \<in> {UnknownDomain, UndefinedBehaviour} \<and>
         wk_request (snd (handle x hdr w)) = wk_request w)"
    by (cases x) (simp_all add: same_but_names_def reply_error_def unknown_name_def reply_error_replies)
  then show ?thesis using assms by simp
qed

lemma ProcesssQuerey_effect:
  assumes "ProcesssQuerey env n w = (r, w')"
  shows "same_but_names w w' \<and>
    ((\<exists>hdr. parse_header (wk_query w) n = Inr hdr \<and> r = Inr () \<and> replies_to hdr (wk_reply w')) \<or>
     (\<exists>x. r = Inl x \<and> wk_request w' = wk_request w \<and>
        (x \<in> {UnknownDomain, UndefinedBehaviour} \<or> wk_reply w' = [])))"
proof (cases "parse_header (wk_query w) n")
  case (Inl x)
  with assms have "r = Inl x" "w' = w\<lparr>wk_reply := []\<rparr>" by (auto simp: ProcesssQuerey_def)
  then show ?thesis by (simp add: same_but_names_def)
next
  case (Inr hdr)
  let ?w0 = "w\<lparr>wk_reply := []\<rparr>"
  have same: "same_but_names (w\<lparr>wk_reply := b\<rparr>) w' \<Longrightarrow> same_but_names w w'" for b
    by (simp add: same_but_names_def)
  have refl: "same_but_names w (w\<lparr>wk_reply := b\<rparr>)" for b
    by (simp add: same_but_names_def)
  obtain pr buf where pq: "ProcessQuestions env (wk_query w) n hdr [] = (pr, buf)"
    by (cases "ProcessQuestions env (wk_query w) n hdr []")
  have def_q: "ProcesssQuerey env n w =
      (if GetQr hdr then handle InvalidQuery hdr ?w0
       else if GetOpcode hdr = 0 then
         (case pr of Inr _ \<Rightarrow> (Inr (), w\<lparr>wk_reply := buf\<rparr>) | Inl x \<Rightarrow> handle x hdr (w\<lparr>wk_reply := buf\<rparr>))
       else (Inr (), reply_error NOT_IMPLEMENTED hdr ?w0))"
    using Inr pq by (simp add: ProcesssQuerey_def Let_def del: handle.simps split: sum.splits)
  show ?thesis
  proof (cases "GetQr hdr")
    case True
    then have "handle InvalidQuery hdr ?w0 = (r, w')"
      using assms unfolding def_q by (simp only: if_True)
    from handle_effect [OF this] Inr same [of "[]"] show ?thesis by auto
  next
    case False
    show ?thesis
    proof (cases "GetOpcode hdr = 0")
      case False
      with \<open>\<not> GetQr hdr\<close> assms def_q have "r = Inr ()" "w' = reply_error NOT_IMPLEMENTED hdr ?w0"
        by simp_all
      with Inr refl reply_error_replies show ?thesis by (auto simp: reply_error_def)
    next
      case True
      show ?thesis
      proof (cases pr)
        case (Inl x)
        with True \<open>\<not> GetQr hdr\<close> have "handle x hdr (w\<lparr>wk_reply := buf\<rparr>) = (r, w')"
          using assms unfolding def_q by (simp del: handle.simps)
        from handle_effect [OF this] \<open>parse_header (wk_query w) n = Inr hdr\<close> same [of buf]
        show ?thesis by auto
      next
        case (Inr u)
        with True \<open>\<not> GetQr hdr\<close> assms def_q have "r = Inr ()" "w' = w\<lparr>wk_reply := buf\<rparr>"
          by simp_all
        with pq Inr ProcessQuestions_replies [of env "wk_query w" n hdr "[]" u buf]
          \<open>parse_header (wk_query w) n = Inr hdr\<close> refl
        show ?thesis by auto
      qed
    qed
  qed
qed

lemma same_counters:
  assumes "same_but_names w w'"
  shows "bad_requests (wk_stats w') = bad_requests (wk_stats w)"
    "ok_requests (wk_stats w') = ok_requests (wk_stats w)"
    "failed_requests (wk_stats w') = failed_requests (wk_stats w)"
    "bytes_received (wk_stats w') = bytes_received (wk_stats w)"
    "bytes_sent (wk_stats w') = bytes_sent (wk_stats w)" "wk_incoming w' = wk_incoming w"
  using assms by (cases "wk_stats w"; cases "wk_stats w'"; simp add: same_but_names_def)+

lemma parse_header_prefix:
  "parse_header (d @ rest) (length d) = parse_header d (length d)"
  by (simp add: parse_header_def u16_at_def nth_append header_size_def)

text \<open>
  C16: whatever the zones are and whatever a datagram holds, what the server sends back is
  at most 512 bytes, has a header with the reply bit set, and keeps the identifier and the
  operation code of the datagram, which had a header itself.
\<close>

theorem reply_within_bounds:
  assumes "receive_one env datagram w = (Inr (Some b), w')"
  shows "\<exists>hdr. parse_header datagram (length datagram) = Inr hdr \<and> replies_to hdr b"
proof -
  obtain r w1 where q: "ProcesssQuerey env (length datagram) (start_request datagram w) = (r, w1)"
    by (cases "ProcesssQuerey env (length datagram) (start_request datagram w)")
  with assms have "b = wk_reply w1" "b \<noteq> []" "r \<noteq> Inl UnknownDomain" "r \<noteq> Inl UndefinedBehaviour"
    by (auto simp: receive_one_def split: sum.splits exn.splits if_splits)
  with ProcesssQuerey_effect [OF q] show ?thesis
    by (auto simp: start_request_def parse_header_prefix)
qed

text \<open>
  Each datagram is counted once. One that is replied to counts as a good request, with
  its reply's bytes, one that is not as a failed request. No datagram ever counts as a bad
  request, although the handlers mark malformed queries as such.
\<close>

theorem receive_one_counts:
  assumes "receive_one env datagram w = (Inr answer, w')"
  shows "bad_requests (wk_stats w') = bad_requests (wk_stats w) \<and>
    bytes_received (wk_stats w') = bytes_received (wk_stats w) + of_nat (length datagram) \<and>
    wk_incoming w' = wk_incoming w + 1 \<and>
    (case answer of
       Some b \<Rightarrow> ok_requests (wk_stats w') = ok_requests (wk_stats w) + 1 \<and>
         failed_requests (wk_stats w') = failed_requests (wk_stats w) \<and>
         bytes_sent (wk_stats w') = bytes_sent (wk_stats w) + of_nat (length b)
     | None \<Rightarrow> failed_requests (wk_stats w') = failed_requests (wk_stats w) + 1 \<and>
         ok_requests (wk_stats w') = ok_requests (wk_stats w) \<and>
         bytes_sent (wk_stats w') = bytes_sent (wk_stats w))"
proof -
  obtain r w1 where q: "ProcesssQuerey env (length datagram) (start_request datagram w) = (r, w1)"
    by (cases "ProcesssQuerey env (length datagram) (start_request datagram w)")
  from ProcesssQuerey_effect [OF q] have same: "same_but_names (start_request datagram w) w1" and
    quiet: "(r = Inr () \<and> wk_reply w1 \<noteq> []) \<or> (\<exists>x. r = Inl x \<and> wk_request w1 = UNSET \<and>
        (x \<in> {UnknownDomain, UndefinedBehaviour} \<or> wk_reply w1 = []))"
    by (auto simp: start_request_def dest: replies_to_nonempty)
  from assms q quiet consider "answer = Some (wk_reply w1)" "w' = request_done (send_reply w1)"
    | "answer = None" "w' = request_done w1" "wk_request w1 = UNSET"
    by (auto simp: receive_one_def split: exn.splits if_splits)
  then show ?thesis
    using same_counters [OF same]
    by cases (simp_all add: start_request_def request_done_def send_reply_def)
qed

section \<open>A server to try things on\<close>

definition sample_env :: env where
  "sample_env = \<lparr>env_endian = Little, env_label_ok = (\<lambda>_. True), env_ieq = ascii_iequals,
     env_zones = sample_zones\<rparr>"

definition sample_worker :: worker where
  "sample_worker = \<lparr>wk_query = replicate 512 0, wk_reply = replicate 512 0,
     wk_stats = new_Statistics, wk_request = UNSET, wk_incoming = 0\<rparr>"

text \<open>A server status request, which is not implemented.\<close>

definition status_request :: bytes where
  "status_request = [0x12, 0x34, 0x10, 0, 0, 0, 0, 0, 0, 0, 0, 0]"

lemma status_request_answered:
  "\<exists>w'. receive_one sample_env status_request sample_worker =
     (Inr (Some [0x12, 0x34, 0x90, 4, 0, 0, 0, 0, 0, 0, 0, 0]), w')"
  by (simp add: receive_one_def ProcesssQuerey_def status_request_def start_request_def
      parse_header_def header_size_def u16_at_def ntohs_bytes_def GetQr_def GetOpcode_def
      reply_error_def CreateErrorReply_def SetRcode_def SetQr_def put_flag_def ResetAllCounters_def
      write_header_def header_bytes_def htons_bytes_def put_at_def resize_def Let_def)

theorem reply_within_bounds_witness:
  "\<exists>hdr. parse_header status_request (length status_request) = Inr hdr \<and>
     replies_to hdr [0x12, 0x34, 0x90, 4, 0, 0, 0, 0, 0, 0, 0, 0]"
proof -
  obtain w' where "receive_one sample_env status_request sample_worker =
     (Inr (Some [0x12, 0x34, 0x90, 4, 0, 0, 0, 0, 0, 0, 0, 0]), w')"
    using status_request_answered by blast
  then show ?thesis by (rule reply_within_bounds)
qed

theorem receive_one_counts_witness:
  "\<exists>w'. snd (receive_one sample_env status_request sample_worker) = w' \<and>
     ok_requests (wk_stats w') = 1 \<and> failed_requests (wk_stats w') = 0 \<and>
     bytes_received (wk_stats w') = 12 \<and> bytes_sent (wk_stats w') = 12"
proof -
  obtain w' where r: "receive_one sample_env status_request sample_worker =
     (Inr (Some [0x12, 0x34, 0x90, 4, 0, 0, 0, 0, 0, 0, 0, 0]), w')"
    using status_request_answered by blast
  from receive_one_counts [OF r] r show ?thesis
    by (simp add: sample_worker_def new_Statistics_def status_request_def)
qed

end
