(* ===== verification/DnsSpec.thy ===== *)
theory DnsSpec
  imports DnsDaemon
begin

text \<open>
  What the DNS server promises, independent of buffers, labels and counters: the messages of
  RFC 1035 read from bytes, and for every question the records that answer it. Models no code.
\<close>

section \<open>Messages\<close>

record question_view =
  qv_labels :: "bytes list"
  qv_type :: u16
  qv_class :: u16

definition decode_question :: "bytes \<Rightarrow> nat \<Rightarrow> (question_view \<times> nat) option" where
  "decode_question buf off =
     Option.bind (read_name buf off) (\<lambda>(fs, n).
       case segment buf n 4 of
         [t1, t2, c1, c2] \<Rightarrow>
           Some (\<lparr>qv_labels = fs, qv_type = ntohs_bytes t1 t2, qv_class = ntohs_bytes c1 c2\<rparr>, n + 4)
       | _ \<Rightarrow> None)"

fun decode_many :: "(bytes \<Rightarrow> nat \<Rightarrow> ('a \<times> nat) option) \<Rightarrow> nat \<Rightarrow> bytes \<Rightarrow> nat \<Rightarrow> ('a list \<times> nat) option" where
  "decode_many dec 0 buf off = Some ([], off)"
| "decode_many dec (Suc n) buf off =
     Option.bind (dec buf off) (\<lambda>(x, off1).
     Option.bind (decode_many dec n buf off1) (\<lambda>(xs, off2). Some (x # xs, off2)))"

record message =
  msg_header :: MessageHeader
  msg_questions :: "question_view list"
  msg_answers :: "rr_view list"
  msg_authority :: "rr_view list"
  msg_additional :: "rr_view list"

text \<open>A message holds the records its header counts, and nothing behind them.\<close>

definition decode_message :: "bytes \<Rightarrow> message option" where
  "decode_message buf =
     (case parse_header buf (length buf) of
        Inl x \<Rightarrow> None
      | Inr h \<Rightarrow>
          Option.bind (decode_many decode_question (unat (hdr_qdcount h)) buf header_size) (\<lambda>(qs, o1).
          Option.bind (decode_many decode_rr (unat (hdr_ancount h)) buf o1) (\<lambda>(an, o2).
          Option.bind (decode_many decode_rr (unat (hdr_nscount h)) buf o2) (\<lambda>(ns, o3).
          Option.bind (decode_many decode_rr (unat (hdr_arcount h)) buf o3) (\<lambda>(ar, o4).
            if o4 = length buf
            then Some \<lparr>msg_header = h, msg_questions = qs, msg_answers = an,
                       msg_authority = ns, msg_additional = ar\<rparr>
            else None)))))"

section \<open>The answer to a question\<close>

definition resolve :: "env \<Rightarrow> bytes list \<Rightarrow> zptr option \<times> bool" where
  "resolve env labels = Lookup (env_ieq env) (env_zones env) labels False"

definition cname_rrs :: "bytes list \<Rightarrow> zptr \<Rightarrow> rr list" where
  "cname_rrs own zone =
     (if zcname (target zone) = [] then [] else [(own, RdataCname (full_cname zone))])"

definition a_rrs :: "bytes list \<Rightarrow> zptr \<Rightarrow> rr list" where
  "a_rrs own zone = map (\<lambda>ip. (own, RdataA ip)) (za (target zone))"

definition answer_rrs :: "env \<Rightarrow> question_view \<Rightarrow> zptr \<Rightarrow> rr list" where
  "answer_rrs env q zone =
     (let own = qv_labels q; t = qv_type q; alias = full_cname zone
      in if t = 1 \<and> zcname (target zone) \<noteq> [] then
           cname_rrs own zone @
           (case find_zone env alias of None \<Rightarrow> [] | Some z \<Rightarrow> a_rrs (ToFraments alias) z)
         else if t = 1 then a_rrs own zone
         else if t = 255 then
           (if zcname (target zone) \<noteq> [] then cname_rrs own zone else a_rrs own zone)
         else if t = 5 then cname_rrs own zone
         else if t = 6 then (case nearest_soa zone of None \<Rightarrow> [] | Some sz \<Rightarrow> [(own, RdataSoa sz)])
         else if t = 15 then
           map (\<lambda>mx. (own, RdataMx (GetFdqn mx (Some zone)) (mx_priority mx))) (zmx (target zone))
         else [])"

text \<open>The zone named in the authority section, and the hosts a mail answer names.\<close>

definition authority_of :: "question_view \<Rightarrow> zptr \<Rightarrow> zptr option list" where
  "authority_of q zone = (if qv_type q \<in> {2, 6, 255} then [nearest_soa zone] else [])"

definition mail_hosts :: "env \<Rightarrow> question_view \<Rightarrow> zptr \<Rightarrow> zptr option list" where
  "mail_hosts env q zone =
     (if qv_type q = 15 then map (\<lambda>mx. find_zone env (GetFdqn mx (Some zone))) (zmx (target zone))
      else [])"

definition name_server_rrs :: "zptr \<Rightarrow> rr list" where
  "name_server_rrs zone =
     map (\<lambda>ns. (ToFraments (GetDomainName zone), RdataNs (GetFdqn ns (Some zone)))) (zns (target zone))"

definition name_servers :: "env \<Rightarrow> zptr \<Rightarrow> zptr option list" where
  "name_servers env zone = map (\<lambda>ns. find_zone env (GetFdqn ns (Some zone))) (zns (target zone))"

definition authoritative_for :: "zptr \<Rightarrow> bool" where
  "authoritative_for zone = (case nearest_soa zone of None \<Rightarrow> False | Some z \<Rightarrow> zauthorative (target z))"

section \<open>The reply to a list of questions\<close>

text \<open>
  A failing question decides the outcome of the query; otherwise the three sections follow
  from the zones of the questions. Zones are collected in order, without repetition.
\<close>

definition add_zones :: "zptr option list \<Rightarrow> zptr list \<Rightarrow> zptr list" where
  "add_zones new zones = fold (\<lambda>z zs. AddZone zs z) new zones"

definition question_outcome :: "env \<Rightarrow> question_view \<Rightarrow> zptr res" where
  "question_outcome env q =
     (case resolve env (qv_labels q) of
        (None, is_authorative) \<Rightarrow> Inl (if is_authorative then UnknownSubDomain else UnknownDomain)
      | (Some zone, _) \<Rightarrow>
          if qv_type q = 6 \<and> nearest_soa zone = None then Inl NoSoaRecord else Inr zone)"

record sections =
  sec_answers :: "rr list"
  sec_authority :: "rr list"
  sec_additional :: "rr list"
  sec_authorative :: bool

definition sections_of :: "env \<Rightarrow> (question_view \<times> zptr) list \<Rightarrow> sections" where
  "sections_of env qzs =
     (let auth = add_zones (concat (map (\<lambda>(q, z). authority_of q z) qzs)) [];
          hosts = add_zones (concat (map (\<lambda>(q, z). mail_hosts env q z) qzs) @
                             concat (map (name_servers env) auth)) []
      in \<lparr>sec_answers = concat (map (\<lambda>(q, z). answer_rrs env q z) qzs),
          sec_authority = concat (map name_server_rrs auth),
          sec_additional = concat (map (\<lambda>z. a_rrs (ToFraments (GetDomainName z)) z) hosts),
          sec_authorative = list_all (\<lambda>(q, z). authoritative_for z) qzs\<rparr>)"

text \<open>What is left of the sections when only the first \<open>k\<close> records fit.\<close>

definition cut :: "nat \<Rightarrow> sections \<Rightarrow> sections" where
  "cut k s = s\<lparr>sec_answers := take k (sec_answers s),
     sec_authority := take (k - length (sec_answers s)) (sec_authority s),
     sec_additional := take (k - length (sec_answers s) - length (sec_authority s)) (sec_additional s)\<rparr>"

definition total :: "sections \<Rightarrow> nat" where
  "total s = length (sec_answers s) + length (sec_authority s) + length (sec_additional s)"

section \<open>Configurations whose names can be written\<close>

text \<open>A domain name of RFC 1035: labels of 1 to 63 bytes, 255 bytes in all on the wire.\<close>

definition valid_name :: "bytes \<Rightarrow> bool" where
  "valid_name name \<longleftrightarrow> name \<noteq> [] \<and> good_name name \<and> name_room name \<le> 255"

definition soa_names_valid :: "zptr \<Rightarrow> bool" where
  "soa_names_valid zone =
     (case zsoa (target zone) of
        None \<Rightarrow> True
      | Some s \<Rightarrow>
          (case zns (target zone) of
             [] \<Rightarrow> False
           | n # _ \<Rightarrow> valid_name (complete_name (ns_fqdn n) (zone_labels zone)) \<and>
                      valid_name (complete_name (soa_rname s) (zone_labels zone))))"

text \<open>
  Every name that the zone may have the server write is valid: its own, if name server records
  are written under it, those of its records, and those of the hosts its records name.
\<close>

definition host_valid :: "env \<Rightarrow> bytes \<Rightarrow> bool" where
  "host_valid env fqdn \<longleftrightarrow> valid_name fqdn \<and>
     (case find_zone env fqdn of
        None \<Rightarrow> True
      | Some z \<Rightarrow> za (target z) \<noteq> [] \<longrightarrow> valid_name (GetDomainName z))"

definition zone_valid :: "env \<Rightarrow> zptr \<Rightarrow> bool" where
  "zone_valid env zone \<longleftrightarrow>
     (zns (target zone) \<noteq> [] \<longrightarrow> valid_name (GetDomainName zone)) \<and>
     (zcname (target zone) \<noteq> [] \<longrightarrow> valid_name (full_cname zone)) \<and>
     list_all (\<lambda>mx. host_valid env (GetFdqn mx (Some zone))) (zmx (target zone)) \<and>
     list_all (\<lambda>ns. host_valid env (GetFdqn ns (Some zone))) (zns (target zone)) \<and>
     soa_names_valid zone"

text \<open>For every zone the search for its SOA record has to end.\<close>

definition config_valid :: "env \<Rightarrow> bool" where
  "config_valid env \<longleftrightarrow> (\<forall>zp. zp \<noteq> [] \<longrightarrow> on_path (env_zones env) zp \<longrightarrow> zone_valid env zp \<and> soa_near zp)"

end
