(* ===== verification/DnsSound.thy ===== *)
theory DnsSound
  imports DnsSpec
begin

text \<open>
  The DNS server of \<open>src/dnsd/DnsDaemon.cpp\<close> implements its specification: the reply decodes
  to the sections of \<open>DnsSpec\<close>, or to a front part of them with the truncation flag set.
\<close>

section \<open>Runs of records\<close>

fun chained :: "(nat \<Rightarrow> 'x \<Rightarrow> nat \<Rightarrow> bool) \<Rightarrow> nat \<Rightarrow> 'x list \<Rightarrow> nat \<Rightarrow> bool" where
  "chained R off [] e \<longleftrightarrow> off = e"
| "chained R off (x # xs) e \<longleftrightarrow> (\<exists>m. R off x m \<and> chained R m xs e)"

lemma chained_append:
  "chained R a (xs @ ys) c \<longleftrightarrow> (\<exists>b. chained R a xs b \<and> chained R b ys c)"
  by (induction xs arbitrary: a) auto

lemma chained_mono:
  assumes "chained R off xs e" "lo \<le> off"
    and "\<And>o1 x o2. lo \<le> o1 \<Longrightarrow> R o1 x o2 \<Longrightarrow> R' o1 x o2 \<and> o1 \<le> o2"
  shows "chained R' off xs e"
  using assms(1,2)
proof (induction xs arbitrary: off)
  case (Cons x xs)
  then obtain m where "R off x m" "chained R m xs e" by auto
  moreover from assms(3) [OF Cons.prems(2) this(1)] have "R' off x m" "lo \<le> m"
    using Cons.prems(2) by auto
  ultimately show ?case using Cons.IH by auto
qed simp

lemma chained_bound:
  assumes "chained R off xs e" "\<And>o1 x o2. R o1 x o2 \<Longrightarrow> o1 < o2"
  shows "off + length xs \<le> e"
  using assms(1) by (induction xs arbitrary: off) (force dest: assms(2))+

lemma chained_decode:
  assumes "chained R off xs e" "\<And>o1 x o2. R o1 x o2 \<Longrightarrow> dec buf o1 = Some (v x, o2)"
  shows "decode_many dec (length xs) buf off = Some (map v xs, e)"
  using assms(1) by (induction xs arbitrary: off) (force simp: assms(2))+

section \<open>Questions in the reply\<close>

definition qview :: "Question \<Rightarrow> question_view" where
  "qview q = \<lparr>qv_labels = q_labels q, qv_type = q_qtype q, qv_class = q_qclass q\<rparr>"

definition question_at :: "nat set \<Rightarrow> bytes \<Rightarrow> nat \<Rightarrow> Question \<Rightarrow> nat \<Rightarrow> bool" where
  "question_at P buf off q e \<longleftrightarrow>
     (\<exists>n. name_at P buf off (q_labels q) \<and> name_end buf off = Some n \<and> e = n + 4 \<and> e \<le> length buf \<and>
        segment buf n 4 = htons_bytes (q_qtype q) @ htons_bytes (q_qclass q) \<and>
        q_offset q = of_nat off)"

lemma question_at_decode: "question_at P buf off q e \<Longrightarrow> decode_question buf off = Some (qview q, e)"
  by (auto simp: question_at_def decode_question_def read_name_at qview_def htons_bytes_def)

lemma question_at_bound: "question_at P buf off q e \<Longrightarrow> off < e"
  by (auto simp: question_at_def dest: name_end_bound)

lemma rr_at_bound: "rr_at P buf off r e \<Longrightarrow> off < e"
  by (auto simp: rr_at_def dest: name_end_bound)

lemma question_at_grow:
  assumes "question_at P buf off q e" "P \<subseteq> Q"
  shows "question_at Q (buf @ ext) off q e"
proof -
  from assms(1) obtain n where n: "name_at P buf off (q_labels q)" "name_end buf off = Some n"
    "e = n + 4" "e \<le> length buf" "q_offset q = of_nat off"
    "segment buf n 4 = htons_bytes (q_qtype q) @ htons_bytes (q_qclass q)"
    by (auto simp: question_at_def)
  moreover have "name_at Q (buf @ ext) off (q_labels q)"
    using assms(2) by (intro name_at_agree [OF n(1)]) (auto simp: nth_append)
  ultimately show ?thesis by (auto simp: question_at_def intro: name_end_append)
qed

lemma question_at_drop:
  assumes "question_at P buf off q e" "drop off buf' = drop off buf" "length buf' = length buf"
    and "\<And>i. i \<in> P \<Longrightarrow> i < length buf \<Longrightarrow> buf' ! i = buf ! i"
  shows "question_at P buf' off q e"
proof -
  from assms(1) obtain n where n: "name_at P buf off (q_labels q)" "name_end buf off = Some n"
    "e = n + 4" "e \<le> length buf" "q_offset q = of_nat off"
    "segment buf n 4 = htons_bytes (q_qtype q) @ htons_bytes (q_qclass q)"
    by (auto simp: question_at_def)
  then have "off \<le> n" by (auto dest: name_end_bound)
  moreover have "name_at P buf' off (q_labels q)"
    using assms by (intro name_at_agree [OF n(1)]) auto
  ultimately show ?thesis
    using n assms segment_drop [OF assms(2), of n 4] name_end_drop [OF assms(2,3), of off]
    by (auto simp: question_at_def)
qed

lemma rr_at_grow: "rr_at P buf off r e \<Longrightarrow> P \<subseteq> Q \<Longrightarrow> rr_at Q (buf @ ext) off r e"
  by (rule rr_at_drop [OF rr_at_append]) auto

section \<open>The state between two records\<close>

type_synonym log = "(rr_section \<times> rr) list"

definition of_section :: "rr_section \<Rightarrow> log \<Rightarrow> rr list" where
  "of_section sec L = map snd (filter (\<lambda>x. fst x = sec) L)"

lemma of_section_append [simp]: "of_section sec (L @ M) = of_section sec L @ of_section sec M"
  by (simp add: of_section_def)

lemma of_section_Nil [simp]: "of_section sec [] = []"
  by (simp add: of_section_def)

definition counters_ok :: "Question list \<Rightarrow> log \<Rightarrow> reply \<Rightarrow> bool" where
  "counters_ok qs L s \<longleftrightarrow>
     rp_num_questions s = of_nat (length qs) \<and>
     rp_num_answers s = of_nat (length (of_section Answers L)) \<and>
     rp_num_ns s = of_nat (length (of_section Authority L)) \<and>
     rp_num_opt s = of_nat (length (of_section Additional L))"

definition laid :: "nat set \<Rightarrow> Question list \<Rightarrow> log \<Rightarrow> bytes \<Rightarrow> bool" where
  "laid P qs L buf \<longleftrightarrow>
     P \<subseteq> {header_size..<length buf} \<and> length buf \<le> max_reply_buffer \<and>
     (\<exists>base. chained (question_at P buf) header_size qs base \<and>
        chained (rr_at P buf) base (map snd L) (length buf))"

definition written :: "Question list \<Rightarrow> log \<Rightarrow> reply \<Rightarrow> bool" where
  "written qs L s \<longleftrightarrow> (\<exists>P. laid P qs L (rp_buffer s)) \<and> counters_ok qs L s"

definition sound :: "Question list \<Rightarrow> log \<Rightarrow> reply \<Rightarrow> bool" where
  "sound qs L s \<longleftrightarrow>
     (\<exists>P. laid P qs L (rp_buffer s) \<and> table_ok P (rp_buffer s) (rp_labels s)) \<and> counters_ok qs L s"

lemma sound_written: "sound qs L s \<Longrightarrow> written qs L s"
  by (auto simp: sound_def written_def)

lemma chained_member:
  "chained R off xs e \<Longrightarrow> x \<in> set xs \<Longrightarrow> \<exists>o1 o2. R o1 x o2"
  by (induction xs arbitrary: off) auto

lemma question_name:
  assumes "laid P qs L buf" "q \<in> set qs"
  shows "name_at P buf (ofs14 (q_offset q)) (q_labels q)"
proof -
  from assms obtain off e where q: "question_at P buf off q e"
    by (auto simp: laid_def dest: chained_member)
  then have "off < 2 ^ 14"
    using assms(1) by (auto simp: question_at_def laid_def max_reply_buffer_def dest!: name_at_bound)
  with q show ?thesis by (auto simp: question_at_def ofs14_of_nat)
qed

lemma laid_grow:
  assumes "laid P qs L buf" "extended P buf Q (buf @ ext)"
    and "rr_at Q (buf @ ext) (length buf) r (length (buf @ ext))"
    and "length (buf @ ext) \<le> max_reply_buffer"
  shows "laid Q qs (L @ [(sec, r)]) (buf @ ext)"
proof -
  from assms(1) obtain base where b: "chained (question_at P buf) header_size qs base"
    "chained (rr_at P buf) base (map snd L) (length buf)" by (auto simp: laid_def)
  have PQ: "P \<subseteq> Q" using assms(2) by (simp add: extended_def)
  have "chained (question_at Q (buf @ ext)) header_size qs base"
    using b(1) by (rule chained_mono [where lo = 0]) (auto intro: question_at_grow [OF _ PQ] dest: question_at_bound)
  moreover have "chained (rr_at Q (buf @ ext)) base (map snd L) (length buf)"
    using b(2) by (rule chained_mono [where lo = 0]) (auto intro: rr_at_grow [OF _ PQ] dest: rr_at_bound)
  moreover have "header_size + length qs \<le> base"
    by (rule chained_bound [OF b(1)]) (rule question_at_bound)
  moreover have "base + length (map snd L) \<le> length buf"
    by (rule chained_bound [OF b(2)]) (rule rr_at_bound)
  moreover from calculation have "Q \<subseteq> {header_size..<length (buf @ ext)}"
    using assms(1,2) by (force simp: laid_def extended_def subset_iff)
  ultimately show ?thesis
    using assms(3,4) by (auto simp: laid_def chained_append)
qed

lemma ofs_pointer_owner:
  "owner_is P buf (pointer_answer off t n) owner \<longleftrightarrow> name_at P buf (ofs14 off) owner"
proof -
  have "off OR 0xC000 OR 0xC000 = off OR (0xC000 :: u16)" by (simp add: or.assoc)
  moreover have "off OR 0xC000 \<noteq> (0 :: u16)"
  proof
    assume "off OR 0xC000 = 0"
    then have "\<not> bit (off OR 0xC000) 15" by simp
    then show False by (simp add: bit_simps)
  qed
  ultimately show ?thesis by (simp add: owner_is_def pointer_answer_def)
qed

section \<open>Operations that emit records\<close>

text \<open>
  What the specification says of an operation: from a sound state with the zones \<open>z\<close> it
  appends the records \<open>log\<close>, returns \<open>v\<close> and leaves the zones \<open>z'\<close>; or it throws
  \<open>Truncated\<close>, and then only some first records are there, but not all.
\<close>

type_synonym zones = "zptr list \<times> zptr list \<times> bool"

definition zones_of :: "reply \<Rightarrow> zones" where
  "zones_of s = (rp_authorative_zones s, rp_ns_zones s, rp_authorative s)"

definition emits :: "Question list \<Rightarrow> zones \<Rightarrow> log \<Rightarrow> zones \<Rightarrow> 'v \<Rightarrow> (reply, 'v) op \<Rightarrow> bool" where
  "emits qs z log z' v m \<longleftrightarrow> (\<forall>s L. sound qs L s \<longrightarrow> zones_of s = z \<longrightarrow>
     (case m s of
        (Inr x, s') \<Rightarrow> x = v \<and> sound qs (L @ log) s' \<and> zones_of s' = z'
      | (Inl x, s') \<Rightarrow> x = Truncated \<and> (\<exists>k < length log. written qs (L @ take k log) s')))"

named_theorems emits_intros \<open>operations that emit records\<close>

lemma emits_ret [emits_intros]: "emits qs z [] z v (op_ret v)"
  by (simp add: emits_def op_ret_def)

lemma emits_bind:
  assumes "emits qs z log1 z1 v1 m" "emits qs z1 log2 z2 v2 (f v1)"
  shows "emits qs z (log1 @ log2) z2 v2 (op_bind m f)"
  unfolding emits_def
proof (intro allI impI)
  fix s L
  assume s: "sound qs L s" "zones_of s = z"
  obtain r s1 where m: "m s = (r, s1)" by (cases "m s")
  show "case op_bind m f s of
      (Inr x, s') \<Rightarrow> x = v2 \<and> sound qs (L @ log1 @ log2) s' \<and> zones_of s' = z2
    | (Inl x, s') \<Rightarrow> x = Truncated \<and>
        (\<exists>k < length (log1 @ log2). written qs (L @ take k (log1 @ log2)) s')"
  proof (cases r)
    case (Inl x)
    with assms(1) s m obtain k where "x = Truncated" "k < length log1" "written qs (L @ take k log1) s1"
      by (fastforce simp: emits_def)
    with Inl m show ?thesis by (auto simp: op_bind_def intro!: exI [of _ k])
  next
    case (Inr x)
    with assms(1) s m have x: "x = v1" "sound qs (L @ log1) s1" "zones_of s1 = z1"
      by (fastforce simp: emits_def)+
    obtain r2 s2 where f: "f x s1 = (r2, s2)" by (cases "f x s1")
    show ?thesis
    proof (cases r2)
      case (Inl y)
      with assms(2) x f obtain k where
        "y = Truncated" "k < length log2" "written qs ((L @ log1) @ take k log2) s2"
        by (fastforce simp: emits_def)
      with Inl Inr m f show ?thesis
        by (auto simp: op_bind_def intro!: exI [of _ "length log1 + k"])
    next
      case Inr2: (Inr y)
      with assms(2) x f have "y = v2" "sound qs ((L @ log1) @ log2) s2" "zones_of s2 = z2"
        by (fastforce simp: emits_def)+
      with Inr2 Inr m f show ?thesis by (simp add: op_bind_def)
    qed
  qed
qed

lemma op_bind_upd: "op_bind (op_upd f) g s = g () (f s)"
  by (simp add: op_bind_def op_upd_def)

lemma op_for_Cons: "op_for (x # xs) f = op_bind (f x) (\<lambda>_. op_for xs f)"
  by (auto simp: op_bind_def fun_eq_iff split: sum.splits prod.splits)

lemma op_for_Nil: "op_for [] f = op_ret ()"
  by (simp add: op_ret_def fun_eq_iff)

lemma emits_for:
  assumes "\<And>x z. x \<in> set xs \<Longrightarrow> emits qs z (rec x) (step x z) () (f x)"
  shows "emits qs z (concat (map rec xs)) (fold step xs z) () (op_for xs f)"
  using assms
proof (induction xs arbitrary: z)
  case Nil
  then show ?case by (simp add: op_for_Nil emits_intros)
next
  case (Cons x xs)
  have "emits qs z (rec x @ concat (map rec xs)) (fold step xs (step x z)) ()
      (op_bind (f x) (\<lambda>_. op_for xs f))"
    by (rule emits_bind [of qs z "rec x" "step x z" "()"]) (use Cons in auto)
  then show ?case by (simp add: op_for_Cons)
qed

lemma emits_bind_ret:
  "emits qs z log z' v1 m \<Longrightarrow> emits qs z log z' v2 (op_bind m (\<lambda>_. op_ret v2))"
proof -
  assume m: "emits qs z log z' v1 m"
  have "emits qs z (log @ []) z' v2 (op_bind m (\<lambda>_. op_ret v2))"
    by (rule emits_bind [OF m]) (rule emits_ret)
  then show ?thesis by simp
qed

lemma emits_then:
  assumes "emits qs z log1 z1 v1 m" "emits qs z1 log2 z2 v2 n"
  shows "emits qs z (log1 @ log2) z2 v2 (op_bind m (\<lambda>_. n))"
  by (rule emits_bind [OF assms(1)]) (rule assms(2))

lemma emits_at:
  assumes "\<And>s. zones_of s = z \<Longrightarrow> g s = m" "emits qs z log z' v m"
  shows "emits qs z log z' v (\<lambda>s. g s s)"
  using assms by (simp add: emits_def)

lemma emits_upd:
  assumes "\<And>s. rp_buffer (f s) = rp_buffer s \<and> rp_labels (f s) = rp_labels s \<and>
      rp_num_questions (f s) = rp_num_questions s \<and> rp_num_answers (f s) = rp_num_answers s \<and>
      rp_num_ns (f s) = rp_num_ns s \<and> rp_num_opt (f s) = rp_num_opt s"
    and "\<And>s. zones_of s = z \<Longrightarrow> zones_of (f s) = z'"
  shows "emits qs z [] z' () (op_upd f)"
  using assms by (simp add: emits_def op_upd_def sound_def counters_ok_def)

lemma emits_add_authorative:
  "emits qs (az, nz, au) [] (AddZone az zone, nz, au) () (add_authorative zone)"
  unfolding add_authorative_def by (rule emits_upd) (auto simp: zones_of_def)

lemma emits_add_ns: "emits qs (az, nz, au) [] (az, AddZone nz zone, au) () (add_ns zone)"
  unfolding add_ns_def by (rule emits_upd) (auto simp: zones_of_def)

text \<open>The records that \<open>Store\<close> can write: owned by a valid name, or by a question's name.\<close>

definition storable :: "Question list \<Rightarrow> AnswerBase \<Rightarrow> bytes list \<Rightarrow> rdata \<Rightarrow> bool" where
  "storable qs a owner d \<longleftrightarrow> ab_for a d \<and> rdata_ok d \<and> rdata_room d \<le> 1000 \<and> owner_room a \<le> 255 \<and>
     (ab_name_ptr a = 0 \<and> ab_name a \<noteq> [] \<and> good_name (ab_name a) \<and> owner = ToFraments (ab_name a) \<or>
      (\<exists>q \<in> set qs. \<exists>t n. a = pointer_answer (q_offset q) t n \<and> owner = q_labels q))"

lemma storable_ready:
  assumes "storable qs a owner d" "laid P qs L buf" "table_ok P buf labels"
  shows "record_ready P buf labels a owner d"
proof -
  have "owner_is P buf a owner"
    using assms(1) question_name [OF assms(2)]
    by (auto simp: storable_def ofs_pointer_owner) (simp add: owner_is_def)
  moreover have "P \<subseteq> {..<length buf}" "length buf \<le> 512"
    using assms(2) by (auto simp: laid_def max_reply_buffer_def)
  ultimately show ?thesis
    using assms(1,3) by (auto simp: record_ready_def names_ok_def storable_def)
qed

lemma emits_Store:
  assumes "storable qs a owner d"
  shows "emits qs z [(sec, (owner, d))] z () (Store sec a d)"
  unfolding emits_def
proof (intro allI impI)
  fix s L
  assume s: "sound qs L s" "zones_of s = z"
  then obtain P where P: "laid P qs L (rp_buffer s)" "table_ok P (rp_buffer s) (rp_labels s)"
    and c: "counters_ok qs L s" by (auto simp: sound_def)
  from any_writer.write_record [OF storable_ready [OF assms P]] obtain a' ext labels Q where
    w: "Write a d (rp_buffer s) (rp_labels s) = Inr (a', rp_buffer s @ ext, labels)"
      "extended P (rp_buffer s) Q (rp_buffer s @ ext)" "names_ok Q (rp_buffer s @ ext) labels"
      "rr_at Q (rp_buffer s @ ext) (length (rp_buffer s)) (owner, d) (length (rp_buffer s @ ext))"
    unfolding record_written_def by (metis any_frame.write_frame)
  show "case Store sec a d s of
      (Inr x, s') \<Rightarrow> x = () \<and> sound qs (L @ [(sec, (owner, d))]) s' \<and> zones_of s' = z
    | (Inl x, s') \<Rightarrow> x = Truncated \<and>
        (\<exists>k < length [(sec, (owner, d))]. written qs (L @ take k [(sec, (owner, d))]) s')"
  proof (cases "max_reply_buffer < length (rp_buffer s @ ext)")
    case True
    with w(1) s any_frame.Revert_restores [OF w(1)] show ?thesis
      by (auto simp: Store_def Let_def written_def sound_def counters_ok_def)
  next
    case False
    with w laid_grow [OF P(1) w(2,4), of sec]
    have "laid Q qs (L @ [(sec, (owner, d))]) (rp_buffer s @ ext)" "table_ok Q (rp_buffer s @ ext) labels"
      by (auto simp: names_ok_def)
    with False w(1) s(2) c show ?thesis
      by (cases sec)
         (auto simp: Store_def Let_def sound_def counters_ok_def zones_of_def of_section_def)
  qed
qed

lemma storable_named:
  "valid_name name \<Longrightarrow> rdata_ok d \<Longrightarrow> rdata_room d \<le> 1000 \<Longrightarrow>
     storable qs (named_answer name (rdata_type d) (rdata_rdlength d)) (ToFraments name) d"
  by (simp add: storable_def named_answer_def ab_for_def valid_name_def owner_room_def)

lemma storable_pointer:
  "q \<in> set qs \<Longrightarrow> rdata_ok d \<Longrightarrow> rdata_room d \<le> 1000 \<Longrightarrow>
     storable qs (pointer_answer (q_offset q) (rdata_type d) (rdata_rdlength d)) (q_labels q) d"
  by (auto simp: storable_def pointer_answer_def ab_for_def owner_room_def)

text \<open>A named or a pointed-to owner, with the data's type and length written out.\<close>

lemma emits_named:
  "valid_name name \<Longrightarrow> rdata_ok d \<Longrightarrow> rdata_room d \<le> 1000 \<Longrightarrow>
     t = rdata_type d \<Longrightarrow> n = rdata_rdlength d \<Longrightarrow>
     emits qs z [(sec, (ToFraments name, d))] z () (Store sec (named_answer name t n) d)"
  by (simp add: emits_Store storable_named)

lemma emits_pointer:
  "q \<in> set qs \<Longrightarrow> rdata_ok d \<Longrightarrow> rdata_room d \<le> 1000 \<Longrightarrow>
     t = rdata_type d \<Longrightarrow> n = rdata_rdlength d \<Longrightarrow>
     emits qs z [(sec, (q_labels q, d))] z () (Store sec (pointer_answer (q_offset q) t n) d)"
  by (simp add: emits_Store storable_pointer)

lemma emits_for_same:
  assumes "\<And>x. x \<in> set xs \<Longrightarrow> emits qs z [(sec, rec x)] z () (f x)"
  shows "emits qs z (map (\<lambda>x. (sec, rec x)) xs) z () (op_for xs f)"
  using assms
proof (induction xs)
  case Nil
  then show ?case by (simp add: op_for_Nil emits_intros)
next
  case (Cons x xs)
  have "emits qs z ([(sec, rec x)] @ map (\<lambda>x. (sec, rec x)) xs) z () (op_bind (f x) (\<lambda>_. op_for xs f))"
    by (rule emits_bind) (use Cons in auto)
  then show ?case by (simp add: op_for_Cons)
qed

lemma add_zones_simps [simp]:
  "add_zones [] zs = zs" "add_zones (n # ns) zs = add_zones ns (AddZone zs n)"
  "add_zones (ms @ ns) zs = add_zones ns (add_zones ms zs)"
  by (simp_all add: add_zones_def)

text \<open>A loop that stores one record in each round and then notes a host.\<close>

lemma emits_for_hosts:
  assumes "\<And>x z. x \<in> set xs \<Longrightarrow> emits qs z [(sec, rec x)] z () (f x)"
  shows "emits qs (az, nz, au) (map (\<lambda>x. (sec, rec x)) xs) (az, add_zones (map g xs) nz, au) ()
    (op_for xs (\<lambda>x. op_bind (f x) (\<lambda>_. add_ns (g x))))"
  using assms
proof (induction xs arbitrary: nz)
  case Nil
  then show ?case by (simp add: op_for_Nil emits_intros)
next
  case (Cons x xs)
  let ?body = "\<lambda>x. op_bind (f x) (\<lambda>_. add_ns (g x))"
  have "emits qs (az, nz, au) ([(sec, rec x)] @ []) (az, AddZone nz (g x), au) () (?body x)"
    by (rule emits_bind [OF _ emits_add_ns]) (use Cons in auto)
  moreover have "emits qs (az, AddZone nz (g x), au) (map (\<lambda>x. (sec, rec x)) xs)
      (az, add_zones (map g xs) (AddZone nz (g x)), au) () (op_for xs ?body)"
    by (rule Cons.IH) (use Cons in auto)
  ultimately have "emits qs (az, nz, au) (([(sec, rec x)] @ []) @ map (\<lambda>x. (sec, rec x)) xs)
      (az, add_zones (map g xs) (AddZone nz (g x)), au) () (op_bind (?body x) (\<lambda>_. op_for xs ?body))"
    by (rule emits_bind)
  then show ?case by (simp add: op_for_Cons)
qed

section \<open>The operations of the server\<close>

lemma emits_StoreCname:
  assumes "q \<in> set qs" "valid_name (full_cname zone)"
  shows "emits qs z [(Answers, (q_labels q, RdataCname (full_cname zone)))] z (full_cname zone)
    (StoreCname zone q)"
  unfolding StoreCname_def
  by (rule emits_bind_ret, rule emits_pointer) (use assms in \<open>simp_all add: valid_name_def\<close>)

lemma emits_StoreA:
  assumes "q \<in> set qs" "zone_valid env zone" "q_qtype q = 1 \<or> q_qtype q = 255"
  shows "emits qs z (map (Pair Answers) (answer_rrs env (qview q) zone)) z () (StoreA env zone q)"
proof (cases "zcname (target zone) = []")
  case True
  have "emits qs z (map (\<lambda>ip. (Answers, (q_labels q, RdataA ip))) (za (target zone))) z () (StoreA env zone q)"
    unfolding StoreA_def using True assms(1)
    by (auto intro!: emits_for_same emits_pointer)
  then show ?thesis
    using True assms(3) by (auto simp: answer_rrs_def a_rrs_def qview_def comp_def)
next
  case False
  with assms(2) have v: "valid_name (full_cname zone)" by (simp add: zone_valid_def)
  note cname = emits_StoreCname [OF assms(1) v, of z]
  let ?c = "[(Answers, (q_labels q, RdataCname (full_cname zone)))]"
  show ?thesis
  proof (cases "q_qtype q = 1")
    case False
    then have "emits qs z ?c z () (StoreA env zone q)"
      unfolding StoreA_def using \<open>zcname (target zone) \<noteq> []\<close>
      by (simp add: emits_bind_ret [OF cname])
    with \<open>zcname (target zone) \<noteq> []\<close> False assms(3) show ?thesis
      by (auto simp: answer_rrs_def cname_rrs_def qview_def)
  next
    case True
    let ?rrs = "case find_zone env (full_cname zone) of None \<Rightarrow> []
      | Some t \<Rightarrow> a_rrs (ToFraments (full_cname zone)) t"
    have "emits qs z (?c @ map (Pair Answers) ?rrs) z () (StoreA env zone q)"
    proof (cases "find_zone env (full_cname zone)")
      case None
      with True \<open>zcname (target zone) \<noteq> []\<close> show ?thesis
        unfolding StoreA_def using emits_bind [OF cname, of "[]" z "()"]
        by (simp add: emits_ret)
    next
      case (Some t)
      let ?a = "map (\<lambda>ip. (Answers, (ToFraments (full_cname zone), RdataA ip))) (za (target t))"
      have "emits qs z ?a z ()
          (op_for (za (target t)) (\<lambda>ip. Store Answers (named_answer (full_cname zone) 1 4) (RdataA ip)))"
        using v by (auto intro!: emits_for_same emits_named)
      with emits_bind [OF cname, of ?a z "()"] have "emits qs z (?c @ ?a) z () (StoreA env zone q)"
        unfolding StoreA_def using True \<open>zcname (target zone) \<noteq> []\<close> Some by simp
      with Some show ?thesis by (simp add: a_rrs_def comp_def)
    qed
    with True \<open>zcname (target zone) \<noteq> []\<close> show ?thesis
      by (simp add: answer_rrs_def cname_rrs_def qview_def Let_def)
  qed
qed

lemma emits_StoreMx:
  assumes "q \<in> set qs" "zone_valid env zone" "q_qtype q = 15"
  shows "emits qs (az, nz, au) (map (Pair Answers) (answer_rrs env (qview q) zone))
    (az, add_zones (mail_hosts env (qview q) zone) nz, au) () (StoreMx env zone q)"
proof -
  have "emits qs (az, nz, au)
      (map (\<lambda>mx. (Answers, (q_labels q, RdataMx (GetFdqn mx (Some zone)) (mx_priority mx)))) (zmx (target zone)))
      (az, add_zones (map (\<lambda>mx. find_zone env (GetFdqn mx (Some zone))) (zmx (target zone))) nz, au) ()
      (StoreMx env zone q)"
    unfolding StoreMx_def Let_def using assms
    by (intro emits_for_hosts emits_pointer)
       (auto simp: zone_valid_def host_valid_def valid_name_def list_all_iff)
  with assms(3) show ?thesis
    by (simp add: answer_rrs_def mail_hosts_def qview_def comp_def)
qed

lemma AddZone_None [simp]: "AddZone zs None = zs"
  by (simp add: AddZone_def)

lemma set_add_zones: "set (add_zones ns zs) = set zs \<union> {z. Some z \<in> set ns}"
  by (induction ns arbitrary: zs) (auto simp: AddZone_def split: option.splits)

lemma soa_rdata_ok:
  assumes "zone_valid env sz" "zsoa (target sz) \<noteq> None"
  shows "rdata_ok (RdataSoa sz) \<and> rdata_room (RdataSoa sz) \<le> 1000"
  using assms
  by (auto simp: zone_valid_def soa_names_valid_def valid_name_def split: option.splits list.splits)

lemma emits_StoreByType:
  assumes "q \<in> set qs" "zone_valid env zone"
    and "\<And>sz. nearest_soa zone = Some sz \<Longrightarrow> zone_valid env sz \<and> zsoa (target sz) \<noteq> None"
    and "q_qtype q = 6 \<Longrightarrow> nearest_soa zone \<noteq> None"
  shows "emits qs (az, nz, au) (map (Pair Answers) (answer_rrs env (qview q) zone))
    (add_zones (if q_qtype q \<in> {2, 6} then [nearest_soa zone] else []) az,
     add_zones (mail_hosts env (qview q) zone) nz, au) ()
    (StoreByType env zone (nearest_soa zone) q)"
proof -
  consider "q_qtype q = 1 \<or> q_qtype q = 255" | "q_qtype q = 15" | "q_qtype q = 5" | "q_qtype q = 2"
    | "q_qtype q = 6" | "q_qtype q \<notin> {1, 255, 15, 5, 2, 6}" by blast
  then show ?thesis
  proof cases
    case 1
    with emits_StoreA [OF assms(1,2) 1, of "(az, nz, au)"] show ?thesis
      by (auto simp: StoreByType_def mail_hosts_def qview_def)
  next
    case 2
    with emits_StoreMx [OF assms(1,2) 2, of az nz au] show ?thesis
      by (simp add: StoreByType_def)
  next
    case 3
    show ?thesis
    proof (cases "zcname (target zone) = []")
      case True
      with 3 show ?thesis
        by (simp add: StoreByType_def answer_rrs_def cname_rrs_def qview_def mail_hosts_def emits_ret)
    next
      case False
      with assms(2) have "valid_name (full_cname zone)" by (simp add: zone_valid_def)
      from emits_bind_ret [OF emits_StoreCname [OF assms(1) this]] False 3 show ?thesis
        by (simp add: StoreByType_def answer_rrs_def cname_rrs_def qview_def mail_hosts_def)
    qed
  next
    case 4
    then show ?thesis
      by (simp add: StoreByType_def answer_rrs_def qview_def mail_hosts_def emits_add_authorative)
  next
    case 5
    with assms(4) obtain sz where sz: "nearest_soa zone = Some sz" by blast
    with assms(3) soa_rdata_ok have ok: "rdata_ok (RdataSoa sz)" "rdata_room (RdataSoa sz) \<le> 1000"
      by blast+
    have "emits qs (az, nz, au) ([(Answers, (q_labels q, RdataSoa sz))] @ []) (AddZone az (Some sz), nz, au) ()
      (op_bind (Store Answers (pointer_answer (q_offset q) 6 0) (RdataSoa sz)) (\<lambda>_. add_authorative (Some sz)))"
      by (rule emits_bind [OF emits_pointer emits_add_authorative])
         (use assms(1) ok in \<open>simp_all del: rdata_ok.simps rdata_room.simps\<close>)
    with 5 sz show ?thesis
      by (simp add: StoreByType_def answer_rrs_def qview_def mail_hosts_def)
  next
    case 6
    then show ?thesis
      by (simp add: StoreByType_def answer_rrs_def qview_def mail_hosts_def emits_ret)
  qed
qed

definition zone_ready :: "env \<Rightarrow> zptr \<Rightarrow> bool" where
  "zone_ready env zone \<longleftrightarrow> zone_valid env zone \<and> soa_near zone \<and>
     (\<forall>sz. nearest_soa zone = Some sz \<longrightarrow> zone_valid env sz \<and> zsoa (target sz) \<noteq> None)"

lemma resolve_on_path:
  assumes "resolve env labels = (Some zp, a)"
  shows "on_path (env_zones env) zp \<and> zp \<noteq> []"
proof -
  from assms have l: "Lookup_from (env_ieq env) (rev labels) (env_zones env) [] False = (Some zp, a)"
    by (simp add: resolve_def Lookup_def)
  from Lookup_from_sound [OF l, of "env_zones env" "[]"]
  have path: "on_path (env_zones env) zp" "best_path (env_ieq env) (env_zones env) labels zp" by simp_all
  moreover have "labels \<noteq> []" using l by (cases labels) auto
  ultimately show ?thesis by (cases labels; cases zp) auto
qed

lemma emits_ProcessQuestion:
  assumes "q \<in> set qs" "zone_ready env zone" "question_outcome env (qview q) = Inr zone"
  shows "emits qs (az, nz, au) (map (Pair Answers) (answer_rrs env (qview q) zone))
    (add_zones (authority_of (qview q) zone) az, add_zones (mail_hosts env (qview q) zone) nz,
     au \<and> authoritative_for zone) () (ProcessQuestion env q)"
proof -
  let ?soa = "nearest_soa zone"
  let ?flag = "op_upd (\<lambda>s. if authoritative_for zone then s else s\<lparr>rp_authorative := False\<rparr>)"
  let ?last = "if q_qtype q = 255 then add_authorative ?soa else op_ret ()"
  let ?az = "add_zones (if q_qtype q \<in> {2, 6} then [?soa] else []) az"
  let ?nz = "add_zones (mail_hosts env (qview q) zone) nz"
  let ?au = "au \<and> authoritative_for zone"
  from assms(3) obtain b where l: "Lookup (env_ieq env) (env_zones env) (q_labels q) False = (Some zone, b)"
      and soa: "q_qtype q = 6 \<Longrightarrow> ?soa \<noteq> None"
    by (auto simp: question_outcome_def resolve_def qview_def split: prod.splits option.splits if_splits)
  from l have "zone \<noteq> []" using resolve_on_path by (simp add: resolve_def)
  with assms(2) have found: "GetSoaZone zone = Some ?soa" by (simp add: GetSoaZone_finds zone_ready_def)
  have flag: "emits qs (az, nz, au) [] (az, nz, ?au) () ?flag"
    by (rule emits_upd) (auto simp: zones_of_def)
  have body: "emits qs (az, nz, ?au) (map (Pair Answers) (answer_rrs env (qview q) zone))
      (?az, ?nz, ?au) () (StoreByType env zone ?soa q)"
    using assms(1,2) soa by (intro emits_StoreByType) (auto simp: zone_ready_def)
  have last: "emits qs (?az, ?nz, ?au) [] (add_zones (authority_of (qview q) zone) az, ?nz, ?au) () ?last"
    using emits_add_authorative by (auto simp: authority_of_def qview_def emits_ret)
  have eq: "ProcessQuestion env q = op_bind ?flag (\<lambda>_. op_bind (StoreByType env zone ?soa q) (\<lambda>_. ?last))"
    by (rule ext) (simp add: ProcessQuestion_def l found op_bind_upd authoritative_for_def Let_def
        split: option.splits)
  show ?thesis
    unfolding eq using emits_then [OF flag emits_then [OF body last]] by simp
qed

lemma emits_ProcessNsAuthZone:
  assumes "zone_valid env zone"
  shows "emits qs (az, nz, au) (map (Pair Authority) (name_server_rrs zone))
    (az, add_zones (name_servers env zone) nz, au) () (ProcessNsAuthZone env zone)"
proof -
  have "emits qs (az, nz, au)
      (map (\<lambda>ns. (Authority, (ToFraments (GetDomainName zone), RdataNs (GetFdqn ns (Some zone))))) (zns (target zone)))
      (az, add_zones (map (\<lambda>ns. find_zone env (GetFdqn ns (Some zone))) (zns (target zone))) nz, au) ()
      (ProcessNsAuthZone env zone)"
    unfolding ProcessNsAuthZone_def Let_def using assms
    by (intro emits_for_hosts emits_named)
       (auto simp: zone_valid_def host_valid_def valid_name_def list_all_iff)
  then show ?thesis by (simp add: name_server_rrs_def name_servers_def comp_def)
qed

lemma emits_ProcessNsZone:
  assumes "za (target zone) \<noteq> [] \<Longrightarrow> valid_name (GetDomainName zone)"
  shows "emits qs z (map (Pair Additional) (a_rrs (ToFraments (GetDomainName zone)) zone)) z ()
    (ProcessNsZone zone)"
proof -
  have "emits qs z (map (\<lambda>ip. (Additional, (ToFraments (GetDomainName zone), RdataA ip))) (za (target zone)))
      z () (ProcessNsZone zone)"
    unfolding ProcessNsZone_def
    by (intro emits_for_same emits_named) (use assms in \<open>force+\<close>)
  then show ?thesis by (simp add: a_rrs_def comp_def)
qed

text \<open>The three loops, one section each.\<close>

definition zone_list :: "(question_view \<times> zptr) list \<Rightarrow> zptr list \<Rightarrow> zptr list" where
  "zone_list qzs az = add_zones (concat (map (\<lambda>(q, z). authority_of q z) qzs)) az"

lemma emits_questions:
  assumes "set questions \<subseteq> set qs"
    and "\<And>q. q \<in> set questions \<Longrightarrow> zone_ready env (f q) \<and> question_outcome env (qview q) = Inr (f q)"
  shows "emits qs (az, nz, au)
    (map (Pair Answers) (concat (map (\<lambda>q. answer_rrs env (qview q) (f q)) questions)))
    (add_zones (concat (map (\<lambda>q. authority_of (qview q) (f q)) questions)) az,
     add_zones (concat (map (\<lambda>q. mail_hosts env (qview q) (f q)) questions)) nz,
     au \<and> list_all (\<lambda>q. authoritative_for (f q)) questions) ()
    (op_for questions (ProcessQuestion env))"
  using assms
proof (induction questions arbitrary: az nz au)
  case Nil
  then show ?case by (simp add: op_for_Nil emits_ret)
next
  case (Cons q questions)
  have "emits qs (az, nz, au) (map (Pair Answers) (answer_rrs env (qview q) (f q)))
      (add_zones (authority_of (qview q) (f q)) az, add_zones (mail_hosts env (qview q) (f q)) nz,
       au \<and> authoritative_for (f q)) () (ProcessQuestion env q)"
    using Cons.prems by (intro emits_ProcessQuestion) auto
  from emits_then [OF this Cons.IH] Cons.prems show ?case
    by (simp add: op_for_Cons conj_assoc)
qed

lemma emits_authority:
  assumes "\<And>z. z \<in> set zones \<Longrightarrow> zone_valid env z"
  shows "emits qs (az, nz, au) (map (Pair Authority) (concat (map name_server_rrs zones)))
    (az, add_zones (concat (map (name_servers env) zones)) nz, au) ()
    (op_for zones (ProcessNsAuthZone env))"
  using assms
proof (induction zones arbitrary: nz)
  case Nil
  then show ?case by (simp add: op_for_Nil emits_ret)
next
  case (Cons z zones)
  from emits_then [OF emits_ProcessNsAuthZone Cons.IH] Cons.prems show ?case
    by (simp add: op_for_Cons)
qed

lemma emits_additional:
  assumes "\<And>z. z \<in> set zones \<Longrightarrow> za (target z) \<noteq> [] \<Longrightarrow> valid_name (GetDomainName z)"
  shows "emits qs zs (map (Pair Additional)
      (concat (map (\<lambda>z. a_rrs (ToFraments (GetDomainName z)) z) zones))) zs ()
    (op_for zones ProcessNsZone)"
  using assms
proof (induction zones)
  case Nil
  then show ?case by (simp add: op_for_Nil emits_ret)
next
  case (Cons z zones)
  from emits_then [OF emits_ProcessNsZone Cons.IH] Cons.prems show ?case
    by (simp add: op_for_Cons)
qed

definition log_of :: "sections \<Rightarrow> log" where
  "log_of s = map (Pair Answers) (sec_answers s) @ map (Pair Authority) (sec_authority s) @
     map (Pair Additional) (sec_additional s)"

lemma host_ready:
  assumes "zone_valid env zone" "Some z \<in> set (name_servers env zone) \<union> set (mail_hosts env q zone)"
    and "za (target z) \<noteq> []"
  shows "valid_name (GetDomainName z)"
proof -
  have ok: "\<forall>mx \<in> set (zmx (target zone)). host_valid env (GetFdqn mx (Some zone))"
      "\<forall>ns \<in> set (zns (target zone)). host_valid env (GetFdqn ns (Some zone))"
    using assms(1) by (auto simp: zone_valid_def list_all_iff)
  from assms(2) consider ns where "ns \<in> set (zns (target zone))" "find_zone env (GetFdqn ns (Some zone)) = Some z"
    | mx where "mx \<in> set (zmx (target zone))" "find_zone env (GetFdqn mx (Some zone)) = Some z"
    by (fastforce simp: name_servers_def mail_hosts_def split: if_splits)
  then obtain fqdn where "find_zone env fqdn = Some z" "host_valid env fqdn"
    using ok by cases auto
  with assms(3) show ?thesis by (simp add: host_valid_def)
qed

lemma emits_answer_questions:
  assumes "\<And>q. q \<in> set qs \<Longrightarrow> zone_ready env (f q) \<and> question_outcome env (qview q) = Inr (f q)"
  shows "\<exists>z'. emits qs ([], [], True) (log_of (sections_of env (map (\<lambda>q. (qview q, f q)) qs))) z' ()
      (answer_questions env qs) \<and>
    snd (snd z') = sec_authorative (sections_of env (map (\<lambda>q. (qview q, f q)) qs))"
proof -
  let ?auth = "add_zones (concat (map (\<lambda>q. authority_of (qview q) (f q)) qs)) []"
  let ?mail = "add_zones (concat (map (\<lambda>q. mail_hosts env (qview q) (f q)) qs)) []"
  let ?hosts = "add_zones (concat (map (name_servers env) ?auth)) ?mail"
  let ?aa = "list_all (\<lambda>q. authoritative_for (f q)) qs"
  have auth: "zone_valid env z" if "z \<in> set ?auth" for z
    using that assms by (auto simp: set_add_zones authority_of_def zone_ready_def split: if_splits)
  have hosts: "valid_name (GetDomainName z)" if "z \<in> set ?hosts" "za (target z) \<noteq> []" for z
  proof -
    from that(1) consider z' where "z' \<in> set ?auth" "Some z \<in> set (name_servers env z')"
      | q where "q \<in> set qs" "Some z \<in> set (mail_hosts env (qview q) (f q))"
      by (auto simp: set_add_zones [of _ ?mail] set_add_zones [of _ "[]"])
    then show ?thesis
      using auth assms that(2) by cases (auto intro: host_ready simp: zone_ready_def)
  qed
  have 1: "emits qs ([], [], True)
      (map (Pair Answers) (concat (map (\<lambda>q. answer_rrs env (qview q) (f q)) qs)))
      (?auth, ?mail, ?aa) () (op_for qs (ProcessQuestion env))"
    using emits_questions [of qs qs env f "[]" "[]" True] assms by simp
  have 2: "emits qs (?auth, ?mail, ?aa) (map (Pair Authority) (concat (map name_server_rrs ?auth)))
      (?auth, ?hosts, ?aa) () (\<lambda>s. op_for (rp_authorative_zones s) (ProcessNsAuthZone env) s)"
    by (rule emits_at [OF _ emits_authority]) (auto simp: zones_of_def auth)
  have 3: "emits qs (?auth, ?hosts, ?aa)
      (map (Pair Additional) (concat (map (\<lambda>z. a_rrs (ToFraments (GetDomainName z)) z) ?hosts)))
      (?auth, ?hosts, ?aa) () (\<lambda>s. op_for (rp_ns_zones s) ProcessNsZone s)"
    by (rule emits_at [OF _ emits_additional]) (auto simp: zones_of_def hosts)
  show ?thesis
    using emits_then [OF 1 emits_then [OF 2 3]]
    by (intro exI [of _ "(?auth, ?hosts, ?aa)"])
       (simp add: answer_questions_def log_of_def sections_of_def Let_def comp_def list_all_iff)
qed

section \<open>Reading the questions\<close>

lemma name_end_wire:
  assumes "wire_at buf off fs" "\<forall>f \<in> set fs. label_size_ok f"
  shows "name_end buf off = Some (off + length (wire_name fs))"
  using assms
proof (induction fs arbitrary: off)
  case Nil
  then show ?case by (subst name_end.simps) simp
next
  case (Cons f fs)
  then have "name_end buf (off + 1 + length f) = Some (off + 1 + length f + length (wire_name fs))"
    by (intro Cons.IH) auto
  with Cons.prems show ?case
    by (subst name_end.simps) (auto simp: label_size_ok_def unat_of_label_length Let_def)
qed

lemma wire_at_move:
  assumes "wire_at mem p fs" "segment mem p (length (wire_name fs)) = segment mem' p' (length (wire_name fs))"
    and "p' + length (wire_name fs) \<le> length mem'"
  shows "wire_at mem' p' fs"
  using assms by (simp add: wire_at_def)

text \<open>A question as the query has it: an uncompressed name, its type and its class.\<close>

definition asked :: "bytes \<Rightarrow> nat \<Rightarrow> Question \<Rightarrow> bool" where
  "asked mem p q \<longleftrightarrow> wire_at mem p (q_labels q) \<and> (\<forall>f \<in> set (q_labels q). label_size_ok f) \<and>
     q_size q = length (wire_name (q_labels q)) + 4 \<and> p + q_size q \<le> length mem \<and>
     segment mem (p + length (wire_name (q_labels q))) 4 =
       htons_bytes (q_qtype q) @ htons_bytes (q_qclass q)"

lemma asked_segment:
  "asked mem p q \<Longrightarrow> segment mem p (q_size q) =
     wire_name (q_labels q) @ htons_bytes (q_qtype q) @ htons_bytes (q_qclass q)"
  by (simp add: asked_def segment_add wire_at_def)

lemma question_at_asked:
  assumes "asked mem p q" "q_offset q = of_nat p" "{p..<p + q_size q} \<subseteq> P"
  shows "question_at P mem p q (p + q_size q)"
  using assms unfolding question_at_def asked_def
  by (auto simp: name_end_wire intro!: name_at_wire exI [of _ "p + length (wire_name (q_labels q))"])

lemma asked_decode:
  assumes "asked mem p q"
  shows "decode_question mem p = Some (qview q, p + q_size q)"
proof -
  have "question_at UNIV mem p (q\<lparr>q_offset := of_nat p\<rparr>) (p + q_size q)"
    using question_at_asked [of mem p "q\<lparr>q_offset := of_nat p\<rparr>" UNIV] assms by (simp add: asked_def)
  from question_at_decode [OF this] show ?thesis by (simp add: qview_def)
qed

lemma segment_four:
  assumes "i + 4 \<le> length mem"
  shows "segment mem i 4 = [mem ! i, mem ! (i + 1), mem ! (i + 2), mem ! (i + 3)]"
  using assms by (simp add: segment_def numeral_eq_Suc take_Suc_conv_app_nth)

lemma two_words:
  assumes "u16_at mem i = Inr t" "u16_at mem (i + 2) = Inr c"
  shows "segment mem i 4 = htons_bytes t @ htons_bytes c" "i + 4 \<le> length mem"
  using assms by (auto simp: u16_at_def segment_four htons_ntohs numeral_3_eq_3 split: if_splits)

lemma parse_question_accepted:
  assumes "parse_question e ok mem p sz known off = Inr (q, known')"
    and "known_on mem p known" "known_within (p + sz) known"
  shows "asked mem p q \<and> q_offset q = off \<and> q_size q \<le> sz \<and> known_on mem p known' \<and>
    known_within (p + sz) known'"
proof -
  let ?s = "\<lparr>lh_known = known, lh_names = [], lh_size = 0, lh_buffer_size = 0\<rparr>"
  from assms(1) obtain lh where lh: "LabelHeader e ok mem p sz known = Inr lh"
    by (auto simp: parse_question_def)
  then have "label_loop e ok mem (p + sz) p False ?s = Inr lh"
    by (simp add: LabelHeader_def split: if_splits)
  from label_loop_only [OF this, of p] assms(2) obtain fs where
    fs: "wire_at mem p fs" "acceptable ok fs" "lh = advance ?s p fs"
    by (auto simp: chain.chain_refl)
  let ?n = "p + length (wire_name fs)"
  from assms(1) lh fs(3) have q: "?n + 4 \<le> p + sz" "q_labels q = map (ref_bytes mem) (refs_at p fs)"
      "q_size q = length (wire_name fs) + 4" "q_offset q = off" "known' = known @ refs_at p fs"
      "u16_at mem ?n = Inr (q_qtype q)" "u16_at mem (?n + 2) = Inr (q_qclass q)"
    by (auto simp: parse_question_def advance_def Let_def split: if_splits)
  have sizes: "\<forall>f \<in> set fs. label_size_ok f" using fs(2) by (auto simp: acceptable_def)
  note two_words [OF q(6,7)]
  moreover have "q_labels q = fs" using q(2) map_ref_bytes_refs_at [OF fs(1)] by simp
  moreover have "known_within (p + sz) (refs_at p fs)"
  proof -
    have "\<forall>r \<in> set (refs_at p' gs). ref_end r \<le> p' + length (wire_name gs)" for p' and gs :: "bytes list"
      by (induction gs arbitrary: p') (fastforce simp: ref_end_def length_wire_name)+
    with q(1) show ?thesis unfolding known_within_def by fastforce
  qed
  ultimately show ?thesis
    using fs(1,2) q sizes assms(2,3) known_on_accepted [OF assms(2) fs(1,2)]
    by (auto simp: asked_def known_within_def)
qed

lemma parse_question_error:
  assumes "parse_question e ok mem p sz known off = Inl x"
    and "p + sz < length mem" "known_within (p + sz) known"
  shows "x \<noteq> UndefinedBehaviour"
proof
  assume "x = UndefinedBehaviour"
  moreover have "LabelHeader e ok mem p sz known \<noteq> Inl UndefinedBehaviour"
    using label_loop_defined [of p "p + sz" mem] assms(2,3) by (simp add: LabelHeader_def)
  ultimately show False
    using assms by (auto simp: parse_question_def rbind_eq_Inl u16_at_def Let_def split: if_splits)
qed

lemma label_loop_kinds:
  "label_loop e ok mem limit p trav s = Inl x \<Longrightarrow> x \<notin> {UnknownDomain, Truncated}"
proof (induction e ok mem limit p trav s rule: label_loop.induct)
  case (1 e ok mem limit p trav s)
  have r: "root_round trav s = Inl x \<Longrightarrow> x \<notin> {UnknownDomain, Truncated}"
    by (auto simp: root_round_def ValidateSize_def rbind_eq_Inl Let_def split: if_splits)
  have l: "label_round ok mem limit n p trav s = Inl x \<Longrightarrow> x \<notin> {UnknownDomain, Truncated}" for n
    by (auto simp: label_round_def ValidateSize_def rbind_eq_Inl Let_def split: if_splits)
  have f: "FindPointer key known = Inl y \<Longrightarrow> y = IllegalPointereException" for key known y
    by (induction known) (auto split: if_splits)
  have pt: "pointer_round e mem limit p trav s = Inl x \<Longrightarrow> x \<notin> {UnknownDomain, Truncated}"
    by (auto simp: pointer_round_def ValidateSize_def rbind_eq_Inl read_byte_def Let_def
        split: if_splits dest!: f)
  from "1.prems" r l pt show ?case
    by (subst (asm) label_loop.simps)
       (auto simp: Let_def split: if_splits sum.splits prod.splits dest: "1.IH")
qed

lemma parse_question_kinds:
  "parse_question e ok mem p sz known off = Inl x \<Longrightarrow> x \<notin> {UnknownDomain, Truncated}"
  using label_loop_kinds
  by (fastforce simp: parse_question_def LabelHeader_def rbind_eq_Inl u16_at_def Let_def split: if_splits)

text \<open>The reply while the questions are copied: no label is known yet, no record is there.\<close>

definition copying :: "Question list \<Rightarrow> reply \<Rightarrow> bool" where
  "copying qs s \<longleftrightarrow> (\<exists>P. laid P qs [] (rp_buffer s)) \<and> counters_ok qs [] s \<and> rp_labels s = [] \<and>
     zones_of s = ([], [], True)"

lemma copying_sound: "copying qs s \<Longrightarrow> sound qs [] s"
  by (auto simp: copying_def sound_def table_ok_def)

lemma copying_start: "copying [] (new_reply (resize header_size buffer))"
  by (auto simp: copying_def new_reply_def laid_def counters_ok_def zones_of_def header_size_def
      max_reply_buffer_def)

lemma copying_step:
  assumes "copying qs s" "asked query p q" "q_offset q = of_nat (length (rp_buffer s))"
    and "length (rp_buffer s) + q_size q \<le> max_reply_buffer"
  shows "copying (qs @ [q]) (s\<lparr>rp_buffer := rp_buffer s @ segment query p (q_size q),
      rp_num_questions := rp_num_questions s + 1\<rparr>)"
proof -
  let ?buf = "rp_buffer s" and ?ext = "segment query p (q_size q)"
  from assms(1) obtain P where P: "laid P qs [] ?buf" by (auto simp: copying_def)
  then have b: "chained (question_at P ?buf) header_size qs (length ?buf)" by (simp add: laid_def)
  have len: "length ?ext = q_size q" using assms(2) by (simp add: asked_def)
  let ?n = "length (wire_name (q_labels q))"
  have seg: "?ext = wire_name (q_labels q) @ htons_bytes (q_qtype q) @ htons_bytes (q_qclass q)"
    using assms(2) by (rule asked_segment)
  have "wire_at (?buf @ ?ext) (length ?buf) (q_labels q)"
    unfolding seg by (simp add: wire_at_def)
  moreover have "segment (?buf @ ?ext) (length ?buf + ?n) 4 =
      htons_bytes (q_qtype q) @ htons_bytes (q_qclass q)"
    unfolding seg by (simp add: segment_def)
  ultimately have moved: "asked (?buf @ ?ext) (length ?buf) q" using assms(2) len by (simp add: asked_def)
  let ?Q = "P \<union> {length ?buf..<length (?buf @ ?ext)}"
  from moved have "question_at ?Q (?buf @ ?ext) (length ?buf) q (length (?buf @ ?ext))"
    using question_at_asked [of "?buf @ ?ext" "length ?buf" q ?Q] assms(3) len by simp
  moreover have "chained (question_at ?Q (?buf @ ?ext)) header_size qs (length ?buf)"
    using b by (rule chained_mono [where lo = 0]) (auto intro: question_at_grow dest: question_at_bound)
  moreover have "header_size + length qs \<le> length ?buf"
    by (rule chained_bound [OF b]) (rule question_at_bound)
  then have "?Q \<subseteq> {header_size..<length (?buf @ ?ext)}"
    using P by (auto simp: laid_def)
  ultimately have "laid ?Q (qs @ [q]) [] (?buf @ ?ext)"
    using assms(4) len by (auto simp: laid_def chained_append)
  with assms(1) show ?thesis
    by (auto simp: copying_def counters_ok_def zones_of_def)
qed

lemma read_questions_result:
  assumes "read_questions env query len left n pointers s = (r, s')" "copying qs s"
    and "known_on query (len - left) pointers" "known_within (len - left + left) pointers"
  shows "case r of
      Inr questions \<Rightarrow> copying (qs @ questions) s' \<and> length questions = n \<and>
        (\<forall>q \<in> set questions. asked query (len - left) q \<and> q_size q \<le> left)
    | Inl x \<Rightarrow> x \<notin> {UnknownDomain, Truncated} \<and>
        (len - left + left < length query \<longrightarrow> x \<noteq> UndefinedBehaviour)"
  using assms
proof (induction n arbitrary: pointers s qs r s')
  case 0
  then show ?case by auto
next
  case (Suc n)
  let ?p = "len - left"
  let ?off = "of_nat (length (rp_buffer s)) :: u16"
  show ?case
  proof (cases "parse_question (env_endian env) (env_label_ok env) query ?p left pointers ?off")
    case (Inl x)
    with Suc.prems parse_question_error [OF Inl] parse_question_kinds [OF Inl] show ?thesis
      by (auto simp: Let_def split: if_splits)
  next
    case (Inr r1)
    obtain q known where r1: "r1 = (q, known)" by (cases r1)
    from parse_question_accepted [OF Inr [unfolded r1] Suc.prems(3,4)]
    have q: "asked query ?p q" "q_offset q = ?off" "known_on query ?p known"
      "known_within (?p + left) known" "q_size q \<le> left" by auto
    let ?s = "s\<lparr>rp_buffer := rp_buffer s @ segment query ?p (q_size q),
        rp_num_questions := rp_num_questions s + 1\<rparr>"
    obtain r2 s2 where rest: "read_questions env query len left n known ?s = (r2, s2)"
      by (cases "read_questions env query len left n known ?s")
    show ?thesis
    proof (cases "left \<noteq> 0 \<and> (q_qclass q = 1 \<or> q_qclass q = 255) \<and>
        length (rp_buffer s) + q_size q < max_reply_buffer")
      case False
      with Suc.prems(1) Inr r1 show ?thesis by (auto simp: Let_def split: if_splits)
    next
      case True
      with Suc.prems(2) q have "copying (qs @ [q]) ?s" by (intro copying_step) auto
      from Suc.IH [OF rest this q(3,4)] Suc.prems(1) Inr r1 True rest q(1,5) show ?thesis
        by (cases r2) (auto simp: Let_def)
    qed
  qed
qed

section \<open>Zones the server comes to\<close>

lemma on_path_suffix: "on_path zones (below @ up) \<Longrightarrow> on_path zones up"
  by (induction below) auto

text \<open>What is asked of the zone that a name leads to, if it leads to one.\<close>

definition asked_ready :: "env \<Rightarrow> bytes list \<Rightarrow> bool" where
  "asked_ready env labels \<longleftrightarrow> (case fst (resolve env labels) of None \<Rightarrow> True | Some zone \<Rightarrow> zone_ready env zone)"

lemma outcome_ready:
  assumes "asked_ready env (qv_labels q)" "question_outcome env q = Inr zone"
  shows "zone_ready env zone"
  using assms by (auto simp: asked_ready_def question_outcome_def split: prod.splits option.splits if_splits)

lemma config_ready:
  assumes "config_valid env"
  shows "asked_ready env labels"
proof (cases "resolve env labels")
  case (Pair r a)
  show ?thesis
  proof (cases r)
    case None
    with Pair show ?thesis by (simp add: asked_ready_def)
  next
    case (Some zone)
    from resolve_on_path [OF Pair [unfolded Some]] have path: "on_path (env_zones env) zone" "zone \<noteq> []" by auto
    have "zone_valid env sz \<and> zsoa (target sz) \<noteq> None" if "nearest_soa zone = Some sz" for sz
      using nearest_soa_suffix [OF that] path on_path_suffix assms by (auto simp: config_valid_def)
    with path assms Pair Some show ?thesis by (simp add: asked_ready_def zone_ready_def config_valid_def)
  qed
qed

section \<open>Reading the reply\<close>

lemma of_section_log_of:
  "of_section Answers (log_of s) = sec_answers s" "of_section Authority (log_of s) = sec_authority s"
  "of_section Additional (log_of s) = sec_additional s"
  "map snd (log_of s) = sec_answers s @ sec_authority s @ sec_additional s"
  by (simp_all add: of_section_def log_of_def comp_def filter_map)

lemma take_log_of: "take k (log_of s) = log_of (cut k s)"
  by (simp add: log_of_def cut_def take_map)

lemma cut_total: "cut (total s) s = s"
  by (simp add: cut_def total_def)

lemma length_log_of: "length (log_of s) = total s"
  by (simp add: log_of_def total_def)

lemma counter_value:
  assumes "chained (rr_at P buf) base (map snd L) (length buf)" "length buf \<le> max_reply_buffer"
    and "map snd L = xs @ ys @ zs"
  shows "unat (of_nat (length xs) :: u16) = length xs" "unat (of_nat (length ys) :: u16) = length ys"
    "unat (of_nat (length zs) :: u16) = length zs"
proof -
  have "base + length (map snd L) \<le> length buf"
    by (rule chained_bound [OF assms(1)]) (rule rr_at_bound)
  with assms(2,3) have "length xs \<le> 512" "length ys \<le> 512" "length zs \<le> 512"
    by (auto simp: max_reply_buffer_def)
  then show "unat (of_nat (length xs) :: u16) = length xs" "unat (of_nat (length ys) :: u16) = length ys"
    "unat (of_nat (length zs) :: u16) = length zs"
    by (simp_all add: unat_of_nat take_bit_eq_mod)
qed

lemma written_decodes:
  assumes "written qs (log_of secs) s" "h = reply_header t hdr s"
  shows "decode_message (write_header h (rp_buffer s)) = Some \<lparr>msg_header = h,
      msg_questions = map qview qs, msg_answers = map view (sec_answers secs),
      msg_authority = map view (sec_authority secs), msg_additional = map view (sec_additional secs)\<rparr>"
proof -
  let ?buf = "rp_buffer s" and ?out = "write_header h (rp_buffer s)"
  from assms(1) obtain P base where P: "P \<subseteq> {header_size..<length ?buf}" "length ?buf \<le> max_reply_buffer"
    and q: "chained (question_at P ?buf) header_size qs base"
    and r: "chained (rr_at P ?buf) base (map snd (log_of secs)) (length ?buf)"
    and c: "counters_ok qs (log_of secs) s"
    by (auto simp: written_def laid_def)
  have qb: "header_size + length qs \<le> base" by (rule chained_bound [OF q]) (rule question_at_bound)
  have rb: "base + length (map snd (log_of secs)) \<le> length ?buf"
    by (rule chained_bound [OF r]) (rule rr_at_bound)
  from qb rb have room: "header_size \<le> length ?buf" by simp
  then have out: "?out = header_bytes h @ drop header_size ?buf" "length ?out = length ?buf"
    by (simp_all add: write_header_eq)
  have drop: "drop off ?out = drop off ?buf" if "header_size \<le> off" for off
    using that out by simp
  have agree: "?out ! i = ?buf ! i" if "i \<in> P" "i < length ?buf" for i
    using P(1) that out by (auto simp: nth_append)
  have "chained (question_at P ?out) header_size qs base"
    using q by (rule chained_mono [where lo = header_size])
      (use question_at_drop [of P ?buf _ _ _ ?out] drop out(2) agree question_at_bound in \<open>auto simp: less_imp_le\<close>)
  then have dq: "decode_many decode_question (length qs) ?out header_size = Some (map qview qs, base)"
    by (rule chained_decode) (rule question_at_decode)
  have "chained (rr_at P ?out) base (map snd (log_of secs)) (length ?buf)"
    using r by (rule chained_mono [where lo = header_size])
      (use qb rr_at_drop [of P ?buf _ _ _ ?out P] drop out(2) agree rr_at_bound in \<open>auto simp: less_imp_le\<close>)
  then obtain o2 o3 where o: "chained (rr_at P ?out) base (sec_answers secs) o2"
      "chained (rr_at P ?out) o2 (sec_authority secs) o3"
      "chained (rr_at P ?out) o3 (sec_additional secs) (length ?buf)"
    by (auto simp: of_section_log_of chained_append)
  note dr = this [THEN chained_decode, OF rr_at_decode]
  have nq: "unat (of_nat (length qs) :: u16) = length qs"
    using qb rb P(2) by (simp add: unat_of_nat take_bit_eq_mod max_reply_buffer_def)
  have "parse_header ?out (length ?out) = Inr h"
    using room by (simp add: out parse_header_bytes)
  moreover note counter_value [OF r P(2) of_section_log_of(4)]
  ultimately show ?thesis
    using c dq dr out(2) nq unfolding decode_message_def assms(2) counters_ok_def
    by (simp add: header_of_reply of_section_log_of)
qed

text \<open>
  A reply to a query: it decodes to the questions and to the sections of the specification,
  all of them or, with the truncation bit set, the first ones.
\<close>

definition reply_of :: "MessageHeader \<Rightarrow> question_view list \<Rightarrow> sections \<Rightarrow> bytes \<Rightarrow> bool" where
  "reply_of hdr qs secs buf \<longleftrightarrow>
     (\<exists>k h. k \<le> total secs \<and> length buf \<le> 512 \<and>
        decode_message buf = Some \<lparr>msg_header = h, msg_questions = qs,
          msg_answers = map view (sec_answers (cut k secs)),
          msg_authority = map view (sec_authority (cut k secs)),
          msg_additional = map view (sec_additional (cut k secs))\<rparr> \<and>
        hdr_id h = hdr_id hdr \<and> GetQr h \<and> (GetTc h \<longleftrightarrow> k < total secs) \<and>
        (k = total secs \<longrightarrow> GetAa h = sec_authorative secs))"

lemma reply_of_written:
  assumes "emits qs ([], [], True) (log_of secs) z' () (answer_questions env qs)"
    and "snd (snd z') = sec_authorative secs" "copying qs s" "map qview qs = qvs"
    and "read_questions env query len (len - header_size) (unat (hdr_qdcount hdr)) []
        (new_reply (resize header_size buffer)) = (Inr qs, s)"
  shows "\<exists>buf. ProcessQuestions env query len hdr buffer = (Inr (), buf) \<and> reply_of hdr qvs secs buf"
proof -
  obtain r s' where a: "answer_questions env qs s = (r, s')" by (cases "answer_questions env qs s")
  from assms(3) have "sound qs [] s" "zones_of s = ([], [], True)"
    by (auto simp: copying_sound) (simp add: copying_def)
  with assms(1) a have res: "case r of Inr x \<Rightarrow> sound qs (log_of secs) s' \<and> zones_of s' = z'
      | Inl x \<Rightarrow> x = Truncated \<and> (\<exists>k < total secs. written qs (log_of (cut k secs)) s')"
    unfolding emits_def by (fastforce simp: take_log_of length_log_of split: sum.splits)
  obtain k t where k: "written qs (log_of (cut k secs)) s'" "k \<le> total secs" "t \<longleftrightarrow> k < total secs"
      "k = total secs \<longrightarrow> rp_authorative s' = sec_authorative secs"
      "ProcessQuestions env query len hdr buffer =
         (Inr (), write_header (reply_header t hdr s') (rp_buffer s'))"
  proof (cases r)
    case (Inl x)
    with res obtain k where "k < total secs" "written qs (log_of (cut k secs)) s'" "x = Truncated" by auto
    with Inl assms(5) a that [of k True] show ?thesis by (simp add: ProcessQuestions_def)
  next
    case (Inr x)
    with res have "written qs (log_of secs) s'" "rp_authorative s' = sec_authorative secs"
      using assms(2) by (auto intro: sound_written simp: zones_of_def)
    with Inr assms(5) a that [of "total secs" False] show ?thesis
      by (simp add: ProcessQuestions_def cut_total)
  qed
  have "length (rp_buffer s') \<le> 512" "header_size \<le> length (rp_buffer s')"
  proof -
    from k(1) obtain P where P: "laid P qs (log_of (cut k secs)) (rp_buffer s')" by (auto simp: written_def)
    then show "length (rp_buffer s') \<le> 512" by (simp add: laid_def max_reply_buffer_def)
    from P obtain base where b: "chained (question_at P (rp_buffer s')) header_size qs base"
      "chained (rr_at P (rp_buffer s')) base (map snd (log_of (cut k secs))) (length (rp_buffer s'))"
      by (auto simp: laid_def)
    have "header_size + length qs \<le> base" by (rule chained_bound [OF b(1)]) (rule question_at_bound)
    moreover have "base + length (map snd (log_of (cut k secs))) \<le> length (rp_buffer s')"
      by (rule chained_bound [OF b(2)]) (rule rr_at_bound)
    ultimately show "header_size \<le> length (rp_buffer s')" by simp
  qed
  with k written_decodes [OF k(1) refl, of t hdr] assms(4) header_of_reply [of t hdr s']
  show ?thesis unfolding reply_of_def
    by (intro exI [of _ "write_header (reply_header t hdr s') (rp_buffer s')"] conjI exI [of _ k]
        exI [of _ "reply_header t hdr s'"]) auto
qed

end
