(* ===== verification/DnsServer.thy ===== *)
theory DnsServer
  imports DnsSound
begin

text \<open>
  The end-to-end theorems about the DNS server of \<open>src/dnsd/DnsDaemon.cpp\<close>: which queries it
  answers, with what, and that no query makes it fail.
\<close>

section \<open>Queries that are read\<close>

text \<open>
  A query of \<open>n\<close> questions whose first question is \<open>q\<close>: an uncompressed name of labels the
  parser allows, class IN or any, and room to copy it \<open>n\<close> times.
\<close>

definition well_asked :: "env \<Rightarrow> bytes \<Rightarrow> nat \<Rightarrow> question_view \<Rightarrow> bool" where
  "well_asked env query n q \<longleftrightarrow>
     (let fs = qv_labels q; size = length (wire_name fs) + 4
      in fs \<noteq> [] \<and> acceptable (env_label_ok env) fs \<and> text_size fs \<le> 254 \<and>
         header_size + size \<le> length query \<and> header_size + n * size < max_reply_buffer \<and>
         segment query header_size size =
           wire_name fs @ htons_bytes (qv_type q) @ htons_bytes (qv_class q) \<and>
         (qv_class q = 1 \<or> qv_class q = 255))"

definition question_of :: "question_view \<Rightarrow> u16 \<Rightarrow> Question" where
  "question_of q off = \<lparr>q_labels = qv_labels q, q_size = length (wire_name (qv_labels q)) + 4,
     q_qtype = qv_type q, q_qclass = qv_class q, q_offset = off\<rparr>"

lemma qview_question_of [simp]: "qview (question_of q off) = q"
  by (simp add: qview_def question_of_def)

lemma u16_at_two:
  assumes "segment mem i 4 = htons_bytes t @ htons_bytes c" "i + 4 \<le> length mem"
  shows "u16_at mem i = Inr t \<and> u16_at mem (i + 2) = Inr c"
  using assms segment_four [of i mem] by (simp add: u16_at_def htons_bytes_def numeral_3_eq_3)

lemma parse_question_succeeds:
  assumes "well_asked env query n q" "length query \<le> length mem" "take (length query) mem = query"
  shows "\<exists>known'. parse_question (env_endian env) (env_label_ok env) mem header_size
      (length query - header_size) known off = Inr (question_of q off, known')"
proof -
  let ?fs = "qv_labels q"
  let ?n = "length (wire_name ?fs)"
  let ?s = "\<lparr>lh_known = known, lh_names = [], lh_size = 0, lh_buffer_size = 0\<rparr>"
  from assms(1) have w: "?fs \<noteq> []" "acceptable (env_label_ok env) ?fs" "text_size ?fs \<le> 254"
      "header_size + (?n + 4) \<le> length query"
      "segment query header_size (?n + 4) =
         wire_name ?fs @ htons_bytes (qv_type q) @ htons_bytes (qv_class q)"
    by (auto simp: well_asked_def Let_def)
  have "segment mem header_size (?n + 4) = segment query header_size (?n + 4)"
    using assms(3) w(4) by (metis assms(2) segment_append1 append_take_drop_id)
  with w(5) have seg: "segment mem header_size ?n = wire_name ?fs"
      "segment mem (header_size + ?n) 4 = htons_bytes (qv_type q) @ htons_bytes (qv_class q)"
    using w(4) assms(2) by (auto simp: segment_add append_eq_append_conv)
  then have wire: "wire_at mem header_size ?fs" using w(4) assms(2) by (simp add: wire_at_def)
  have "label_loop (env_endian env) (env_label_ok env) mem (length query) header_size False ?s =
      Inr (advance ?s header_size ?fs)"
    using wire w by (intro label_loop_accepts) auto
  then have "LabelHeader (env_endian env) (env_label_ok env) mem header_size
      (length query - header_size) known = Inr (advance ?s header_size ?fs)"
    using w(4) by (simp add: LabelHeader_def)
  moreover have "u16_at mem (header_size + ?n) = Inr (qv_type q) \<and>
      u16_at mem (header_size + ?n + 2) = Inr (qv_class q)"
    using seg(2) w(4) assms(2) by (intro u16_at_two) auto
  ultimately show ?thesis
    using w(4) map_ref_bytes_refs_at [OF wire]
    by (simp add: parse_question_def advance_def question_of_def Let_def)
qed

lemma read_questions_succeeds:
  assumes "well_asked env query n q" "length query \<le> length mem" "take (length query) mem = query"
    and "length (rp_buffer s) + k * (length (wire_name (qv_labels q)) + 4) < max_reply_buffer"
  shows "\<exists>questions s'. read_questions env mem (length query) (length query - header_size) k known s =
      (Inr questions, s') \<and> map qview questions = replicate k q"
  using assms(4)
proof (induction k arbitrary: known s)
  case (Suc k)
  let ?off = "of_nat (length (rp_buffer s)) :: u16"
  let ?q = "question_of q ?off"
  from assms(1) have w: "header_size < length query" "qv_class q = 1 \<or> qv_class q = 255"
    by (auto simp: well_asked_def Let_def)
  then have left: "length query - (length query - header_size) = header_size" by simp
  from parse_question_succeeds [OF assms(1-3), of known ?off] obtain known' where
    p: "parse_question (env_endian env) (env_label_ok env) mem header_size
      (length query - header_size) known ?off = Inr (?q, known')" by blast
  let ?s = "s\<lparr>rp_buffer := rp_buffer s @ segment mem header_size (q_size ?q),
      rp_num_questions := rp_num_questions s + 1\<rparr>"
  have size: "q_size ?q = length (wire_name (qv_labels q)) + 4" by (simp add: question_of_def)
  have "length (rp_buffer ?s) + k * (length (wire_name (qv_labels q)) + 4) < max_reply_buffer"
    using Suc.prems by (simp add: size segment_def)
  from Suc.IH [OF this, of known'] obtain questions s' where
    "read_questions env mem (length query) (length query - header_size) k known' ?s = (Inr questions, s')"
    "map qview questions = replicate k q" by blast
  with p w left size Suc.prems show ?case
    by (simp add: Let_def question_of_def [of q ?off, THEN arg_cong, of q_qclass])
qed simp

section \<open>From the questions to the outcome\<close>

lemma resolved_near:
  assumes "asked_ready env labels" "resolve env labels = (Some zone, a)"
  shows "GetSoaZone zone = Some (nearest_soa zone)"
  using assms resolve_on_path [OF assms(2)] GetSoaZone_finds [of zone] by (simp add: asked_ready_def zone_ready_def)

lemma ProcessQuestion_error:
  assumes "asked_ready env (q_labels q)" "question_outcome env (qview q) = Inl x"
  shows "fst (ProcessQuestion env q s) = Inl x"
proof (cases "resolve env (q_labels q)")
  case (Pair r a)
  show ?thesis
  proof (cases r)
    case None
    with Pair assms(2) show ?thesis
      by (auto simp: question_outcome_def qview_def resolve_def ProcessQuestion_def split: if_splits)
  next
    case (Some zone)
    with Pair assms(2) have "q_qtype q = 6" "nearest_soa zone = None" "x = NoSoaRecord"
      by (auto simp: question_outcome_def qview_def split: if_splits)
    with Some Pair resolved_near [OF assms(1), of zone a] show ?thesis
      by (simp add: resolve_def ProcessQuestion_def StoreByType_def op_bind_def op_throw_def Let_def)
  qed
qed

lemma answer_questions_error:
  assumes "fst (ProcessQuestion env q s) = Inl x"
  shows "fst (answer_questions env (q # qs) s) = Inl x"
  using assms by (cases "ProcessQuestion env q s") (simp add: answer_questions_def op_bind_def)

lemma question_outcome_kinds:
  "question_outcome env q = Inl x \<Longrightarrow> x \<in> {UnknownDomain, UnknownSubDomain, NoSoaRecord}"
  by (auto simp: question_outcome_def split: prod.splits option.splits if_splits)

text \<open>The two sides of the second pass: some question fails, or all of them are answered.\<close>

lemma second_pass_fails:
  assumes "read_questions env query len (len - header_size) (unat (hdr_qdcount hdr)) []
        (new_reply (resize header_size [])) = (Inr qs, s)"
    and "map qview qs = replicate n q" "0 < n" "x \<noteq> Truncated"
    and "\<And>q'. qview q' = q \<Longrightarrow> fst (ProcessQuestion env q' s) = Inl x"
  shows "fst (ProcessQuestions env query len hdr []) = Inl x"
proof -
  from assms(2,3) obtain q0 qs' where qs: "qs = q0 # qs'" "qview q0 = q"
    by (cases n; cases qs) auto
  with answer_questions_error [OF assms(5)] have "fst (answer_questions env qs s) = Inl x" by simp
  then show ?thesis
    using assms(1,4) by (cases "answer_questions env qs s") (auto simp: ProcessQuestions_def split: exn.splits)
qed

lemma second_pass_error:
  assumes "asked_ready env (qv_labels q)" "read_questions env query len (len - header_size) (unat (hdr_qdcount hdr)) []
        (new_reply (resize header_size [])) = (Inr qs, s)"
    and "map qview qs = replicate n q" "0 < n" "question_outcome env q = Inl x"
  shows "fst (ProcessQuestions env query len hdr []) = Inl x"
proof (rule second_pass_fails [OF assms(2-4)])
  show "x \<noteq> Truncated" using question_outcome_kinds [OF assms(5)] by auto
  show "fst (ProcessQuestion env q' s) = Inl x" if "qview q' = q" for q'
    using that assms(1,5) by (intro ProcessQuestion_error) (auto simp: qview_def)
qed

lemma second_pass_reply:
  assumes "read_questions env query len (len - header_size) (unat (hdr_qdcount hdr)) []
        (new_reply (resize header_size [])) = (Inr qs, s)"
    and "map qview qs = replicate n q" "n = 0 \<or> question_outcome env q = Inr zone"
    and "asked_ready env (qv_labels q)" "copying qs s"
  shows "\<exists>buf. ProcessQuestions env query len hdr [] = (Inr (), buf) \<and>
     reply_of hdr (replicate n q) (sections_of env (replicate n (q, zone))) buf"
proof -
  have views: "qview q' = q" "question_outcome env q = Inr zone" if "q' \<in> set qs" for q'
  proof -
    from that have "qview q' \<in> set (map qview qs)" by simp
    then show "qview q' = q" "question_outcome env q = Inr zone" using assms(2,3) by (auto split: if_splits)
  qed
  have pairs: "map (\<lambda>q'. (qview q', zone)) qs = replicate n (q, zone)"
    using assms(2) views(1) by (metis (no_types, lifting) length_map length_replicate map_eq_conv map_replicate_const)
  have "\<exists>z'. emits qs ([], [], True) (log_of (sections_of env (map (\<lambda>q. (qview q, zone)) qs))) z' ()
      (answer_questions env qs) \<and>
    snd (snd z') = sec_authorative (sections_of env (map (\<lambda>q. (qview q, zone)) qs))"
    using views outcome_ready [OF assms(4)] by (intro emits_answer_questions) auto
  then show ?thesis
    unfolding pairs using reply_of_written [OF _ _ assms(5,2,1)] by blast
qed

section \<open>What the server sends\<close>

definition error_reply :: "Rcode \<Rightarrow> MessageHeader \<Rightarrow> bytes \<Rightarrow> bool" where
  "error_reply c hdr b \<longleftrightarrow> length b = 12 \<and>
     (\<exists>h. parse_header b 12 = Inr h \<and> GetQr h \<and> hdr_id h = hdr_id hdr \<and>
        GetOpcode h = GetOpcode hdr \<and> GetRcode h = rcode_value c \<and>
        hdr_qdcount h = 0 \<and> hdr_ancount h = 0 \<and> hdr_nscount h = 0 \<and> hdr_arcount h = 0)"

lemma error_reply_created: "error_reply c hdr (CreateErrorReply c hdr buffer)"
  using error_header [of c hdr buffer] length_CreateErrorReply [of c hdr buffer]
  unfolding header_size_def
  by (auto simp: error_reply_def ResetAllCounters_def fields_kept fields_stored counts_kept)

text \<open>The contract of a question: an answer, an error, or silence.\<close>

definition expected :: "env \<Rightarrow> MessageHeader \<Rightarrow> nat \<Rightarrow> question_view \<Rightarrow> bytes option \<Rightarrow> bool" where
  "expected env hdr n q answer \<longleftrightarrow>
     (case question_outcome env q of
        Inr zone \<Rightarrow> \<exists>b. answer = Some b \<and>
          reply_of hdr (replicate n q) (sections_of env (replicate n (q, zone))) b
      | Inl UnknownDomain \<Rightarrow> answer = None
      | Inl UnknownSubDomain \<Rightarrow> \<exists>b. answer = Some b \<and> error_reply NAME_ERROR hdr b
      | Inl _ \<Rightarrow> \<exists>b. answer = Some b \<and> error_reply SERVER_FAILURE hdr b)"

lemma reply_of_nonempty: "reply_of hdr qs secs b \<Longrightarrow> b \<noteq> []"
  by (auto simp: reply_of_def decode_message_def parse_header_def header_size_def)

lemma receive_standard:
  assumes "parse_header datagram (length datagram) = Inr hdr" "\<not> GetQr hdr" "GetOpcode hdr = 0"
    and "ProcessQuestions env (datagram @ drop (length datagram) (wk_query w)) (length datagram) hdr [] =
      (r, buf)"
  shows "case r of
      Inr _ \<Rightarrow> buf \<noteq> [] \<longrightarrow> fst (receive_one env datagram w) = Inr (Some buf)
    | Inl UnknownDomain \<Rightarrow> fst (receive_one env datagram w) = Inr None
    | Inl UndefinedBehaviour \<Rightarrow> fst (receive_one env datagram w) = Inl UndefinedBehaviour
    | Inl x \<Rightarrow> \<exists>c. fst (receive_one env datagram w) = Inr (Some (CreateErrorReply c hdr buf)) \<and>
        (x = UnknownSubDomain \<longrightarrow> c = NAME_ERROR) \<and> (x = NoSoaRecord \<longrightarrow> c = SERVER_FAILURE) \<and>
        (x = Refused \<longrightarrow> c = REFUSED) \<and> (x \<in> {InvalidQuery, NoLabelsException,
           IllegalLabelException, IllegalPointereException} \<longrightarrow> c = FORMAT_ERROR)"
proof -
  have ph: "parse_header (datagram @ rest) (length datagram) = Inr hdr" for rest
    using assms(1) by (simp add: parse_header_prefix)
  have "length (CreateErrorReply c hdr buf) = 12" for c by (simp add: header_size_def)
  then have "CreateErrorReply c hdr buf \<noteq> []" for c
    by (metis list.size(3) zero_neq_numeral)
  then show ?thesis
    using assms(2-4) ph
    by (cases r; cases "projl r")
       (auto simp: receive_one_def ProcesssQuerey_def start_request_def reply_error_def unknown_name_def Let_def)
qed

lemma query_answered:
  assumes "asked_ready env (qv_labels q)" "parse_header datagram (length datagram) = Inr hdr" "\<not> GetQr hdr"
    and "GetOpcode hdr = 0" "n = unat (hdr_qdcount hdr)" "0 < n" "well_asked env datagram n q"
  shows "\<exists>answer. fst (receive_one env datagram w) = Inr answer \<and> expected env hdr n q answer"
proof -
  let ?query = "datagram @ drop (length datagram) (wk_query w)"
  let ?len = "length datagram"
  have "length (rp_buffer (new_reply (resize header_size []))) +
      n * (length (wire_name (qv_labels q)) + 4) < max_reply_buffer"
    using assms(7) by (simp add: well_asked_def new_reply_def Let_def)
  from read_questions_succeeds [OF assms(7) _ _ this, of ?query "[]"] obtain qs s where
    r: "read_questions env ?query ?len (?len - header_size) n [] (new_reply (resize header_size [])) =
        (Inr qs, s)" "map qview qs = replicate n q" by auto
  have "copying qs s"
    using read_questions_result [OF r(1) copying_start [of "[]"]] by (simp add: known_on_def known_within_def)
  obtain pr buf where pq: "ProcessQuestions env ?query ?len hdr [] = (pr, buf)"
    by (cases "ProcessQuestions env ?query ?len hdr []")
  note std = receive_standard [OF assms(2-4) pq]
  show ?thesis
  proof (cases "question_outcome env q")
    case (Inr zone)
    from second_pass_reply [OF r(1) [unfolded assms(5)] r(2) _ assms(1) \<open>copying qs s\<close>, of zone] Inr pq
    have "pr = Inr ()" "reply_of hdr (replicate n q) (sections_of env (replicate n (q, zone))) buf"
      by (auto simp: assms(5))
    with std Inr show ?thesis by (auto simp: expected_def dest: reply_of_nonempty)
  next
    case (Inl x)
    from second_pass_error [OF assms(1) r(1) [unfolded assms(5)] r(2) assms(6) Inl] pq have "pr = Inl x"
      by (simp add: assms(5))
    with std question_outcome_kinds [OF Inl] Inl error_reply_created show ?thesis
      by (auto simp: expected_def)
  qed
qed

text \<open>
  C1: a well-formed standard query gets what the specification says of its question. If the
  name leads to a zone, the reply decodes to the question and to the records of the zone, in
  their sections, or to the first of them with the truncation bit; if the name is unknown
  below a zone of ours, or there is no SOA record to give, the reply is the error; if the
  name is outside our zones there is no reply. When a query announces \<open>n\<close> questions, the
  first one is answered \<open>n\<close> times. Where the name leads to a zone this asks two things of that zone, whatever the others are: the search
  for its SOA record ends, since it is a root or has the record or its parent has it, and it can be written, so
  that its names and those of the zone with the SOA record, its name servers and its mail hosts have labels of 1 to 63 bytes
  and fit into 255, and a zone with an SOA record names a server. Well-formed means that the
  first name is not compressed and has labels that the parser allows, that the class is IN or any, and that there is room to copy the question \<open>n\<close> times.
\<close>

theorem server_answers_query:
  assumes "asked_ready env (qv_labels q)" "parse_header datagram (length datagram) = Inr hdr" "\<not> GetQr hdr"
    and "GetOpcode hdr = 0" "n = unat (hdr_qdcount hdr)" "0 < n" "well_asked env datagram n q"
  shows "\<exists>answer. fst (receive_one env datagram w) = Inr answer \<and> expected env hdr n q answer"
  using assms by (rule query_answered)

section \<open>No datagram makes the server fail\<close>

lemma asked_prefix:
  assumes "asked (d @ rest) p q" "p + q_size q \<le> length d"
  shows "asked d p q"
proof -
  let ?n = "length (wire_name (q_labels q))"
  have "segment (d @ rest) p ?n = segment d p ?n" "segment (d @ rest) (p + ?n) 4 = segment d (p + ?n) 4"
    using assms by (auto simp: asked_def)
  with assms show ?thesis by (simp add: asked_def wire_at_def)
qed

lemma same_views:
  assumes "\<forall>q \<in> set qs. asked mem p q" "q0 \<in> set qs"
  shows "map qview qs = replicate (length qs) (qview q0)"
proof (rule replicate_eqI)
  fix v
  assume "v \<in> set (map qview qs)"
  then obtain q where "q \<in> set qs" "v = qview q" by auto
  with assms asked_decode [of mem p q] asked_decode [of mem p q0] show "v = qview q0" by simp
qed simp

lemma receive_without_header:
  assumes "parse_header datagram (length datagram) = Inl x"
  shows "fst (receive_one env datagram w) = Inr None \<and> length datagram < 12"
proof -
  from assms have "length datagram < 12" "x = MessageHeaderException"
    by (auto simp: parse_header_def u16_at_def header_size_def split: if_splits)
  with assms show ?thesis
    by (simp add: receive_one_def ProcesssQuerey_def start_request_def parse_header_prefix)
qed

lemma receive_no_standard_query:
  assumes "parse_header datagram (length datagram) = Inr hdr" "GetQr hdr \<or> GetOpcode hdr \<noteq> 0"
  shows "\<exists>b. fst (receive_one env datagram w) = Inr (Some b)"
proof -
  have ph: "parse_header (datagram @ rest) (length datagram) = Inr hdr" for rest
    using assms(1) by (simp add: parse_header_prefix)
  have "length (CreateErrorReply c hdr b) = 12" for c b by (simp add: header_size_def)
  then have "CreateErrorReply c hdr b \<noteq> []" for c b by (metis list.size(3) zero_neq_numeral)
  with assms(2) ph show ?thesis
    by (auto simp: receive_one_def ProcesssQuerey_def start_request_def reply_error_def Let_def)
qed

text \<open>The questions a standard query holds were read from it, or an error ended the first pass.\<close>

lemma first_pass:
  assumes "read_questions env (datagram @ rest) (length datagram) (length datagram - header_size) n []
      (new_reply (resize header_size [])) = (r, s)"
    and "header_size \<le> length datagram" "rest \<noteq> []"
  shows "case r of
      Inl x \<Rightarrow> x \<notin> {UnknownDomain, Truncated, UndefinedBehaviour}
    | Inr qs \<Rightarrow> copying qs s \<and> (\<forall>q \<in> set qs. map qview qs = replicate (length qs) (qview q) \<and>
        decode_question datagram 12 = Some (qview q, 12 + q_size q))"
proof -
  let ?len = "length datagram"
  have at: "?len - (?len - header_size) = header_size" using assms(2) by simp
  from read_questions_result [OF assms(1) copying_start [of "[]"]] assms(2,3)
  have res: "case r of
      Inr qs \<Rightarrow> copying qs s \<and> (\<forall>q \<in> set qs. asked (datagram @ rest) header_size q \<and> q_size q \<le> ?len - header_size)
    | Inl x \<Rightarrow> x \<notin> {UnknownDomain, Truncated, UndefinedBehaviour}"
    by (auto simp: known_on_def known_within_def at split: sum.splits)
  have views: "map qview qs = replicate (length qs) (qview q) \<and>
      decode_question datagram 12 = Some (qview q, 12 + q_size q)"
    if r: "r = Inr qs" and q: "q \<in> set qs" for qs q
  proof
    from res r have all: "\<forall>q \<in> set qs. asked (datagram @ rest) header_size q" by simp
    from same_views [OF all q] show "map qview qs = replicate (length qs) (qview q)" .
    from res r q have a: "asked (datagram @ rest) header_size q" and "q_size q \<le> ?len - header_size" by auto
    with assms(2) have "header_size + q_size q \<le> ?len" by linarith
    with a have "asked datagram header_size q" by (rule asked_prefix)
    from asked_decode [OF this] show "decode_question datagram 12 = Some (qview q, 12 + q_size q)"
      by (simp add: header_size_def)
  qed
  show ?thesis
  proof (cases r)
    case (Inr qs)
    with res have "copying qs s" by simp
    with Inr views show ?thesis unfolding Inr sum.case by blast
  next
    case (Inl x)
    with res show ?thesis by simp
  qed
qed

lemma receive_standard_query:
  assumes "config_valid env" "length datagram < length (wk_query w)"
    and "parse_header datagram (length datagram) = Inr hdr" "\<not> GetQr hdr" "GetOpcode hdr = 0"
  shows "\<exists>answer. fst (receive_one env datagram w) = Inr answer \<and> (answer = None \<longrightarrow>
    (\<exists>q e. decode_question datagram 12 = Some (q, e) \<and> question_outcome env q = Inl UnknownDomain))"
proof -
  let ?rest = "drop (length datagram) (wk_query w)" and ?len = "length datagram"
  obtain r s where r: "read_questions env (datagram @ ?rest) ?len (?len - header_size)
      (unat (hdr_qdcount hdr)) [] (new_reply (resize header_size [])) = (r, s)" by fastforce
  from assms(3) have "header_size \<le> ?len" by (auto simp: parse_header_def split: if_splits)
  with first_pass [OF r] assms(2) have res: "case r of
      Inl x \<Rightarrow> x \<notin> {UnknownDomain, Truncated, UndefinedBehaviour}
    | Inr qs \<Rightarrow> copying qs s \<and> (\<forall>q \<in> set qs. map qview qs = replicate (length qs) (qview q) \<and>
        decode_question datagram 12 = Some (qview q, 12 + q_size q))" by simp
  obtain pr buf where pq: "ProcessQuestions env (datagram @ ?rest) ?len hdr [] = (pr, buf)"
    by (cases "ProcessQuestions env (datagram @ ?rest) ?len hdr []")
  note std = receive_standard [OF assms(3-5) pq]
  show ?thesis
  proof (cases r)
    case (Inl x)
    with r pq have "pr = Inl x" by (auto simp: ProcessQuestions_def)
    with std res Inl show ?thesis by (cases x) auto
  next
    case (Inr qs)
    note second_error = second_pass_error [OF config_ready [OF assms(1)] r [unfolded Inr]]
      and second_reply = second_pass_reply [OF r [unfolded Inr] _ _ config_ready [OF assms(1)]]
    show ?thesis
    proof (cases "qs = []")
      case True
      from second_reply [of 0] res Inr True pq have "pr = Inr ()" "buf \<noteq> []"
        by (auto dest: reply_of_nonempty)
      with std show ?thesis by auto
    next
      case False
      then obtain q where q: "q \<in> set qs" by (cases qs) auto
      with res Inr have c: "copying qs s" "map qview qs = replicate (length qs) (qview q)"
        "decode_question datagram 12 = Some (qview q, 12 + q_size q)" by auto
      show ?thesis
      proof (cases "question_outcome env (qview q)")
        case (Inl x)
        from second_error [OF c(2) _ Inl] pq False have "pr = Inl x" by simp
        with std question_outcome_kinds [OF Inl] c(3) Inl show ?thesis by auto
      next
        case outcome: (Inr zone)
        from second_reply [OF c(2) _ c(1), of zone] outcome pq have "pr = Inr ()" "buf \<noteq> []"
          by (auto dest: reply_of_nonempty)
        with std show ?thesis by auto
      qed
    qed
  qed
qed

text \<open>
  C2: where the configuration is valid, a datagram that leaves one byte of the query buffer free never makes the server read
  outside its memory, go on without end or leave the receive loop by an exception. It is
  answered, unless it is shorter than a header or its first question is about a name outside
  our zones.
\<close>

theorem server_total:
  assumes "config_valid env" "length datagram < length (wk_query w)"
  shows "\<exists>answer. fst (receive_one env datagram w) = Inr answer \<and>
    (answer = None \<longrightarrow> length datagram < 12 \<or>
       (\<exists>q e. decode_question datagram 12 = Some (q, e) \<and> question_outcome env q = Inl UnknownDomain))"
proof (cases "parse_header datagram (length datagram)")
  case (Inl x)
  from receive_without_header [OF this] show ?thesis by simp
next
  case (Inr hdr)
  show ?thesis
  proof (cases "GetQr hdr \<or> GetOpcode hdr \<noteq> 0")
    case True
    from receive_no_standard_query [OF Inr this] show ?thesis by fastforce
  next
    case False
    with receive_standard_query [OF assms Inr] show ?thesis by blast
  qed
qed

section \<open>The query that never ends\<close>

lemma search_hangs:
  assumes "parse_header datagram (length datagram) = Inr hdr" "\<not> GetQr hdr"
    and "GetOpcode hdr = 0" "n = unat (hdr_qdcount hdr)" "0 < n" "well_asked env datagram n q"
    and "resolve env (qv_labels q) = (Some zone, a)" "\<not> soa_near zone"
  shows "fst (receive_one env datagram w) = Inl UndefinedBehaviour"
proof -
  let ?query = "datagram @ drop (length datagram) (wk_query w)"
  let ?len = "length datagram"
  have "length (rp_buffer (new_reply (resize header_size []))) +
      n * (length (wire_name (qv_labels q)) + 4) < max_reply_buffer"
    using assms(6) by (simp add: well_asked_def new_reply_def Let_def)
  from read_questions_succeeds [OF assms(6) _ _ this, of ?query "[]"] obtain qs s where
    r: "read_questions env ?query ?len (?len - header_size) n [] (new_reply (resize header_size [])) =
        (Inr qs, s)" "map qview qs = replicate n q" by auto
  from resolve_on_path [OF assms(7)] assms(8) have "GetSoaZone zone = None" by (simp add: GetSoaZone_finds)
  with assms(7) have "fst (ProcessQuestion env q' s) = Inl UndefinedBehaviour" if "qview q' = q" for q'
    using that by (auto simp: ProcessQuestion_def resolve_def qview_def)
  from second_pass_fails [OF r(1) [unfolded assms(4)] r(2) assms(5) _ this]
  have "fst (ProcessQuestions env ?query ?len hdr []) = Inl UndefinedBehaviour" by (simp add: assms(4))
  then obtain buf where "ProcessQuestions env ?query ?len hdr [] = (Inl UndefinedBehaviour, buf)"
    by (cases "ProcessQuestions env ?query ?len hdr []") auto
  from receive_standard [OF assms(1-3) this] show ?thesis by simp
qed

text \<open>
  C3: the query that never ends. A well-formed query for a name whose zone is no root and has no SOA record, nor its
  parent, keeps the worker in the search for the record for good, whatever the type it asks for.
\<close>

theorem deep_zone_hangs:
  assumes "parse_header datagram (length datagram) = Inr hdr" "\<not> GetQr hdr"
    and "GetOpcode hdr = 0" "n = unat (hdr_qdcount hdr)" "0 < n" "well_asked env datagram n q"
    and "resolve env (qv_labels q) = (Some zone, a)" "tl zone \<noteq> []"
    and "zsoa (target zone) = None" "zsoa (target (tl zone)) = None"
  shows "fst (receive_one env datagram w) = Inl UndefinedBehaviour"
  using search_hangs [OF assms(1-7)] assms(8-10) by (simp add: soa_near_def)

section \<open>A site\<close>

text \<open>
  The zone \<open>a.com\<close> with a name server \<open>n\<close>, a mail host \<open>w\<close>, an alias \<open>l\<close> of \<open>w\<close> and a wildcard.
\<close>

definition zone_com :: "zone \<Rightarrow> zone" where
  "zone_com z = Zone [99, 111, 109] [] [] [] [] None [z] False"

definition zone_l :: zone where
  "zone_l = Zone [108] [] [] [] [119] None [] False"

definition zone_a :: zone where
  "zone_a = Zone [97] [(10, 0, 0, 1)] [\<lparr>ns_fqdn = [110]\<rparr>] [\<lparr>ns_fqdn = [119], mx_priority = 10\<rparr>] []
     (Some soa_defaults)
     [leaf_zone [110] [(10, 0, 0, 2)], leaf_zone [119] [(10, 0, 0, 3)], zone_l,
      leaf_zone [] [(10, 0, 0, 9)]] True"

definition site :: env where
  "site = \<lparr>env_endian = Little, env_label_ok = (\<lambda>_. True), env_ieq = ascii_iequals,
     env_zones = [zone_com zone_a]\<rparr>"

definition ptr_com :: zptr where
  "ptr_com = [(0, zone_com zone_a)]"

definition ptr_a :: zptr where
  "ptr_a = (0, zone_a) # ptr_com"

definition site_ptrs :: "zptr list" where
  "site_ptrs = [ptr_com, ptr_a, (0, leaf_zone [110] [(10, 0, 0, 2)]) # ptr_a,
     (1, leaf_zone [119] [(10, 0, 0, 3)]) # ptr_a, (2, zone_l) # ptr_a,
     (3, leaf_zone [] [(10, 0, 0, 9)]) # ptr_a]"

lemma site_children:
  "children_at zs ptr_com = [zone_a]"
  "children_at zs ptr_a = [leaf_zone [110] [(10, 0, 0, 2)], leaf_zone [119] [(10, 0, 0, 3)], zone_l,
     leaf_zone [] [(10, 0, 0, 9)]]"
  "children_at zs ((i, leaf_zone l ips) # up) = []" "children_at zs ((i, zone_l) # up) = []"
  by (simp_all add: ptr_com_def ptr_a_def zone_com_def zone_a_def leaf_zone_def zone_l_def)

lemma site_paths:
  assumes "on_path (env_zones site) zp" "zp \<noteq> []"
  shows "zp \<in> set site_ptrs"
  using assms
proof (induction zp)
  case (Cons z up)
  obtain i zz where z: "z = (i, zz)" by (cases z)
  show ?case
  proof (cases up)
    case Nil
    with Cons.prems z show ?thesis by (auto simp: site_def site_ptrs_def ptr_com_def)
  next
    case (Cons u us)
    with Cons.IH Cons.prems have up: "up \<in> set site_ptrs" by simp
    have child: "i < length (children_at (env_zones site) up)"
        "zz = children_at (env_zones site) up ! i"
      using Cons.prems z by auto
    from up consider "up = ptr_com" | "up = ptr_a" | l ips j where "up = (j, leaf_zone l ips) # ptr_a"
      | j where "up = (j, zone_l) # ptr_a"
      by (auto simp: site_ptrs_def)
    then show ?thesis
    proof cases
      case 1
      with child z show ?thesis by (simp add: site_children site_ptrs_def ptr_a_def)
    next
      case 2
      with child(1) consider "i = 0" | "i = 1" | "i = 2" | "i = 3"
        by (fastforce simp: site_children)
      then show ?thesis
        using child(2) 2 z by cases (simp_all add: site_children site_ptrs_def)
    qed (use child(1) in \<open>simp_all add: leaf_zone_def zone_l_def\<close>)
  qed
qed simp

lemma site_zones_valid: "list_all (\<lambda>zp. zone_valid site zp \<and> soa_near zp) site_ptrs"
  by code_simp

lemma site_valid: "config_valid site"
  using site_zones_valid site_paths unfolding config_valid_def list_all_iff by blast

text \<open>The question \<open>w.a.com IN A\<close>.\<close>

definition site_question :: question_view where
  "site_question = \<lparr>qv_labels = [[119], [97], [99, 111, 109]], qv_type = 1, qv_class = 1\<rparr>"

definition site_query :: bytes where
  "site_query = [0x12, 0x34, 1, 0, 0, 1, 0, 0, 0, 0, 0, 0,
     1, 119, 1, 97, 3, 99, 111, 109, 0, 0, 1, 0, 1]"

definition site_header :: MessageHeader where
  "site_header = \<lparr>hdr_id = 0x1234, hdr_flags = 0x100, hdr_qdcount = 1, hdr_ancount = 0,
     hdr_nscount = 0, hdr_arcount = 0\<rparr>"

text \<open>The zone has one record to answer it with.\<close>

lemma site_question_answer:
  "question_outcome site site_question = Inr ((1, leaf_zone [119] [(10, 0, 0, 3)]) # ptr_a)"
  "sections_of site [(site_question, (1, leaf_zone [119] [(10, 0, 0, 3)]) # ptr_a)] =
     \<lparr>sec_answers = [(qv_labels site_question, RdataA (10, 0, 0, 3))], sec_authority = [],
      sec_additional = [], sec_authorative = True\<rparr>"
  by code_simp+

theorem server_total_witness: "\<exists>b. fst (receive_one site site_query sample_worker) = Inr (Some b)"
proof -
  have "length site_query < length (wk_query sample_worker)" by (simp add: site_query_def sample_worker_def)
  from server_total [OF site_valid this] obtain answer where a:
    "fst (receive_one site site_query sample_worker) = Inr answer"
    "answer = None \<Longrightarrow> length site_query < 12 \<or>
       (\<exists>q e. decode_question site_query 12 = Some (q, e) \<and> question_outcome site q = Inl UnknownDomain)"
    by blast
  have "\<not> length site_query < 12" by code_simp
  have "asked site_query 12 (question_of site_question 0)" by code_simp
  from asked_decode [OF this] have "map_option fst (decode_question site_query 12) = Some site_question"
    by simp
  with a site_question_answer(1) \<open>\<not> length site_query < 12\<close> show ?thesis by (cases answer) auto
qed

text \<open>The same site with a zone \<open>e\<close> in \<open>a.com\<close>, and in this the alias \<open>l\<close>, as in the configuration that comes with the program.\<close>

definition deep_site :: env where
  "deep_site = site\<lparr>env_zones := [zone_com (Zone [97] [] [\<lparr>ns_fqdn = [110]\<rparr>] [] [] (Some soa_defaults)
     [Zone [101] [] [] [] [] None [zone_l] False] True)]\<rparr>"

text \<open>The zone \<open>e\<close> itself is answered for there, although the configuration has a zone for which the search does not end.\<close>

definition near_question :: question_view where
  "near_question = \<lparr>qv_labels = [[101], [97], [99, 111, 109]], qv_type = 1, qv_class = 1\<rparr>"

definition near_query :: bytes where
  "near_query = [0x12, 0x34, 1, 0, 0, 1, 0, 0, 0, 0, 0, 0,
     1, 101, 1, 97, 3, 99, 111, 109, 0, 0, 1, 0, 1]"

theorem server_answers_query_witness:
  "\<exists>answer. fst (receive_one deep_site near_query sample_worker) = Inr answer \<and>
     expected deep_site site_header 1 near_question answer"
proof (rule server_answers_query)
  show "asked_ready deep_site (qv_labels near_question)"
  proof -
    have "case fst (resolve deep_site (qv_labels near_question)) of None \<Rightarrow> False
      | Some zone \<Rightarrow> zone_valid deep_site zone \<and> soa_near zone \<and>
          (case nearest_soa zone of None \<Rightarrow> False | Some sz \<Rightarrow> zone_valid deep_site sz \<and> zsoa (target sz) \<noteq> None)" by code_simp
    then show ?thesis by (auto simp: asked_ready_def zone_ready_def split: option.splits)
  qed
  show "parse_header near_query (length near_query) = Inr site_header" by code_simp
  show "\<not> GetQr site_header" "GetOpcode site_header = 0" by code_simp+
  show "1 = unat (hdr_qdcount site_header)" by (simp add: site_header_def)
  show "(0 :: nat) < 1" by simp
  show "well_asked deep_site near_query 1 near_question" by code_simp
qed

definition deep_query :: bytes where
  "deep_query = [0x12, 0x34, 1, 0, 0, 1, 0, 0, 0, 0, 0, 0,
     1, 108, 1, 101, 1, 97, 3, 99, 111, 109, 0, 0, 5, 0, 1]"

theorem deep_zone_hangs_witness: "fst (receive_one deep_site deep_query sample_worker) = Inl UndefinedBehaviour"
proof -
  let ?q = "\<lparr>qv_labels = [[108], [101], [97], [99, 111, 109]], qv_type = 5, qv_class = 1\<rparr>"
  obtain zone a where z: "resolve deep_site (qv_labels ?q) = (Some zone, a)" "tl zone \<noteq> []"
      "zsoa (target zone) = None" "zsoa (target (tl zone)) = None"
  proof -
    have "case resolve deep_site (qv_labels ?q) of (Some zone, a) \<Rightarrow> tl zone \<noteq> [] \<and>
        zsoa (target zone) = None \<and> zsoa (target (tl zone)) = None | (None, a) \<Rightarrow> False" by code_simp
    then show thesis by (auto split: prod.splits option.splits intro: that)
  qed
  have "parse_header deep_query (length deep_query) = Inr site_header" by code_simp
  moreover have "\<not> GetQr site_header" "GetOpcode site_header = 0" by code_simp+
  moreover have "1 = unat (hdr_qdcount site_header)" by (simp add: site_header_def)
  moreover have "well_asked deep_site deep_query 1 ?q" by code_simp
  ultimately show ?thesis by (intro deep_zone_hangs [OF _ _ _ _ _ _ z]) simp_all
qed

end
