(* ===== verification/HttpRequest.thy ===== *)
theory HttpRequest
  imports Prelude
begin

text \<open>
  A parsed HTTP request: \<open>HttpRequest\<close> of \<open>src/httpd/HttpRequest.h\<close> and \<open>HttpRequest.cpp\<close>,
  and the entry to the parser, \<open>HttpRequestParser::Parse\<close> and \<open>ParseHttpRequest\<close>. What
  runs inside Boost.Spirit is a parameter here; \<open>HttpGrammar\<close> models the grammar.
\<close>

section \<open>State\<close>

datatype Version = HTTP_1_0 | HTTP_1_1 | VERSION_UNKNOWN

datatype Method = GET | OPTIONS | HEAD | POST | PUT | DELETE | TRACE | CONNECT | METHOD_UNKNOWN

record HttpRequest =
  version :: Version
  meth :: Method
  port :: u16
  do_not_track :: bool
  request_length :: u32
  uri :: bytes
  host :: bytes
  accept_encoding_deflate :: bool
  accept_encoding_gzip :: bool

definition new_HttpRequest :: HttpRequest where
  "new_HttpRequest = \<lparr>version = VERSION_UNKNOWN, meth = METHOD_UNKNOWN, port = 0,
     do_not_track = False, request_length = 0, uri = [], host = [],
     accept_encoding_deflate = False, accept_encoding_gzip = False\<rparr>"

definition Reset_request :: "HttpRequest \<Rightarrow> HttpRequest" where
  "Reset_request r = r\<lparr>version := VERSION_UNKNOWN, meth := METHOD_UNKNOWN, port := 0,
     do_not_track := False, request_length := 0, uri := [], host := [],
     accept_encoding_deflate := False, accept_encoding_gzip := False\<rparr>"

text \<open>The reset that stands in for the parser in measurements keeps the two encodings.\<close>

definition FakeReset :: "HttpRequest \<Rightarrow> HttpRequest" where
  "FakeReset r = r\<lparr>version := HTTP_1_1, meth := GET, port := 0, do_not_track := False,
     request_length := 0, uri := bytes_of ''/'', host := bytes_of ''1.onebillionsites.com:8080''\<rparr>"

text \<open>The move assignment copies every field.\<close>

definition move_assign :: "HttpRequest \<Rightarrow> HttpRequest \<Rightarrow> HttpRequest" where
  "move_assign r v = r\<lparr>version := version v, meth := meth v, port := port v,
     do_not_track := do_not_track v, request_length := request_length v, uri := uri v,
     host := host v, accept_encoding_deflate := accept_encoding_deflate v,
     accept_encoding_gzip := accept_encoding_gzip v\<rparr>"

definition CloseOnReply :: "HttpRequest \<Rightarrow> bool" where
  "CloseOnReply r \<longleftrightarrow> version r = HTTP_1_0"

section \<open>Names\<close>

fun method_index :: "Method \<Rightarrow> nat" where
  "method_index GET = 0"
| "method_index OPTIONS = 1"
| "method_index HEAD = 2"
| "method_index POST = 3"
| "method_index PUT = 4"
| "method_index DELETE = 5"
| "method_index TRACE = 6"
| "method_index CONNECT = 7"
| "method_index METHOD_UNKNOWN = 8"

definition method_names :: "bytes list" where
  "method_names = map bytes_of [''GET'', ''OPTIONS'', ''HEAD'', ''POST'', ''PUT'', ''DELETE'',
     ''TRACE'', ''CONNECT'', ''UNKNOWN'']"

definition GetMethodName :: "HttpRequest \<Rightarrow> bytes" where
  "GetMethodName r = method_names ! method_index (meth r)"

fun version_index :: "Version \<Rightarrow> nat" where
  "version_index HTTP_1_0 = 0"
| "version_index HTTP_1_1 = 1"
| "version_index VERSION_UNKNOWN = 2"

definition version_names :: "bytes list" where
  "version_names = map bytes_of [''HTTP/1.0'', ''HTTP/1.1'', ''UNKNOWN'']"

definition GetHttpVersionName :: "HttpRequest \<Rightarrow> bytes" where
  "GetHttpVersionName r = version_names ! version_index (version r)"

section \<open>Parsing\<close>

text \<open>
  \<open>spirit\<close> is \<open>tokenize_and_parse\<close> with the lexer and the grammar: from the input and the
  grammar's request it gives whether it succeeded, the request after the semantic actions,
  and how many bytes it consumed. The grammar's request survives a failure, and a reset
  precedes every parse.
\<close>

type_synonym spirit = "bytes \<Rightarrow> HttpRequest \<Rightarrow> bool \<times> HttpRequest \<times> nat"

definition Parse :: "spirit \<Rightarrow> bytes \<Rightarrow> HttpRequest \<Rightarrow> HttpRequest \<Rightarrow> bool \<times> HttpRequest \<times> HttpRequest" where
  "Parse spirit input grammar_req req =
     (let (success, parsed, consumed) = spirit input (Reset_request grammar_req)
      in if success then (True, (move_assign req parsed)\<lparr>request_length := of_nat consumed\<rparr>, parsed)
         else (False, req, parsed))"

text \<open>
  The parser is cached in thread-local storage: \<open>ParseHttpRequest\<close> hands the grammar's
  request from one call to the next.
\<close>

definition ParseHttpRequest ::
  "spirit \<Rightarrow> bytes \<Rightarrow> HttpRequest \<Rightarrow> HttpRequest \<Rightarrow> bool \<times> HttpRequest \<times> HttpRequest" where
  "ParseHttpRequest spirit input grammar_req req = Parse spirit input grammar_req req"

lemma Reset_request_new [simp]: "Reset_request r = new_HttpRequest"
  by (simp add: Reset_request_def new_HttpRequest_def)

lemma move_assign_all [simp]: "move_assign r v = v"
  by (simp add: move_assign_def)

text \<open>
  A cached parser parses as a new one does: what an earlier request left behind, in the
  grammar or in the connection, has no influence on the result of a successful parse, and a
  failed parse leaves the connection's request alone.
\<close>

theorem parse_forgets:
  "case ParseHttpRequest spirit input grammar_req req of
     (True, req', _) \<Rightarrow> ParseHttpRequest spirit input new_HttpRequest new_HttpRequest =
       (True, req', snd (snd (ParseHttpRequest spirit input new_HttpRequest new_HttpRequest))) \<and>
       (\<exists>v n. spirit input new_HttpRequest = (True, v, n) \<and> req' = v\<lparr>request_length := of_nat n\<rparr>)
   | (False, req', _) \<Rightarrow> req' = req"
  by (cases "spirit input new_HttpRequest")
     (auto simp: ParseHttpRequest_def Parse_def split: bool.splits)

text \<open>Every method and every version has a name of its own, and no lookup is out of range.\<close>

theorem names_distinct:
  "method_index (meth r) < length method_names \<and> version_index (version r) < length version_names \<and>
   (GetMethodName r = GetMethodName s \<longleftrightarrow> meth r = meth s) \<and>
   (GetHttpVersionName r = GetHttpVersionName s \<longleftrightarrow> version r = version s)"
proof -
  have m: "method_index a < length method_names" "method_index a = method_index b \<longleftrightarrow> a = b" for a b
    by (cases a; cases b; simp add: method_names_def)+
  have v: "version_index a < length version_names" "version_index a = version_index b \<longleftrightarrow> a = b" for a b
    by (cases a; cases b; simp add: version_names_def)+
  have "distinct method_names" "distinct version_names" by code_simp+
  then show ?thesis
    unfolding GetMethodName_def GetHttpVersionName_def using m v by (simp add: nth_eq_iff_index_eq)
qed

end
