(* ===== verification/HttpReply.thy ===== *)
theory HttpReply
  imports HttpRequest
begin

text \<open>
  Building an HTTP reply: class \<open>CurrentReply\<close> of \<open>src/httpd/HttpDaemon.cpp\<close>. The two
  compressors of Boost.Iostreams and the rendering of the date are parameters.
\<close>

section \<open>State\<close>

datatype layer = GzipCompressor | ZlibCompressor | BackInserter

text \<open>
  \<open>body_\<close> is a chain of layers with the text written to it that no flush has pushed through
  yet; \<open>body_str_\<close> is the string behind the chain. \<open>buffers_\<close> holds what its entries point to.
\<close>

record CurrentReply =
  cr_header :: bytes
  cr_body :: bytes
  cr_layers :: "layer list"
  cr_header_str :: bytes
  cr_body_str :: bytes
  cr_close_on_reply :: bool
  cr_buffers :: "bytes list"
  cr_compression_type :: "bytes option"
  cr_now :: int
  cr_bytes_in_reply :: nat

definition new_reply :: CurrentReply where
  "new_reply = \<lparr>cr_header = [], cr_body = [], cr_layers = [], cr_header_str = [], cr_body_str = [],
     cr_close_on_reply = False, cr_buffers = [], cr_compression_type = None, cr_now = 0,
     cr_bytes_in_reply = 0\<rparr>"

record reply_env =
  re_gzip :: "bytes \<Rightarrow> bytes"
  re_zlib :: "bytes \<Rightarrow> bytes"
  re_date :: "int \<Rightarrow> bytes"

section \<open>Operations\<close>

text \<open>Writing to \<open>Out()\<close>.\<close>

definition write_out :: "bytes \<Rightarrow> CurrentReply \<Rightarrow> CurrentReply" where
  "write_out content r = r\<lparr>cr_body := cr_body r @ content\<rparr>"

fun through :: "reply_env \<Rightarrow> layer list \<Rightarrow> bytes \<Rightarrow> bytes" where
  "through env [] x = x"
| "through env (GzipCompressor # ls) x = through env ls (re_gzip env x)"
| "through env (ZlibCompressor # ls) x = through env ls (re_zlib env x)"
| "through env (BackInserter # ls) x = through env ls x"

text \<open>
  \<open>ResetStreamLayers\<close>: the first \<open>pop\<close> closes the chain, which flushes what it holds into the
  string; without layers there is no chain to flush.
\<close>

definition ResetStreamLayers :: "reply_env \<Rightarrow> CurrentReply \<Rightarrow> CurrentReply" where
  "ResetStreamLayers env r =
     (if cr_layers r = [] then r
      else r\<lparr>cr_body_str := cr_body_str r @ through env (cr_layers r) (cr_body r),
             cr_body := [], cr_layers := []\<rparr>)"

definition Reset_reply :: "reply_env \<Rightarrow> CurrentReply \<Rightarrow> CurrentReply" where
  "Reset_reply env r =
     (ResetStreamLayers env r)\<lparr>cr_header := [], cr_body := [], cr_layers := [], cr_body_str := [],
        cr_header_str := [], cr_compression_type := None, cr_bytes_in_reply := 0\<rparr>"

text \<open>\<open>now\<close> is what \<open>std::time\<close> returns.\<close>

definition Prepare :: "reply_env \<Rightarrow> int \<Rightarrow> bool \<Rightarrow> bool \<Rightarrow> HttpRequest \<Rightarrow> CurrentReply \<Rightarrow> CurrentReply" where
  "Prepare env now allow_gzip allow_deflate req r =
     (let r1 = (Reset_reply env r)\<lparr>cr_now := now\<rparr>;
          r2 = (if accept_encoding_gzip req \<and> allow_gzip
                then r1\<lparr>cr_layers := cr_layers r1 @ [GzipCompressor],
                        cr_compression_type := Some (bytes_of ''gzip'')\<rparr>
                else if accept_encoding_deflate req \<and> allow_deflate
                then r1\<lparr>cr_layers := cr_layers r1 @ [ZlibCompressor],
                        cr_compression_type := Some (bytes_of ''deflate'')\<rparr>
                else r1)
      in r2\<lparr>cr_layers := cr_layers r2 @ [BackInserter]\<rparr>)"

definition crlf :: bytes where
  "crlf = [13, 10]"

text \<open>A number as \<open>operator <<\<close> prints it.\<close>

definition digit :: "nat \<Rightarrow> byte" where
  "digit n = 48 + of_nat n"

fun decimal :: "nat \<Rightarrow> bytes" where
  "decimal n = (if n < 10 then [digit n] else decimal (n div 10) @ [digit (n mod 10)])"

declare decimal.simps [simp del]

definition status_line :: "nat \<Rightarrow> bytes \<Rightarrow> HttpRequest \<Rightarrow> bytes" where
  "status_line code msg req = GetHttpVersionName req @ bytes_of '' '' @ decimal code @ bytes_of '' '' @ msg"

definition server_line :: bytes where
  "server_line = bytes_of ''Server: vUbercool/'' @ decimal 0 @ bytes_of ''.'' @ decimal 20"

definition length_line :: "nat \<Rightarrow> bytes" where
  "length_line n = bytes_of ''Content-Length: '' @ decimal n"

text \<open>The lines of the header, in the order \<open>DoReply\<close> streams them.\<close>

definition header_lines :: "nat \<Rightarrow> bytes \<Rightarrow> HttpRequest \<Rightarrow> bytes \<Rightarrow> CurrentReply \<Rightarrow> bytes list" where
  "header_lines code msg req date r =
     [status_line code msg req, date, server_line, length_line (length (cr_body_str r)),
      bytes_of ''Content-Type: text/html; charset=utf-8''] @
     (case cr_compression_type r of
        None \<Rightarrow> [] | Some c \<Rightarrow> [bytes_of ''Content-Encoding: '' @ c]) @
     (if cr_close_on_reply r then [bytes_of ''Connection: Close'']
      else [bytes_of ''Connection: Keep-Alive'', bytes_of ''Keep-Alive: timeout=5, max=100''])"

definition unlines_crlf :: "bytes list \<Rightarrow> bytes" where
  "unlines_crlf ls = concat (map (\<lambda>l. l @ crlf) ls)"

text \<open>
  The thread's cached date is rendered again unless \<open>now_\<close> equals \<open>last_time\<close>, which nothing
  ever changes from zero.
\<close>

definition DoReply ::
  "reply_env \<Rightarrow> nat \<Rightarrow> bytes \<Rightarrow> HttpRequest \<Rightarrow> bytes \<times> CurrentReply \<Rightarrow> bytes \<times> CurrentReply" where
  "DoReply env code msg req st =
     (let (date0, r) = st;
          r1 = ResetStreamLayers env r;
          date = (if cr_now r1 \<noteq> 0 then re_date env (cr_now r1) else date0);
          text = cr_header r1 @ unlines_crlf (header_lines code msg req date r1) @ crlf;
          r2 = r1\<lparr>cr_header := text, cr_header_str := text, cr_buffers := [text],
                  cr_bytes_in_reply := cr_bytes_in_reply r1 + length text\<rparr>
      in (date, if meth req \<noteq> HEAD
                then r2\<lparr>cr_buffers := cr_buffers r2 @ [cr_body_str r2],
                        cr_bytes_in_reply := cr_bytes_in_reply r2 + length (cr_body_str r2)\<rparr>
                else r2))"

definition Reply :: "reply_env \<Rightarrow> nat \<Rightarrow> HttpRequest \<Rightarrow> bytes \<times> CurrentReply \<Rightarrow> bytes \<times> CurrentReply" where
  "Reply env code req st =
     DoReply env code (bytes_of ''OK'') req
       (fst st, (snd st)\<lparr>cr_close_on_reply := CloseOnReply req\<rparr>)"

definition ReplyWithError ::
  "reply_env \<Rightarrow> int \<Rightarrow> nat \<Rightarrow> bytes \<Rightarrow> HttpRequest \<Rightarrow> bytes \<times> CurrentReply \<Rightarrow> bytes \<times> CurrentReply" where
  "ReplyWithError env now code content req st =
     (let r1 = Prepare env now False False req ((snd st)\<lparr>cr_close_on_reply := True\<rparr>)
      in DoReply env code content req (fst st, write_out content r1))"

section \<open>What a client reads\<close>

text \<open>
  The reference reader of a reply: the lines up to the empty one, then as many bytes as the
  line \<open>Content-Length\<close> says, unless the request was for the head only.
\<close>

fun split_line :: "bytes \<Rightarrow> (bytes \<times> bytes) option" where
  "split_line (a # b # xs) =
     (if a = 13 \<and> b = 10 then Some ([], xs)
      else Option.bind (split_line (b # xs)) (\<lambda>(l, rest). Some (a # l, rest)))"
| "split_line _ = None"

fun read_header :: "nat \<Rightarrow> bytes \<Rightarrow> (bytes list \<times> bytes) option" where
  "read_header 0 xs = None"
| "read_header (Suc fuel) xs =
     Option.bind (split_line xs) (\<lambda>(l, rest).
       if l = [] then Some ([], rest)
       else Option.bind (read_header fuel rest) (\<lambda>(ls, rest'). Some (l # ls, rest')))"

fun number :: "nat \<Rightarrow> bytes \<Rightarrow> nat" where
  "number acc [] = acc"
| "number acc (d # ds) = number (acc * 10 + unat (d - 48)) ds"

definition length_prefix :: bytes where
  "length_prefix = bytes_of ''Content-Length: ''"

definition content_length :: "bytes list \<Rightarrow> nat option" where
  "content_length ls =
     (case filter (\<lambda>l. take (length length_prefix) l = length_prefix) ls of
        [l] \<Rightarrow> Some (number 0 (drop (length length_prefix) l))
      | _ \<Rightarrow> None)"

definition read_reply :: "bool \<Rightarrow> bytes \<Rightarrow> (bytes list \<times> bytes \<times> bytes) option" where
  "read_reply head_only input =
     Option.bind (read_header (length input) input) (\<lambda>(ls, rest).
       if head_only then Some (ls, [], rest)
       else Option.bind (content_length ls) (\<lambda>n.
         if n \<le> length rest then Some (ls, take n rest, drop n rest) else None))"

section \<open>The reply can be read\<close>

definition line_ok :: "bytes \<Rightarrow> bool" where
  "line_ok l \<longleftrightarrow> l \<noteq> [] \<and> 13 \<notin> set l"

lemma split_line_crlf: "13 \<notin> set l \<Longrightarrow> split_line (l @ crlf @ rest) = Some (l, rest)"
proof (induction l)
  case (Cons a l)
  then show ?case by (cases "l @ crlf @ rest") (auto simp: crlf_def)
qed (simp add: crlf_def)

lemma read_header_lines:
  assumes "\<forall>l \<in> set ls. line_ok l" "length ls < fuel"
  shows "read_header fuel (unlines_crlf ls @ crlf @ rest) = Some (ls, rest)"
  using assms
proof (induction ls arbitrary: fuel)
  case Nil
  then obtain f where "fuel = Suc f" by (cases fuel) auto
  then show ?case using split_line_crlf [of "[]" rest] by (simp add: unlines_crlf_def)
next
  case (Cons l ls)
  then obtain f where f: "fuel = Suc f" "length ls < f" by (cases fuel) auto
  from Cons.prems have "l \<noteq> []" "13 \<notin> set l" by (auto simp: line_ok_def)
  with f Cons split_line_crlf [of l "unlines_crlf ls @ crlf @ rest"] show ?case
    by (simp add: unlines_crlf_def)
qed

lemma length_unlines_crlf: "length ls \<le> length (unlines_crlf ls)"
  by (induction ls) (auto simp: unlines_crlf_def crlf_def)

lemma number_append: "number acc (xs @ [d]) = number acc xs * 10 + unat (d - 48)"
  by (induction xs arbitrary: acc) auto

lemma unat_digit: "n < 10 \<Longrightarrow> unat (digit n - 48) = n"
  by (simp add: digit_def unat_of_nat take_bit_eq_mod)

lemma number_decimal: "number 0 (decimal n) = n"
proof (induction n rule: decimal.induct)
  case (1 n)
  then show ?case
    by (subst decimal.simps) (simp add: number_append unat_digit)
qed

lemma digit_not_cr: "n < 10 \<Longrightarrow> digit n \<noteq> 13"
proof -
  assume "n < 10"
  then have "unat (digit n) = 48 + n"
    by (simp add: digit_def unat_word_ariths unat_of_nat take_bit_eq_mod)
  then show ?thesis by auto
qed

lemma decimal_no_cr [simp]: "13 \<notin> set (decimal n)"
proof (induction n rule: decimal.induct)
  case (1 n)
  then show ?case
    using digit_not_cr [of n] digit_not_cr [of "n mod 10"] by (subst decimal.simps) auto
qed

lemma decimal_not_empty [simp]: "decimal n \<noteq> []"
  by (subst decimal.simps) simp

lemma texts_no_cr [simp]:
  "13 \<notin> set (bytes_of '' '')" "13 \<notin> set (bytes_of ''Server: vUbercool/'')" "13 \<notin> set (bytes_of ''.'')"
  "13 \<notin> set (bytes_of ''Content-Length: '')"
  "13 \<notin> set (bytes_of ''Content-Type: text/html; charset=utf-8'')"
  "13 \<notin> set (bytes_of ''Content-Encoding: '')" "13 \<notin> set (bytes_of ''Connection: Close'')"
  "13 \<notin> set (bytes_of ''Connection: Keep-Alive'')"
  "13 \<notin> set (bytes_of ''Keep-Alive: timeout=5, max=100'')" "13 \<notin> set (bytes_of ''OK'')"
  by code_simp+

lemma bytes_of_empty [simp]: "bytes_of s = [] \<longleftrightarrow> s = []"
  by (simp add: bytes_of_def)

lemma length_bytes_of [simp]: "length (bytes_of s) = length s"
  by (simp add: bytes_of_def)

lemma version_line: "line_ok (GetHttpVersionName req) \<and> hd (GetHttpVersionName req) \<noteq> 67"
proof -
  have "list_all (\<lambda>v. v \<noteq> [] \<and> (13 :: byte) \<notin> set v \<and> hd v \<noteq> 67) version_names" by code_simp
  moreover have "GetHttpVersionName req \<in> set version_names"
    unfolding GetHttpVersionName_def by (cases "version req") (simp_all add: version_names_def)
  ultimately show ?thesis by (auto simp: list_all_iff line_ok_def)
qed

text \<open>What the rendering of the date is relied on for: a line that is not a length.\<close>

definition date_ok :: "bytes \<Rightarrow> bool" where
  "date_ok d \<longleftrightarrow> line_ok d \<and> hd d \<noteq> 67"

definition compression_ok :: "CurrentReply \<Rightarrow> bool" where
  "compression_ok r \<longleftrightarrow> (case cr_compression_type r of None \<Rightarrow> True | Some c \<Rightarrow> 13 \<notin> set c)"

lemma header_lines_ok:
  assumes "13 \<notin> set msg" "date_ok date" "compression_ok r"
  shows "\<forall>l \<in> set (header_lines code msg req date r). line_ok l"
  using assms version_line [of req]
  by (auto simp: header_lines_def status_line_def server_line_def length_line_def line_ok_def
      date_ok_def compression_ok_def split: option.splits if_splits)

lemma starts_with_C: "take (length length_prefix) l = length_prefix \<Longrightarrow> l \<noteq> [] \<and> hd l = 67"
proof -
  assume eq: "take (length length_prefix) l = length_prefix"
  have p: "length length_prefix = 16" "hd length_prefix = 67" "length_prefix \<noteq> []" by code_simp+
  with eq have "l \<noteq> []" by auto
  with eq p show ?thesis by (metis hd_take zero_less_numeral)
qed

lemma not_lengths:
  "take (length length_prefix) (bytes_of ''Content-Type: text/html; charset=utf-8'') \<noteq> length_prefix"
  "take (length length_prefix) (bytes_of ''Connection: Close'') \<noteq> length_prefix"
  "take (length length_prefix) (bytes_of ''Connection: Keep-Alive'') \<noteq> length_prefix"
  "take (length length_prefix) (bytes_of ''Keep-Alive: timeout=5, max=100'') \<noteq> length_prefix"
  "take (length length_prefix) (bytes_of ''Content-Encoding: '') \<noteq> length_prefix"
  "hd server_line \<noteq> 67" "length length_prefix = 16" "length (bytes_of ''Content-Encoding: '') = 18"
  by code_simp+

lemma content_length_lines:
  assumes "date_ok date"
  shows "content_length (header_lines code msg req date r) = Some (length (cr_body_str r))"
proof -
  let ?is = "\<lambda>l. take (length length_prefix) l = length_prefix"
  have "\<not> ?is (status_line code msg req)"
    using version_line [of req] starts_with_C [of "status_line code msg req"]
    by (auto simp: status_line_def line_ok_def)
  moreover have "\<not> ?is date" using assms starts_with_C by (auto simp: date_ok_def)
  moreover have "\<not> ?is server_line" using not_lengths(6) starts_with_C by blast
  moreover have "?is (length_line n) \<and> drop (length length_prefix) (length_line n) = decimal n" for n
    by (simp add: length_line_def length_prefix_def)
  moreover have "\<not> ?is (bytes_of ''Content-Encoding: '' @ c)" for c
    using not_lengths(5,7,8) by simp
  ultimately have "filter ?is (header_lines code msg req date r) = [length_line (length (cr_body_str r))]"
    using not_lengths(1-4) by (auto simp: header_lines_def split: option.splits)
  then show ?thesis
    by (simp add: content_length_def number_decimal length_line_def length_prefix_def)
qed

lemma DoReply_readable:
  assumes "DoReply env code msg req (date0, r) = (date, r')" "cr_header r = []" "cr_bytes_in_reply r = 0"
    and "13 \<notin> set msg" "date_ok date" "compression_ok r"
  shows "let body = cr_body_str (ResetStreamLayers env r) in
     read_reply (meth req = HEAD) (concat (cr_buffers r') @ rest) =
       Some (header_lines code msg req date (ResetStreamLayers env r),
             if meth req = HEAD then [] else body, rest) \<and>
     cr_bytes_in_reply r' = length (concat (cr_buffers r')) \<and>
     cr_close_on_reply r' = cr_close_on_reply r"
proof -
  let ?r1 = "ResetStreamLayers env r"
  let ?ls = "header_lines code msg req date ?r1"
  have kept: "cr_header ?r1 = []" "cr_bytes_in_reply ?r1 = 0" "compression_ok ?r1"
      "cr_close_on_reply ?r1 = cr_close_on_reply r"
    using assms(2,3,6) by (simp_all add: ResetStreamLayers_def compression_ok_def)
  from header_lines_ok [OF assms(4,5) kept(3)] have lines: "\<forall>l \<in> set ?ls. line_ok l" .
  let ?text = "unlines_crlf ?ls @ crlf" and ?body = "if meth req = HEAD then [] else cr_body_str ?r1"
  have head: "read_header (length (?text @ more)) (?text @ more) = Some (?ls, more)" for more
  proof -
    have "length ?ls < length (?text @ more)"
      using length_unlines_crlf [of ?ls] by (simp add: crlf_def)
    then show ?thesis using read_header_lines [OF lines] by simp
  qed
  have sent: "concat (cr_buffers r') = ?text @ ?body" "cr_bytes_in_reply r' = length (?text @ ?body)"
      "cr_close_on_reply r' = cr_close_on_reply ?r1"
    using assms(1) kept by (auto simp: DoReply_def Let_def split: if_splits)
  have "read_reply (meth req = HEAD) (?text @ ?body @ rest) = Some (?ls, ?body, rest)"
    unfolding read_reply_def head
    using content_length_lines [OF assms(5), of code msg req ?r1] by simp
  with sent kept(4) show ?thesis by (simp add: Let_def)
qed

text \<open>The body a client gets for the text a host wrote.\<close>

definition encoded :: "reply_env \<Rightarrow> bool \<Rightarrow> bool \<Rightarrow> HttpRequest \<Rightarrow> bytes \<Rightarrow> bytes" where
  "encoded env allow_gzip allow_deflate req content =
     (if accept_encoding_gzip req \<and> allow_gzip then re_gzip env content
      else if accept_encoding_deflate req \<and> allow_deflate then re_zlib env content
      else content)"

lemma Prepare_state:
  "let r = write_out content (Prepare env now ag ad req r0) in
     cr_header r = [] \<and> cr_bytes_in_reply r = 0 \<and> compression_ok r \<and> cr_now r = now \<and>
     cr_body_str (ResetStreamLayers env r) = encoded env ag ad req content \<and>
     cr_close_on_reply r = cr_close_on_reply r0"
proof -
  have "13 \<notin> set (bytes_of ''gzip'')" "13 \<notin> set (bytes_of ''deflate'')" by code_simp+
  then show ?thesis
    by (simp add: Prepare_def Reset_reply_def ResetStreamLayers_def write_out_def encoded_def
        compression_ok_def Let_def)
qed

lemma DoReply_date: "DoReply env code msg req (date0, r) = (date, r') \<Longrightarrow>
    date = (if cr_now r \<noteq> 0 then re_date env (cr_now r) else date0)"
  by (auto simp: DoReply_def Let_def ResetStreamLayers_def split: if_splits)

lemma Reply_read:
  assumes "now \<noteq> 0" "date_ok (re_date env now)"
  shows "let r = snd (Reply env code req (date0, write_out content (Prepare env now ag ad req r0))) in
     (\<exists>ls. read_reply (meth req = HEAD) (concat (cr_buffers r) @ rest) =
        Some (status_line code (bytes_of ''OK'') req # ls,
              if meth req = HEAD then [] else encoded env ag ad req content, rest)) \<and>
     cr_bytes_in_reply r = length (concat (cr_buffers r)) \<and>
     cr_close_on_reply r = (version req = HTTP_1_0)"
proof -
  let ?r = "(write_out content (Prepare env now ag ad req r0))\<lparr>cr_close_on_reply := CloseOnReply req\<rparr>"
  obtain date r' where d: "DoReply env code (bytes_of ''OK'') req (date0, ?r) = (date, r')"
    by (cases "DoReply env code (bytes_of ''OK'') req (date0, ?r)")
  have st: "cr_header ?r = []" "cr_bytes_in_reply ?r = 0" "compression_ok ?r" "cr_now ?r = now"
      "cr_body_str (ResetStreamLayers env ?r) = encoded env ag ad req content"
    using Prepare_state [of content env now ag ad req r0]
    by (auto simp: Let_def compression_ok_def ResetStreamLayers_def)
  with DoReply_date [OF d] assms have "date_ok date" by simp
  from DoReply_readable [OF d st(1,2) texts_no_cr(10) this st(3), of rest] st(5) d show ?thesis
    by (auto simp: Reply_def header_lines_def Let_def CloseOnReply_def)
qed

lemma ReplyWithError_read:
  assumes "now \<noteq> 0" "date_ok (re_date env now)" "13 \<notin> set content"
  shows "let r = snd (ReplyWithError env now code content req (date0, r0)) in
     (\<exists>ls. read_reply (meth req = HEAD) (concat (cr_buffers r) @ rest) =
        Some (status_line code content req # ls, if meth req = HEAD then [] else content, rest)) \<and>
     cr_bytes_in_reply r = length (concat (cr_buffers r)) \<and> cr_close_on_reply r"
proof -
  let ?r = "write_out content (Prepare env now False False req (r0\<lparr>cr_close_on_reply := True\<rparr>))"
  obtain date r' where d: "DoReply env code content req (date0, ?r) = (date, r')"
    by (cases "DoReply env code content req (date0, ?r)")
  have st: "cr_header ?r = []" "cr_bytes_in_reply ?r = 0" "compression_ok ?r" "cr_now ?r = now"
      "cr_body_str (ResetStreamLayers env ?r) = content" "cr_close_on_reply ?r"
    using Prepare_state [of content env now False False req "r0\<lparr>cr_close_on_reply := True\<rparr>"]
    by (auto simp: Let_def encoded_def)
  with DoReply_date [OF d] assms have "date_ok date" by simp
  from DoReply_readable [OF d st(1,2) assms(3) this st(3), of rest] st(5,6) d show ?thesis
    by (auto simp: ReplyWithError_def header_lines_def Let_def)
qed

text \<open>
  C33: a client that reads the header lines and then as many bytes as the length line says
  gets the status line and exactly the encoded body of a good reply, or no body for a request
  of the head, and is left with what follows the reply on the connection. The count of bytes
  is that of the buffers sent, and the reply closes the connection exactly for HTTP 1.0.
  Nothing of an earlier reply on the connection is in it.
\<close>

theorem reply_readable:
  assumes "now \<noteq> 0" "date_ok (re_date env now)"
  shows "let r = snd (Reply env code req (date0, write_out content (Prepare env now ag ad req r0))) in
     (\<exists>ls. read_reply (meth req = HEAD) (concat (cr_buffers r) @ rest) =
        Some (status_line code (bytes_of ''OK'') req # ls,
              if meth req = HEAD then [] else encoded env ag ad req content, rest)) \<and>
     cr_bytes_in_reply r = length (concat (cr_buffers r)) \<and>
     cr_close_on_reply r = (version req = HTTP_1_0)"
  using assms by (rule Reply_read)

text \<open>
  An error reply is read the same way: its body is the message, never compressed, and it
  always closes the connection, whatever the host had written before.
\<close>

theorem error_reply_readable:
  assumes "now \<noteq> 0" "date_ok (re_date env now)" "13 \<notin> set content"
  shows "let r = snd (ReplyWithError env now code content req (date0, r0)) in
     (\<exists>ls. read_reply (meth req = HEAD) (concat (cr_buffers r) @ rest) =
        Some (status_line code content req # ls, if meth req = HEAD then [] else content, rest)) \<and>
     cr_bytes_in_reply r = length (concat (cr_buffers r)) \<and> cr_close_on_reply r"
  using assms by (rule ReplyWithError_read)

definition sample_reply_env :: reply_env where
  "sample_reply_env = \<lparr>re_gzip = rev, re_zlib = (\<lambda>x. x), re_date = (\<lambda>_. bytes_of ''Mon'')\<rparr>"

lemma sample_date_ok: "date_ok (re_date sample_reply_env 1)"
  by code_simp

definition sample_request :: HttpRequest where
  "sample_request = new_HttpRequest\<lparr>version := HTTP_1_1, meth := GET, uri := bytes_of ''/'',
     accept_encoding_gzip := True\<rparr>"

theorem reply_readable_witness:
  "let r = snd (Reply sample_reply_env 200 sample_request
       ([], write_out [1, 2, 3] (Prepare sample_reply_env 1 True True sample_request new_reply))) in
     (\<exists>ls. read_reply (meth sample_request = HEAD) (concat (cr_buffers r) @ [9]) =
        Some (status_line 200 (bytes_of ''OK'') sample_request # ls, if meth sample_request = HEAD then []
                  else encoded sample_reply_env True True sample_request [1, 2, 3], [9])) \<and>
     cr_bytes_in_reply r = length (concat (cr_buffers r)) \<and>
     cr_close_on_reply r = (version sample_request = HTTP_1_0)"
  by (rule reply_readable [OF _ sample_date_ok]) simp

theorem error_reply_readable_witness:
  "let r = snd (ReplyWithError sample_reply_env 1 404 [78, 111] sample_request ([], new_reply)) in
     (\<exists>ls. read_reply (meth sample_request = HEAD) (concat (cr_buffers r) @ []) =
        Some (status_line 404 [78, 111] sample_request # ls,
              if meth sample_request = HEAD then [] else [78, 111], [])) \<and>
     cr_bytes_in_reply r = length (concat (cr_buffers r)) \<and> cr_close_on_reply r"
  by (rule error_reply_readable [OF _ sample_date_ok]) simp_all

end
