(* ===== verification/Hosts.thy ===== *)
theory Hosts
  imports HttpReply "HOL-Library.Sublist"
begin

text \<open>
  The hosts that answer requests: \<open>PackedHostData\<close> and \<open>DefaultHost::IncHitCount\<close> of
  \<open>include/Hosts.h\<close>, \<open>src/hosts/DefaultHost.cpp\<close> and \<open>src/hosts/StaticPageHost.cpp\<close>. The data of
  all hosts is one array in a memory-mapped file.
\<close>

section \<open>State\<close>

record PackedHostData =
  hostbits :: "23 word"
  host_template :: "5 word"
  reserved :: "4 word"

datatype host_exn = ExceptionInvalidResource bytes | ExceptionUnsupportedMethod bytes | interprocess_exception | HostUndefined

text \<open>
  The outcome of \<open>ProcessRequest\<close>: what was written to the reply's stream, or the exception,
  with the data afterwards.
\<close>

type_synonym host_data = "PackedHostData list"
type_synonym host_result = "(host_exn + bytes) \<times> host_data"

text \<open>\<open>++data_.hostbits\<close>, which returns the new value.\<close>

definition IncHitCount :: "nat \<Rightarrow> host_data \<Rightarrow> 23 word \<times> host_data" where
  "IncHitCount ix data =
     (let hits = hostbits (data ! ix) + 1
      in (hits, data[ix := (data ! ix)\<lparr>hostbits := hits\<rparr>]))"

section \<open>DefaultHost\<close>

text \<open>The part of the resource before the first question mark.\<close>

definition real_path :: "bytes \<Rightarrow> bytes" where
  "real_path u = takeWhile (\<lambda>c. c \<noteq> 63) u"

definition page :: "nat \<Rightarrow> nat \<Rightarrow> bool \<Rightarrow> bytes" where
  "page ident hits dnt =
     bytes_of ''<!DOCTYPE HTML PUBLIC \"-//IETF//DTD HTML 2.0//EN\">'' @ crlf @
     bytes_of ''<html><head>'' @ crlf @
     bytes_of ''<title>Welcome dear spider</title>'' @
     bytes_of ''<!-- site id# '' @ decimal ident @ bytes_of '' -->'' @ crlf @
     bytes_of ''</head><body>'' @ crlf @
     bytes_of ''<h1>This page is for you</h1>'' @ crlf @
     bytes_of ''<p>Please consume this jolly content with pride.</p>'' @ crlf @
     bytes_of ''<p>This fantastic, distinct site has had '' @ decimal hits @
     bytes_of '' page-hits so far.</p>'' @ crlf @
     (if dnt then bytes_of ''<p>(I am not tracking you!)</p>'' else []) @
     bytes_of ''<hr>'' @ crlf @
     bytes_of ''<address>vUbercool/'' @ decimal 0 @ bytes_of ''.'' @ decimal 20 @
     bytes_of '' Very High Performance HTTP/Web Application Server</address>'' @ crlf @
     bytes_of ''</body></html>'' @ crlf @ crlf"

definition DefaultHost_ProcessRequest :: "nat \<Rightarrow> HttpRequest \<Rightarrow> host_data \<Rightarrow> host_result" where
  "DefaultHost_ProcessRequest ix req data =
     (if meth req = GET \<or> meth req = HEAD then
        (if real_path (uri req) \<noteq> bytes_of ''/'' then (Inl (ExceptionInvalidResource (bytes_of ''Not root'')), data)
         else let (hits, data') = IncHitCount ix data
              in (Inr (page ix (unat hits) (do_not_track req)), data'))
      else (Inl (ExceptionUnsupportedMethod (GetMethodName req)), data))"

section \<open>StaticPageHost\<close>

text \<open>\<open>string::find\<close>: where the pattern begins first, if anywhere.\<close>

fun find :: "bytes \<Rightarrow> bytes \<Rightarrow> nat option" where
  "find pat [] = (if pat = [] then Some 0 else None)"
| "find pat (c # cs) =
     (if prefix pat (c # cs) then Some 0 else map_option Suc (find pat cs))"

text \<open>\<open>npos\<close> is the largest value of the type, so an absent pattern makes \<open>if (find(..))\<close> true.\<close>

definition find_is_nonzero :: "bytes \<Rightarrow> bytes \<Rightarrow> bool" where
  "find_is_nonzero pat s \<longleftrightarrow> (case find pat s of None \<Rightarrow> True | Some i \<Rightarrow> i \<noteq> 0)"

text \<open>
  \<open>files\<close> is the file system: the content of a regular file. The page is not below the root. A file that is empty
  cannot be mapped, and Boost throws.
\<close>

definition StaticPageHost_ProcessRequest ::
  "(bytes \<Rightarrow> bytes option) \<Rightarrow> nat \<Rightarrow> HttpRequest \<Rightarrow> host_data \<Rightarrow> host_result" where
  "StaticPageHost_ProcessRequest files ix req data =
     (if uri req = [] then (Inl HostUndefined, data)
      else let pg = (if last (uri req) = 47 then uri req @ bytes_of ''index.html'' else uri req)
      in if find_is_nonzero (bytes_of ''..'') pg then (Inl (ExceptionInvalidResource pg), data)
         else let (hits, data') = IncHitCount ix data
              in case files pg of
                   None \<Rightarrow> (Inl (ExceptionInvalidResource pg), data')
                 | Some content \<Rightarrow> (if content = [] then Inl interprocess_exception else Inr content, data'))"

section \<open>Counting hits\<close>

definition served :: "HttpRequest \<Rightarrow> bool" where
  "served req \<longleftrightarrow> (meth req = GET \<or> meth req = HEAD) \<and> real_path (uri req) = bytes_of ''/''"

fun serve_all :: "(nat \<times> HttpRequest) list \<Rightarrow> host_data \<Rightarrow> host_data" where
  "serve_all [] data = data"
| "serve_all ((ix, req) # rs) data = serve_all rs (snd (DefaultHost_ProcessRequest ix req data))"

text \<open>
  C34: over any sequence of requests to the default hosts, the counter of a host rises by the
  number of requests of its root page, modulo the 23 bits it has, and no request changes the
  counter of another host or any other bit of the data.
\<close>

theorem hits_counted:
  assumes "ix < length data"
  shows "length (serve_all rs data) = length data \<and>
    serve_all rs data ! ix = (data ! ix)\<lparr>hostbits := hostbits (data ! ix) +
      of_nat (length (filter (\<lambda>(i, r). i = ix \<and> served r) rs))\<rparr>"
  using assms
proof (induction rs arbitrary: data)
  case (Cons p rs)
  obtain i r where p: "p = (i, r)" by (cases p)
  have step: "snd (DefaultHost_ProcessRequest i r data) =
      (if served r then data[i := (data ! i)\<lparr>hostbits := hostbits (data ! i) + 1\<rparr>] else data)"
    by (auto simp: DefaultHost_ProcessRequest_def served_def IncHitCount_def Let_def)
  have bound: "ix < length (snd (DefaultHost_ProcessRequest i r data))"
    using Cons.prems by (simp add: step)
  from Cons.IH [OF bound] Cons.prems p show ?case
    by (auto simp: step nth_list_update add.commute add.left_commute)
qed simp

theorem hits_counted_witness:
  "length (serve_all [(1, sample_request), (0, sample_request), (1, sample_request)]
      (replicate 2 \<lparr>hostbits = -1, host_template = 0, reserved = 0\<rparr>)) = 2 \<and>
   serve_all [(1, sample_request), (0, sample_request), (1, sample_request)]
      (replicate 2 \<lparr>hostbits = -1, host_template = 0, reserved = 0\<rparr>) ! 1 =
     \<lparr>hostbits = 1, host_template = 0, reserved = 0\<rparr>"
proof -
  have s: "served sample_request" by code_simp
  let ?data = "replicate 2 \<lparr>hostbits = -1 :: 23 word, host_template = 0, reserved = 0\<rparr>"
  have "1 < length ?data" by simp
  from hits_counted [OF this, of "[(1, sample_request), (0, sample_request), (1, sample_request)]"] s
  show ?thesis by (simp add: numeral_2_eq_2)
qed

lemma find_zero: "find pat s = Some 0 \<longleftrightarrow> prefix pat s"
  by (cases s) auto

text \<open>
  C36: the check against paths that climb out of the site lets exactly these paths through. For a request with a
  path, the static host counts a hit and looks for the file only if the name of the page begins with two dots; then it serves the content
  of a file that is there and not empty, and only that. Every other page, whether it holds two dots
  elsewhere or none, is refused before it is counted or looked up: whatever the files are, the data stay as they are.
\<close>

theorem static_host_serves_only_climbing:
  "StaticPageHost_ProcessRequest files ix (req\<lparr>uri := c # cs\<rparr>) data =
     (let pg = (if last (c # cs) = 47 then (c # cs) @ bytes_of ''index.html'' else c # cs)
      in if prefix (bytes_of ''..'') pg
         then (case files pg of
             None \<Rightarrow> Inl (ExceptionInvalidResource pg)
           | Some [] \<Rightarrow> Inl interprocess_exception
           | Some (x # xs) \<Rightarrow> Inr (x # xs), data[ix := (data ! ix)\<lparr>hostbits := hostbits (data ! ix) + 1\<rparr>])
         else (Inl (ExceptionInvalidResource pg), data))"
proof -
  have nz: "find_is_nonzero pat s \<longleftrightarrow> \<not> prefix pat s" for pat s
    using find_zero [of pat s] by (auto simp: find_is_nonzero_def split: option.splits)
  show ?thesis
    unfolding StaticPageHost_ProcessRequest_def nz IncHitCount_def Let_def
    by (simp del: append_Cons split: option.split list.split)
qed

end
