(* ===== verification/Vhost.thy ===== *)
theory Vhost
  imports Hosts
begin

text \<open>
  Virtual hosts: \<open>HttpConfig\<close> of \<open>include/vUbercool.h\<close>, \<open>PreAllocateMmapFile\<close> and
  \<open>VectorVhostManager\<close> of \<open>src/daemon/VhostManager.cpp\<close>.
\<close>

section \<open>State\<close>

record HttpConfig =
  num_sites :: u32
  recreate_mmap_file :: bool
  site_aliases :: "bytes \<rightharpoonup> u32"
  http_redirects :: "bytes \<rightharpoonup> bytes"
  root_path :: bytes
  data_mmap_file :: bytes
  allow_deflate :: bool
  allow_gzip :: bool
  connection_timeout :: u32
  max_connections :: u32

text \<open>The values of the member initialisers.\<close>

definition default_config :: HttpConfig where
  "default_config = \<lparr>num_sites = 0, recreate_mmap_file = False, site_aliases = Map.empty,
     http_redirects = Map.empty, root_path = [], data_mmap_file = [], allow_deflate = False,
     allow_gzip = False, connection_timeout = 3, max_connections = 0\<rparr>"

datatype vhost_exn = ExceptionUnknownHost bytes | ExceptionRedirect bytes | VhostUndefined

section \<open>The data file\<close>

text \<open>
  What the data file holds after the constructor; \<open>None\<close> is a file that does not exist. A new
  file is written at its last byte only, the bytes before it read as zero.
\<close>

definition PreAllocateMmapFile :: "bytes option \<Rightarrow> nat \<Rightarrow> bool \<Rightarrow> bytes" where
  "PreAllocateMmapFile file sz force =
     (let do_create = force;
          do_create1 = (if \<not> do_create \<and> file = None then True else do_create);
          do_create2 = (if \<not> do_create1 \<and> length (the file) \<noteq> sz then True else do_create1)
      in if do_create2 then replicate sz 0 else the file)"

text \<open>A \<open>PackedHostData\<close> takes four bytes.\<close>

definition open_data :: "bytes option \<Rightarrow> HttpConfig \<Rightarrow> bytes" where
  "open_data file config =
     PreAllocateMmapFile file (unat (num_sites config) * 4) (recreate_mmap_file config)"

section \<open>Resolving a host name\<close>

text \<open>The part of a name before the first of a character.\<close>

definition before :: "byte \<Rightarrow> bytes \<Rightarrow> bytes" where
  "before c name = takeWhile (\<lambda>x. x \<noteq> c) name"

definition GetHostIndexFromName :: "HttpConfig \<Rightarrow> bytes \<Rightarrow> vhost_exn + u32" where
  "GetHostIndexFromName config name =
     (case site_aliases config name of
        Some ix \<Rightarrow> Inr ix
      | None \<Rightarrow>
          (case http_redirects config name of
             Some redirect \<Rightarrow> Inl (ExceptionRedirect redirect)
           | None \<Rightarrow> Inl (ExceptionUnknownHost name)))"

text \<open>
  \<open>lexcast\<close> is \<open>boost::lexical_cast<std::uint32_t>\<close>, \<open>None\<close> where it throws. The cast to \<open>int\<close> and
  back keeps the bits.
\<close>

definition GetHostIndex :: "(bytes \<Rightarrow> u32 option) \<Rightarrow> HttpConfig \<Rightarrow> bytes \<Rightarrow> vhost_exn + u32" where
  "GetHostIndex lexcast config name =
     (if dot \<in> set name then
        (case lexcast (before dot name) of
           Some ix \<Rightarrow> Inr ix
         | None \<Rightarrow> GetHostIndexFromName config name)
      else GetHostIndexFromName config name)"

text \<open>The class and the index of the host object. There are two factories.\<close>

datatype host_class = Default | StaticPage

definition host_factories :: "host_class list" where
  "host_factories = [Default, StaticPage]"

definition GetHost ::
  "(bytes \<Rightarrow> u32 option) \<Rightarrow> HttpConfig \<Rightarrow> host_data \<Rightarrow> bytes \<Rightarrow> vhost_exn + (host_class \<times> nat)" where
  "GetHost lexcast config data name =
     (case GetHostIndex lexcast config (before 58 name) of
        Inl x \<Rightarrow> Inl x
      | Inr ix \<Rightarrow>
          if num_sites config \<le> ix then Inl (ExceptionUnknownHost name)
          else let template = unat (host_template (data ! unat ix))
          in if template < length host_factories then Inr (host_factories ! template, unat ix)
             else Inl VhostUndefined)"

fun ProcessRequest ::
  "(bytes \<Rightarrow> bytes option) \<Rightarrow> host_class \<times> nat \<Rightarrow> HttpRequest \<Rightarrow> host_data \<Rightarrow> host_result" where
  "ProcessRequest files (Default, ix) req data = DefaultHost_ProcessRequest ix req data"
| "ProcessRequest files (StaticPage, ix) req data = StaticPageHost_ProcessRequest files ix req data"

section \<open>What resolution promises\<close>

definition templates_ok :: "host_data \<Rightarrow> bool" where
  "templates_ok data \<longleftrightarrow> list_all (\<lambda>d. unat (host_template d) < length host_factories) data"

text \<open>
  C35: with one entry for each site and known templates, resolution always returns a host or
  throws, never reads outside the data or the factories, and the host is one of the sites.
\<close>

theorem GetHost_in_range:
  assumes "length data = unat (num_sites config)" "templates_ok data"
  shows "case GetHost lexcast config data name of
      Inr (c, ix) \<Rightarrow> ix < length data \<and> c = host_factories ! unat (host_template (data ! ix))
    | Inl x \<Rightarrow> x \<noteq> VhostUndefined"
proof (cases "GetHostIndex lexcast config (before 58 name)")
  case (Inl x)
  then have "x \<noteq> VhostUndefined"
    by (auto simp: GetHostIndex_def GetHostIndexFromName_def split: if_splits option.splits)
  with Inl show ?thesis by (simp add: GetHost_def)
next
  case (Inr ix)
  show ?thesis
  proof (cases "num_sites config \<le> ix")
    case True
    with Inr show ?thesis by (simp add: GetHost_def)
  next
    case False
    then have "unat ix < length data" by (simp add: assms(1) word_le_nat_alt)
    moreover from this assms(2) have "unat (host_template (data ! unat ix)) < length host_factories"
      by (simp add: templates_ok_def list_all_length)
    ultimately show ?thesis using Inr False by (simp add: GetHost_def Let_def)
  qed
qed

text \<open>
  The port behind a colon plays no part, and a name whose first label is the number of a
  site leads to that site whatever follows it; the rest of the name is never compared.
\<close>

theorem GetHost_by_number:
  assumes "58 \<notin> set digits" "dot \<notin> set digits" "58 \<notin> set rest" "lexcast digits = Some ix"
    and "ix < num_sites config" "unat (host_template (data ! unat ix)) < length host_factories"
  shows "GetHost lexcast config data (digits @ dot # rest) =
      Inr (host_factories ! unat (host_template (data ! unat ix)), unat ix) \<and>
    GetHost lexcast config data (digits @ dot # rest @ 58 # port_number) =
      GetHost lexcast config data (digits @ dot # rest)"
proof -
  have b: "before 58 (digits @ dot # rest @ 58 # p) = digits @ dot # rest"
      "before 58 (digits @ dot # rest) = digits @ dot # rest"
      "before dot (digits @ dot # rest) = digits" for p
    using assms(1-3) by (auto simp: before_def takeWhile_append dot_def)
  from assms(5) have "\<not> num_sites config \<le> ix" by simp
  with assms(4,6) b show ?thesis by (simp add: GetHost_def GetHostIndex_def Let_def)
qed

text \<open>
  The data file has four bytes for every site, and a restart with the same configuration
  finds the counters as they were, whatever was stored in between, unless the file is to be
  recreated; a file of another length starts from zero.
\<close>

theorem data_file_kept:
  "length (open_data file config) = unat (num_sites config) * 4 \<and>
   (recreate_mmap_file config \<or>
      open_data (Some stored) config =
        (if length stored = length (open_data file config) then stored
         else replicate (unat (num_sites config) * 4) 0))"
  by (auto simp: open_data_def PreAllocateMmapFile_def Let_def)

definition sample_lex :: "bytes \<Rightarrow> u32 option" where
  "sample_lex ds = (if ds \<noteq> [] \<and> list_all (\<lambda>d. 48 \<le> d \<and> d \<le> 57) ds then Some (of_nat (number 0 ds)) else None)"

definition sample_config :: HttpConfig where
  "sample_config = default_config\<lparr>num_sites := 4, site_aliases := [bytes_of ''blog'' \<mapsto> 2]\<rparr>"

definition sample_data :: host_data where
  "sample_data = replicate 3 \<lparr>hostbits = 0, host_template = 0, reserved = 0\<rparr> @
     [\<lparr>hostbits = 0, host_template = 1, reserved = 0\<rparr>]"

theorem GetHost_in_range_witness:
  "case GetHost sample_lex sample_config sample_data (bytes_of ''blog:80'') of
      Inr (c, ix) \<Rightarrow> ix < length sample_data \<and> c = host_factories ! unat (host_template (sample_data ! ix))
    | Inl x \<Rightarrow> x \<noteq> VhostUndefined"
  by (rule GetHost_in_range) code_simp+

theorem GetHost_by_number_witness:
  "GetHost sample_lex sample_config sample_data ([51] @ dot # [97]) =
      Inr (host_factories ! unat (host_template (sample_data ! unat (3 :: u32))), unat (3 :: u32)) \<and>
    GetHost sample_lex sample_config sample_data ([51] @ dot # [97] @ 58 # [56]) =
      GetHost sample_lex sample_config sample_data ([51] @ dot # [97])"
  by (rule GetHost_by_number) code_simp+

end
