(* ===== verification/Config.thy ===== *)
theory Config
  imports DnsZone Vhost
begin

text \<open>
  Reading the configuration: \<open>AddZones\<close>, \<open>AddZone\<close> and \<open>SetupZones\<close> of
  \<open>src/dnsd/DnsDaemon.cpp\<close>, which build the zone tree, and \<open>ParseHttpConfig\<close> of
  \<open>src/daemon/main.cpp\<close>. The tree that \<open>read_info\<close> returns is the input.
\<close>

section \<open>Property trees\<close>

text \<open>A node has a text and children with a key each, in the order of the file.\<close>

datatype ptree = Ptree (pt_data: bytes) (pt_children: "(bytes \<times> ptree) list")

datatype config_exn = PtreeBadPath bytes | PtreeBadData bytes | BadAddress bytes

text \<open>
  What the code calls of Boost and warlib: the search for a child, which may return any of
  several children with the key; the conversions of texts, \<open>None\<close> where they fail; and the
  copies of a node's children to a list and to maps.
\<close>

record ptree_lib =
  pl_find :: "bytes \<Rightarrow> (bytes \<times> ptree) list \<Rightarrow> ptree option"
  pl_bool :: "bytes \<Rightarrow> bool option"
  pl_u16 :: "bytes \<Rightarrow> u16 option"
  pl_u32 :: "bytes \<Rightarrow> u32 option"
  pl_address :: "bytes \<Rightarrow> address_v4 option"
  pl_list :: "ptree \<Rightarrow> (bytes \<times> bytes) list"
  pl_id_map :: "ptree \<Rightarrow> config_exn + (bytes \<rightharpoonup> u32)"
  pl_name_map :: "ptree \<Rightarrow> bytes \<rightharpoonup> bytes"

text \<open>\<open>get_child_optional\<close>, \<open>get_child\<close>, and \<open>get\<close> with and without a default value.\<close>

definition get_child_optional :: "ptree_lib \<Rightarrow> string \<Rightarrow> ptree \<Rightarrow> ptree option" where
  "get_child_optional lib key pt = pl_find lib (bytes_of key) (pt_children pt)"

definition get_child :: "ptree_lib \<Rightarrow> string \<Rightarrow> ptree \<Rightarrow> config_exn + ptree" where
  "get_child lib key pt =
     (case get_child_optional lib key pt of
        None \<Rightarrow> Inl (PtreeBadPath (bytes_of key)) | Some t \<Rightarrow> Inr t)"

definition get_optional :: "ptree_lib \<Rightarrow> (bytes \<Rightarrow> 'v option) \<Rightarrow> string \<Rightarrow> ptree \<Rightarrow> 'v option" where
  "get_optional lib conv key pt =
     Option.bind (get_child_optional lib key pt) (\<lambda>t. conv (pt_data t))"

definition get_default :: "ptree_lib \<Rightarrow> (bytes \<Rightarrow> 'v option) \<Rightarrow> string \<Rightarrow> 'v \<Rightarrow> ptree \<Rightarrow> 'v" where
  "get_default lib conv key def pt = (case get_optional lib conv key pt of None \<Rightarrow> def | Some v \<Rightarrow> v)"

definition get_value :: "(bytes \<Rightarrow> 'v option) \<Rightarrow> ptree \<Rightarrow> config_exn + 'v" where
  "get_value conv t =
     (case conv (pt_data t) of None \<Rightarrow> Inl (PtreeBadData (pt_data t)) | Some v \<Rightarrow> Inr v)"

definition get_required :: "ptree_lib \<Rightarrow> (bytes \<Rightarrow> 'v option) \<Rightarrow> string \<Rightarrow> ptree \<Rightarrow> config_exn + 'v" where
  "get_required lib conv key pt = rbind (get_child lib key pt) (get_value conv)"

section \<open>Zones\<close>

definition read_soa :: "ptree_lib \<Rightarrow> ptree \<Rightarrow> soa_t option" where
  "read_soa lib pt = map_option (\<lambda>soa.
     \<lparr>soa_rname = get_default lib Some ''rname'' (soa_rname soa_defaults) soa,
      soa_serial = get_default lib (pl_u32 lib) ''rname'' (soa_serial soa_defaults) soa,
      soa_refresh = get_default lib (pl_u32 lib) ''rname'' (soa_refresh soa_defaults) soa,
      soa_retry = get_default lib (pl_u32 lib) ''rname'' (soa_retry soa_defaults) soa,
      soa_expire = get_default lib (pl_u32 lib) ''rname'' (soa_expire soa_defaults) soa,
      soa_minimum = get_default lib (pl_u32 lib) ''rname'' (soa_minimum soa_defaults) soa\<rparr>)
     (get_child_optional lib ''soa'' pt)"

definition children_of :: "ptree option \<Rightarrow> (bytes \<times> ptree) list" where
  "children_of t = (case t of None \<Rightarrow> [] | Some t \<Rightarrow> pt_children t)"

definition read_ns :: "ptree_lib \<Rightarrow> ptree \<Rightarrow> ns_t list" where
  "read_ns lib pt = map (\<lambda>(name, _). \<lparr>ns_fqdn = name\<rparr>) (children_of (get_child_optional lib ''ns'' pt))"

definition read_mx :: "ptree_lib \<Rightarrow> ptree \<Rightarrow> config_exn + mx_t list" where
  "read_mx lib pt = map_res (\<lambda>(name, t).
       rbind (get_value (pl_u16 lib) t) (\<lambda>pri. Inr \<lparr>ns_fqdn = name, mx_priority = pri\<rparr>))
     (children_of (get_child_optional lib ''mx'' pt))"

definition read_cname :: "ptree_lib \<Rightarrow> ptree \<Rightarrow> bytes" where
  "read_cname lib pt = (case get_optional lib Some ''cname'' pt of None \<Rightarrow> [] | Some c \<Rightarrow> c)"

definition read_a :: "ptree_lib \<Rightarrow> ptree \<Rightarrow> config_exn + address_v4 list" where
  "read_a lib pt = map_res (\<lambda>(text, _).
       case pl_address lib text of None \<Rightarrow> Inl (BadAddress text) | Some ip \<Rightarrow> Inr ip)
     (children_of (get_child_optional lib ''a'' pt))"

text \<open>
  The children of a node whose key begins with an at sign are its zones. The parent pointer of
  a zone is the zone whose list of children holds it.
\<close>

fun AddZones :: "ptree_lib \<Rightarrow> (bytes \<times> ptree) list \<Rightarrow> config_exn + zone list"
  and AddZone_config :: "ptree_lib \<Rightarrow> bytes \<Rightarrow> ptree \<Rightarrow> config_exn + zone" where
  "AddZones lib [] = Inr []"
| "AddZones lib ((name, pt) # rest) =
     (if name \<noteq> [] \<and> hd name = 64
      then rbind (AddZone_config lib (tl name) pt) (\<lambda>z.
           rbind (AddZones lib rest) (\<lambda>zs. Inr (z # zs)))
      else AddZones lib rest)"
| "AddZone_config lib name (Ptree data cs) =
     (let pt = Ptree data cs; authorative = get_default lib (pl_bool lib) ''authorative'' False pt in
      rbind (read_mx lib pt) (\<lambda>mx.
      rbind (read_a lib pt) (\<lambda>a.
      rbind (AddZones lib cs) (\<lambda>children.
        Inr (Zone name a (read_ns lib pt) mx (read_cname lib pt) (read_soa lib pt) children authorative)))))"

definition SetupZones :: "ptree_lib \<Rightarrow> ptree \<Rightarrow> config_exn + zone list" where
  "SetupZones lib configuration =
     rbind (AddZones lib (pt_children configuration)) (\<lambda>root_zones.
       Inr (SetupZones_loop root_zones []))"

section \<open>The HTTP server\<close>

definition ParseHttpConfig ::
  "ptree_lib \<Rightarrow> ptree \<Rightarrow> HttpConfig \<Rightarrow> config_exn + (HttpConfig \<times> (bytes \<times> bytes) list)" where
  "ParseHttpConfig lib pt conf =
     rbind (get_child lib ''http'' pt) (\<lambda>http.
     rbind (get_required lib (pl_u32 lib) ''num-sites'' http) (\<lambda>sites.
     rbind (get_required lib Some ''root-path'' http) (\<lambda>root.
     rbind (get_required lib Some ''data-mmap-file'' http) (\<lambda>file.
     rbind (get_child lib ''network'' http) (\<lambda>network.
     rbind (get_child lib ''aliases'' http) (\<lambda>aliases.
     rbind (pl_id_map lib aliases) (\<lambda>ids.
     rbind (get_child lib ''redirects'' http) (\<lambda>redirects.
       let compression = get_child_optional lib ''compression'' http;
           flag = (\<lambda>key old. case compression of None \<Rightarrow> old
                    | Some c \<Rightarrow> (case get_optional lib (pl_bool lib) key c of None \<Rightarrow> old | Some v \<Rightarrow> v))
       in Inr (conf\<lparr>num_sites := sites, root_path := root, data_mmap_file := file,
                 connection_timeout := get_default lib (pl_u32 lib) ''connection-timeout'' (connection_timeout conf) http,
                 max_connections := get_default lib (pl_u32 lib) ''max-connections'' (max_connections conf) http,
                 site_aliases := ids, http_redirects := pl_name_map lib redirects,
                 allow_deflate := flag ''deflate'' (allow_deflate conf),
                 allow_gzip := flag ''gzip'' (allow_gzip conf)\<rparr>,
               pl_list lib network)))))))))"

text \<open>The part of \<open>main\<close> that sets the virtual hosts up; \<open>file\<close> is the data file before.\<close>

definition setup_vhosts ::
  "ptree_lib \<Rightarrow> ptree \<Rightarrow> bool \<Rightarrow> bytes option \<Rightarrow> config_exn + (HttpConfig \<times> (bytes \<times> bytes) list \<times> bytes)" where
  "setup_vhosts lib pt recreate file =
     rbind (ParseHttpConfig lib pt (default_config\<lparr>recreate_mmap_file := recreate\<rparr>)) (\<lambda>(conf, ips).
       Inr (conf, ips, open_data file conf))"

section \<open>Configured zones are found\<close>

text \<open>The node that a path of zone keys leads to, from the root on.\<close>

inductive config_at :: "(bytes \<times> ptree) list \<Rightarrow> bytes list \<Rightarrow> ptree \<Rightarrow> bool" where
  at_here: "(64 # l, t) \<in> set cs \<Longrightarrow> config_at cs [l] t"
| at_below: "(64 # l, t) \<in> set cs \<Longrightarrow> config_at (pt_children t) ls t' \<Longrightarrow> config_at cs (l # ls) t'"

lemma AddZones_member:
  "AddZones lib cs = Inr zs \<Longrightarrow> (64 # l, t) \<in> set cs \<Longrightarrow> \<exists>z \<in> set zs. AddZone_config lib l t = Inr z"
  by (induction cs arbitrary: zs) (auto split: if_splits)

lemma AddZone_config_result:
  "AddZone_config lib name pt = Inr z \<Longrightarrow>
     zlabel z = name \<and> AddZones lib (pt_children pt) = Inr (zchildren z) \<and> zsoa z = read_soa lib pt \<and>
     read_a lib pt = Inr (za z) \<and> zcname z = read_cname lib pt"
  by (cases pt) (auto simp: Let_def)

lemma config_path:
  assumes "config_at cs ls sub" "AddZones lib cs = Inr zs" "on_path roots up"
    and "set zs \<subseteq> set (children_at roots up)"
  shows "\<exists>zp. zp \<noteq> [] \<and> on_path roots (zp @ up) \<and> map (\<lambda>z. zlabel (snd z)) zp = rev ls \<and>
     AddZone_config lib (last ls) sub = Inr (target (zp @ up))"
  using assms
proof (induction arbitrary: zs up)
  case (at_here l t cs)
  from AddZones_member [OF at_here(2,1)] obtain z where z: "z \<in> set zs" "AddZone_config lib l t = Inr z"
    by blast
  with at_here(4) obtain i where i: "i < length (children_at roots up)" "children_at roots up ! i = z"
    by (meson in_set_conv_nth subsetD)
  with z(2) at_here(3) AddZone_config_result [OF z(2)] show ?case
    by (intro exI [of _ "[(i, z)]"]) (simp add: target_def)
next
  case (at_below l t cs ls t')
  from AddZones_member [OF at_below(4,1)] obtain z where z: "z \<in> set zs" "AddZone_config lib l t = Inr z"
    by blast
  note r = AddZone_config_result [OF z(2)]
  from z(1) at_below(6) obtain i where i: "i < length (children_at roots up)" "children_at roots up ! i = z"
    by (meson in_set_conv_nth subsetD)
  with at_below(5) have "on_path roots ((i, z) # up)" by simp
  from at_below.IH [OF _ this, of "zchildren z"] r obtain zp where zp: "zp \<noteq> []"
    "on_path roots (zp @ (i, z) # up)" "map (\<lambda>z. zlabel (snd z)) zp = rev ls"
    "AddZone_config lib (last ls) t' = Inr (target (zp @ (i, z) # up))" by auto
  have "ls \<noteq> []" using at_below(2) by cases auto
  with zp r show ?case by (intro exI [of _ "zp @ [(i, z)]"]) simp
qed

lemma set_SetupZones_loop: "set (SetupZones_loop zs zones) = set zs \<union> set zones"
  by (induction zs) (auto simp: AddRootZone_def)

lemma configured_lookup:
  assumes "SetupZones lib pt = Inr zones" "config_at (pt_children pt) ls sub"
    and "label_equality ieq" "forest_distinct ieq zones" "list_all2 ieq key (rev ls)"
  shows "\<exists>zp. Lookup ieq zones key auth = (Some zp, zauthorative (target zp)) \<and>
     AddZone_config lib (last ls) sub = Inr (target zp) \<and> map (\<lambda>z. zlabel (snd z)) zp = rev ls"
proof -
  from assms(1) obtain zs where zs: "AddZones lib (pt_children pt) = Inr zs" "zones = SetupZones_loop zs []"
    by (auto simp: SetupZones_def)
  from config_path [OF assms(2) zs(1), of zones "[]"] zs(2) obtain zp where zp: "zp \<noteq> []" "on_path zones zp"
    "map (\<lambda>z. zlabel (snd z)) zp = rev ls" "AddZone_config lib (last ls) sub = Inr (target zp)"
    by (auto simp: set_SetupZones_loop)
  from assms(5) have "list_all2 (\<lambda>l z. ieq l (zlabel (snd z))) key zp"
    unfolding zp(3) [symmetric] by (simp add: list.rel_map)
  from label_equality.Lookup_exact [OF assms(3) this zp(1,2) assms(4)] zp show ?thesis by blast
qed

text \<open>
  Every zone of a configuration file is served under its name. Whatever the nesting, the
  labels on the way to a zone's node, in any case of letters, are looked up to the zone that is
  made of that node, when no two siblings have the same label.
\<close>

theorem configured_zone_found:
  assumes "SetupZones lib pt = Inr zones" "config_at (pt_children pt) ls sub"
    and "label_equality ieq" "forest_distinct ieq zones" "list_all2 ieq key (rev ls)"
  shows "\<exists>zp. Lookup ieq zones key auth = (Some zp, zauthorative (target zp)) \<and>
     AddZone_config lib (last ls) sub = Inr (target zp) \<and> map (\<lambda>z. zlabel (snd z)) zp = rev ls"
  using assms by (rule configured_lookup)

text \<open>
  The numbers of a zone's SOA record are all taken from the setting of the responsible
  mailbox. Where that is a number all five have its value, otherwise they keep their defaults;
  the settings of the names they are documented under are never read.
\<close>

theorem soa_numbers_from_rname:
  assumes "AddZone_config lib name pt = Inr z" "get_child_optional lib ''soa'' pt = Some soa"
  shows "\<exists>s. zsoa z = Some s \<and>
    (case get_optional lib (pl_u32 lib) ''rname'' soa of
       Some n \<Rightarrow> soa_serial s = n \<and> soa_refresh s = n \<and> soa_retry s = n \<and> soa_expire s = n \<and> soa_minimum s = n
     | None \<Rightarrow> s = soa_defaults\<lparr>soa_rname := get_default lib Some ''rname'' (soa_rname soa_defaults) soa\<rparr>)"
  using AddZone_config_result [OF assms(1)] assms(2)
  by (auto simp: read_soa_def get_default_def soa_defaults_def split: option.splits)

text \<open>
  A compression method that is only named in its section, as in the configuration file
  that comes with the program, stays as it was, which is switched off: an empty text is no
  truth value.
\<close>

theorem compression_needs_value:
  assumes "ParseHttpConfig lib pt conf = Inr (conf', ips)" "get_child lib ''http'' pt = Inr http"
    and "get_child_optional lib ''compression'' http = Some c" "pl_bool lib [] = None"
    and "get_child_optional lib ''gzip'' c = Some t" "pt_data t = []"
  shows "allow_gzip conf' = allow_gzip conf \<and> recreate_mmap_file conf' = recreate_mmap_file conf"
  using assms by (auto simp: ParseHttpConfig_def get_optional_def Let_def)

section \<open>A sample configuration\<close>

definition sample_find :: "bytes \<Rightarrow> (bytes \<times> ptree) list \<Rightarrow> ptree option" where
  "sample_find key cs = map_of cs key"

definition sample_bool :: "bytes \<Rightarrow> bool option" where
  "sample_bool text = (if text = [48] then Some False else if text = [49] then Some True else None)"

definition sample_lib :: ptree_lib where
  "sample_lib = \<lparr>pl_find = sample_find, pl_bool = sample_bool,
     pl_u16 = (\<lambda>t. map_option ucast (sample_lex t)), pl_u32 = sample_lex,
     pl_address = (\<lambda>t. if t = [49] then Some (10, 0, 0, 1) else None),
     pl_list = (\<lambda>t. map (\<lambda>(k, c). (k, pt_data c)) (pt_children t)),
     pl_id_map = (\<lambda>t. Inr Map.empty), pl_name_map = (\<lambda>t. Map.empty)\<rparr>"

definition leaf :: "string \<Rightarrow> string \<Rightarrow> bytes \<times> ptree" where
  "leaf key text = (bytes_of key, Ptree (bytes_of text) [])"

definition node :: "string \<Rightarrow> (bytes \<times> ptree) list \<Rightarrow> bytes \<times> ptree" where
  "node key cs = (bytes_of key, Ptree [] cs)"

definition sample_www :: ptree where
  "sample_www = snd (node ''@www'' [node ''a'' [leaf ''1'' '''']])"

definition sample_site :: ptree where
  "sample_site = snd (node ''@site'' [leaf ''authorative'' ''1'',
     node ''soa'' [leaf ''rname'' ''hostmaster'', leaf ''serial'' ''7''],
     node ''ns'' [leaf ''ns1'' ''''], node ''mx'' [leaf ''mail'' ''5''], (bytes_of ''@www'', sample_www)])"

definition sample_dns_conf :: ptree where
  "sample_dns_conf = Ptree [] [node ''network'' [leaf ''0.0.0.0'' ''53''],
     node ''@com'' [(bytes_of ''@site'', sample_site)]]"

definition sample_http_conf :: ptree where
  "sample_http_conf = Ptree [] [node ''http'' [leaf ''num-sites'' ''4'',
     node ''compression'' [leaf ''deflate'' '''', leaf ''gzip'' ''''],
     leaf ''data-mmap-file'' ''f'', leaf ''root-path'' ''r'', node ''network'' [], node ''aliases'' [],
     node ''redirects'' []]]"

definition sample_configured :: "zone list" where
  "sample_configured =
     [Zone (bytes_of ''com'') [] [] [] [] None
        [Zone (bytes_of ''site'') [] [\<lparr>ns_fqdn = bytes_of ''ns1''\<rparr>]
           [\<lparr>ns_fqdn = bytes_of ''mail'', mx_priority = 5\<rparr>] [] (Some soa_defaults)
           [Zone (bytes_of ''www'') [(10, 0, 0, 1)] [] [] [] None [] False] True] False]"

lemma sample_setup: "SetupZones sample_lib sample_dns_conf = Inr sample_configured"
  by code_simp

lemma sample_path: "config_at (pt_children sample_dns_conf)
    [bytes_of ''com'', bytes_of ''site'', bytes_of ''www''] sample_www"
proof -
  have at: "64 # bytes_of l = bytes_of (CHR ''@'' # l)" for l by (simp add: bytes_of_def)
  have "config_at (pt_children sample_site) [bytes_of ''www''] sample_www"
    by (rule at_here) (simp add: sample_site_def node_def at)
  then have "config_at [(bytes_of ''@site'', sample_site)] [bytes_of ''site'', bytes_of ''www''] sample_www"
    by (rule at_below [rotated]) (simp add: at)
  moreover have "(64 # bytes_of ''com'', Ptree [] [(bytes_of ''@site'', sample_site)]) \<in>
      set (pt_children sample_dns_conf)"
    by (simp add: sample_dns_conf_def node_def at)
  ultimately show ?thesis by (metis at_below ptree.sel(2))
qed

theorem configured_zone_found_witness:
  "\<exists>zp. Lookup ascii_iequals sample_configured [bytes_of ''WWW'', bytes_of ''site'', bytes_of ''Com''] False =
       (Some zp, zauthorative (target zp)) \<and>
     AddZone_config sample_lib (bytes_of ''www'') sample_www = Inr (target zp) \<and>
     map (\<lambda>z. zlabel (snd z)) zp = [bytes_of ''www'', bytes_of ''site'', bytes_of ''com'']"
proof -
  have "forest_distinct ascii_iequals sample_configured" by code_simp
  moreover have "list_all2 ascii_iequals [bytes_of ''WWW'', bytes_of ''site'', bytes_of ''Com'']
      (rev [bytes_of ''com'', bytes_of ''site'', bytes_of ''www''])" by code_simp
  ultimately show ?thesis
    using configured_zone_found [OF sample_setup sample_path ascii.label_equality_axioms] by fastforce
qed

theorem soa_numbers_from_rname_witness:
  "\<exists>s. zsoa (hd (zchildren (hd sample_configured))) = Some s \<and> soa_serial s = 1"
proof -
  have "AddZone_config sample_lib (bytes_of ''site'') sample_site = Inr (hd (zchildren (hd sample_configured)))"
    by code_simp
  moreover have "get_child_optional sample_lib ''soa'' sample_site =
      Some (snd (node ''soa'' [leaf ''rname'' ''hostmaster'', leaf ''serial'' ''7'']))" by code_simp
  ultimately obtain s where s: "zsoa (hd (zchildren (hd sample_configured))) = Some s"
    "case get_optional sample_lib (pl_u32 sample_lib) ''rname''
        (snd (node ''soa'' [leaf ''rname'' ''hostmaster'', leaf ''serial'' ''7''])) of
       Some n \<Rightarrow> soa_serial s = n \<and> soa_refresh s = n \<and> soa_retry s = n \<and> soa_expire s = n \<and> soa_minimum s = n
     | None \<Rightarrow> s = soa_defaults\<lparr>soa_rname := get_default sample_lib Some ''rname'' (soa_rname soa_defaults)
         (snd (node ''soa'' [leaf ''rname'' ''hostmaster'', leaf ''serial'' ''7'']))\<rparr>"
    using soa_numbers_from_rname by blast
  have "get_optional sample_lib (pl_u32 sample_lib) ''rname''
      (snd (node ''soa'' [leaf ''rname'' ''hostmaster'', leaf ''serial'' ''7''])) = None" by code_simp
  with s show ?thesis by (simp add: soa_defaults_def)
qed

theorem compression_needs_value_witness:
  "\<exists>conf ips. ParseHttpConfig sample_lib sample_http_conf (default_config\<lparr>recreate_mmap_file := True\<rparr>) =
     Inr (conf, ips) \<and> allow_gzip conf = False \<and> recreate_mmap_file conf = True"
proof -
  let ?conf = "default_config\<lparr>recreate_mmap_file := True\<rparr>"
  let ?http = "snd (hd (pt_children sample_http_conf))"
  let ?compression = "snd (pt_children ?http ! 1)"
  have child: "get_child sample_lib ''http'' sample_http_conf = Inr ?http"
      "get_child_optional sample_lib ''compression'' ?http = Some ?compression"
      "get_child_optional sample_lib ''gzip'' ?compression = Some (Ptree [] [])" by code_simp+
  have "\<exists>r. ParseHttpConfig sample_lib sample_http_conf ?conf = Inr r"
    by (simp add: ParseHttpConfig_def get_required_def get_value_def get_child_def get_child_optional_def
        sample_http_conf_def sample_lib_def sample_find_def node_def leaf_def bytes_of_def sample_lex_def Let_def)
  then obtain conf ips where r: "ParseHttpConfig sample_lib sample_http_conf ?conf = Inr (conf, ips)" by auto
  have "pl_bool sample_lib [] = None" by code_simp
  from compression_needs_value [OF r child(1,2) this child(3)] r show ?thesis
    by (simp add: default_config_def)
qed

end
