(* ===== verification/DnsConfigured.thy ===== *)
theory DnsConfigured
  imports DnsServer Config
begin

text \<open>
  From the configuration file to the client: the zones that \<open>SetupZones\<close> builds of a property tree
  (\<open>src/dnsd/DnsDaemon.cpp\<close>) put together with the answers of the DNS server.
\<close>

lemma address_sections:
  assumes "qv_type q = 1" "zcname (target zone) = []" "za (target zone) = ips"
  shows "sections_of env [(q, zone)] = \<lparr>sec_answers = map (\<lambda>ip. (qv_labels q, RdataA ip)) ips,
    sec_authority = [], sec_additional = [], sec_authorative = authoritative_for zone\<rparr>"
  using assms
  by (simp add: sections_of_def authority_of_def mail_hosts_def answer_rrs_def a_rrs_def add_zones_def)

text \<open>
  When the file has a zone with addresses and no alias, at any depth, a query for the address of the
  labels on the way to it, in any case of letters, is answered by a message that repeats the question
  and has these addresses, or the first ones with the truncation bit.
\<close>

lemma address_answered:
  assumes "SetupZones lib pt = Inr (env_zones env)" "config_at (pt_children pt) ls sub"
    and "label_equality (env_ieq env)" "forest_distinct (env_ieq env) (env_zones env)" "asked_ready env (qv_labels q)"
    and "read_a lib sub = Inr ips" "read_cname lib sub = []"
    and "parse_header datagram (length datagram) = Inr hdr" "\<not> GetQr hdr" "GetOpcode hdr = 0" "hdr_qdcount hdr = 1"
    and "well_asked env datagram 1 q" "qv_type q = 1" "list_all2 (env_ieq env) (qv_labels q) (rev ls)"
  shows "\<exists>b m k. fst (receive_one env datagram w) = Inr (Some b) \<and> decode_message b = Some m \<and> length b \<le> 512 \<and>
    GetQr (msg_header m) \<and> hdr_id (msg_header m) = hdr_id hdr \<and> msg_questions m = [q] \<and>
    msg_answers m = map (\<lambda>ip. view (qv_labels q, RdataA ip)) (take k ips) \<and> k \<le> length ips \<and>
    (GetTc (msg_header m) \<longleftrightarrow> k < length ips)"
proof -
  from configured_lookup [OF assms(1-4,14), of False] obtain zp
    where zp: "Lookup (env_ieq env) (env_zones env) (qv_labels q) False = (Some zp, zauthorative (target zp))"
      "AddZone_config lib (last ls) sub = Inr (target zp)" by blast
  from AddZone_config_result [OF zp(2)] assms(6,7) have z: "zcname (target zp) = []" "za (target zp) = ips" by simp_all
  have out: "question_outcome env q = Inr zp"
    using zp(1) assms(13) by (simp add: question_outcome_def resolve_def)
  have "(1 :: nat) = unat (hdr_qdcount hdr)" using assms(11) by simp
  from query_answered [OF assms(5,8-10) this _ assms(12), of w] out obtain b
    where b: "fst (receive_one env datagram w) = Inr (Some b)" "reply_of hdr [q] (sections_of env [(q, zp)]) b"
    by (auto simp: expected_def)
  from b(2) obtain k h where k: "k \<le> length ips" "length b \<le> 512"
      "decode_message b = Some \<lparr>msg_header = h, msg_questions = [q],
         msg_answers = map view (take k (map (\<lambda>ip. (qv_labels q, RdataA ip)) ips)), msg_authority = [], msg_additional = []\<rparr>"
      "hdr_id h = hdr_id hdr" "GetQr h" "GetTc h \<longleftrightarrow> k < length ips"
    unfolding address_sections [OF assms(13) z] by (auto simp: reply_of_def total_def cut_def)
  with b(1) show ?thesis by (auto simp: take_map intro!: exI [of _ k])
qed

section \<open>A sample file\<close>

text \<open>The configuration file of the zones of \<open>site\<close>; addresses are written as their last number.\<close>

definition site_lib :: ptree_lib where
  "site_lib = sample_lib\<lparr>pl_address := (\<lambda>t. if length t = 1 then Some (10, 0, 0, hd t - 48) else None)\<rparr>"

definition site_www :: ptree where
  "site_www = snd (node ''@w'' [node ''a'' [leaf ''3'' '''']])"

definition site_conf :: ptree where
  "site_conf = Ptree [] [node ''network'' [leaf ''0.0.0.0'' ''53''], node ''@com'' [node ''@a'' [leaf ''authorative'' ''1'', node ''soa'' [],
     node ''ns'' [leaf ''n'' ''''], node ''mx'' [(bytes_of ''w'', Ptree (bytes_of ''10'') [])], node ''a'' [leaf ''1'' ''''],
     node ''@n'' [node ''a'' [leaf ''2'' '''']], (bytes_of ''@w'', site_www),
     node ''@l'' [leaf ''cname'' ''w''], node ''@'' [node ''a'' [leaf ''9'' '''']]]]]"

lemma site_setup: "SetupZones site_lib site_conf = Inr (env_zones site)"
  by code_simp

lemma site_path: "config_at (pt_children site_conf) [bytes_of ''com'', bytes_of ''a'', bytes_of ''w''] site_www"
  by (auto simp: site_conf_def node_def bytes_of_def intro!: at_here at_below)

end
