(* ===== verification/DnsForget.thy ===== *)
theory DnsForget
  imports DnsServer
begin

text \<open>
  Answers do not depend on the past: the query buffer of a worker keeps the end of earlier
  datagrams, and the parser of \<open>src/dnsd/Message.h\<close> reads one byte past the end of a query. The
  rounds of two workers are compared, from the walk over the labels up to the receive loop.
\<close>

section \<open>Two query buffers\<close>

text \<open>Two memory blocks of one size that agree on the first bytes and are longer than these.\<close>

definition agree :: "nat \<Rightarrow> bytes \<Rightarrow> bytes \<Rightarrow> bool" where
  "agree limit mem mem' \<longleftrightarrow> limit < length mem \<and> limit < length mem' \<and> take limit mem = take limit mem'"

lemma agree_sym: "agree limit mem mem' \<Longrightarrow> agree limit mem' mem"
  by (simp add: agree_def)

lemma agree_nth: "agree limit mem mem' \<Longrightarrow> p < limit \<Longrightarrow> mem ! p = mem' ! p"
  by (metis agree_def nth_take)

lemma agree_segment: "agree limit mem mem' \<Longrightarrow> p + n \<le> limit \<Longrightarrow> segment mem p n = segment mem' p n"
  by (rule segment_eqI) (auto simp: agree_def agree_nth nth_append)

lemma agree_u16: "agree limit mem mem' \<Longrightarrow> p + 1 < limit \<Longrightarrow> u16_at mem p = u16_at mem' p"
  by (auto simp: u16_at_def agree_nth) (auto simp: agree_def)

text \<open>The outcome of a walk that has come to the end of the query.\<close>

definition at_end :: "label_state res \<Rightarrow> bool" where
  "at_end r \<longleftrightarrow> (case r of Inl x \<Rightarrow> x = LabelHeaderException | Inr _ \<Rightarrow> True)"

lemma label_loop_at_end:
  assumes "limit < length mem" "lh_names s \<noteq> []"
  shows "at_end (label_loop e ok mem limit limit trav s)"
  using assms
  by (subst label_loop.simps)
    (auto simp: at_end_def label_round_def pointer_round_def root_round_def ValidateSize_def Let_def)

lemma agree_rounds:
  assumes "agree limit mem mem'" "p < limit"
  shows "label_round ok mem limit len p trav s = label_round ok mem' limit len p trav s"
    "pointer_round e mem limit p trav s = pointer_round e mem' limit p trav s"
proof -
  have "ref_bytes mem (p + 1, len) = ref_bytes mem' (p + 1, len)" if "p + 1 + len \<le> limit"
    using agree_segment [OF assms(1), of "p + 1" len] that by (simp add: ref_bytes_def)
  then show "label_round ok mem limit len p trav s = label_round ok mem' limit len p trav s"
    by (simp add: label_round_def Let_def)
  have "read_byte mem i = read_byte mem' i" if "i < limit" for i
    using assms(1) that agree_nth [OF assms(1) that] by (simp add: read_byte_def agree_def)
  then show "pointer_round e mem limit p trav s = pointer_round e mem' limit p trav s"
    using assms(2) by (simp add: pointer_round_def Let_def)
qed

lemma label_loop_agree:
  assumes "agree limit mem mem'" "p \<le> limit" "known_within limit (lh_known s)" "p = limit \<Longrightarrow> lh_names s \<noteq> []"
  shows "label_loop e ok mem limit p trav s = label_loop e ok mem' limit p trav s \<or>
    at_end (label_loop e ok mem limit p trav s) \<and> at_end (label_loop e ok mem' limit p trav s)"
  using assms
proof (induction e ok mem limit p trav s rule: label_loop.induct)
  case (1 e ok mem limit p trav s)
  show ?case
  proof (cases "p = limit")
    case True
    with "1.prems" have "limit < length mem" "limit < length mem'" "lh_names s \<noteq> []" by (auto simp: agree_def)
    from label_loop_at_end [OF this(1,3)] label_loop_at_end [OF this(2,3)] True show ?thesis by blast
  next
    case False
    with "1.prems"(1,2) have p: "p < limit" "\<not> length mem \<le> p" "\<not> length mem' \<le> p" by (auto simp: agree_def)
    let ?len = "unat (mem ! p)"
    note same = agree_nth [OF "1.prems"(1) p(1)] agree_rounds [OF "1.prems"(1) p(1)]
    note here = label_loop.simps [of e ok mem limit p trav s] label_loop.simps [of e ok mem' limit p trav s]
    consider "?len = 0" | "?len \<noteq> 0" "?len < 64" | "?len \<noteq> 0" "\<not> ?len < 64" by linarith
    then show ?thesis
    proof cases
      case 1
      with p same(1) show ?thesis by (simp add: here)
    next
      case 2
      show ?thesis
      proof (cases "label_round ok mem limit ?len p trav s")
        case (Inl x)
        with p 2 same show ?thesis by (simp add: here Let_def)
      next
        case (Inr ps)
        obtain p' s1 where ps: "ps = (p', s1)" by (cases ps)
        from label_round_Inr [OF Inr [unfolded ps]] "1.prems"(3)
        have "p' \<le> limit" "known_within limit (lh_known s1)" "lh_names s1 \<noteq> []"
          by (auto simp: known_within_def ref_end_def)
        with "1.IH"(1) [OF p(2) refl 2 Inr ps [symmetric] "1.prems"(1)] p 2 same Inr ps show ?thesis
          by (simp add: here Let_def)
      qed
    next
      case 3
      show ?thesis
      proof (cases "mem ! p AND 0xC0 = 0xC0")
        case False
        with p 3 same(1) show ?thesis by (simp add: here Let_def)
      next
        case pt: True
        show ?thesis
        proof (cases "pointer_round e mem limit p trav s")
          case (Inl x)
          with p 3 pt same show ?thesis by (simp add: here Let_def)
        next
          case (Inr ps)
          obtain p' s1 where ps: "ps = (p', s1)" by (cases ps)
          from pointer_round_Inr [OF Inr [unfolded ps]] "1.prems"(3)
          have "p' \<le> limit" "known_within limit (lh_known s1)" by (auto simp: known_within_def)
          moreover have "lh_names s1 \<noteq> []"
            using Inr ps by (auto simp: pointer_round_def ValidateSize_def Let_def split: if_splits)
          ultimately show ?thesis
            using "1.IH"(2) [OF p(2) refl 3 pt Inr ps [symmetric] "1.prems"(1)] p 3 same Inr ps pt
            by (simp add: here Let_def)
        qed
      qed
    qed
  qed
qed

section \<open>Questions\<close>

lemma wire_at_agree:
  assumes "agree limit mem mem'" "wire_at mem p fs" "p + length (wire_name fs) \<le> limit"
  shows "wire_at mem' p fs"
  using assms agree_segment [OF assms(1,3)] by (simp add: wire_at_def agree_def)

lemma short_name_agree:
  assumes "agree (p + sz) mem mem'" "known_on mem p known" "known_on mem' p known" "0 < sz"
    and "LabelHeader e ok mem p sz known = Inr lh" "lh_buffer_size lh + 4 \<le> sz"
  shows "LabelHeader e ok mem' p sz known = Inr lh \<and>
    parse_question e ok mem' p sz known off = parse_question e ok mem p sz known off"
proof -
  from assms(5) [unfolded LabelHeader_accepts_iff [OF assms(2,4)]] obtain fs
    where fs: "wire_at mem p fs" "acceptable ok fs" "length (wire_name fs) \<le> sz + 1" "text_size fs \<le> 254" "fs \<noteq> []"
      "lh = \<lparr>lh_known = known @ refs_at p fs, lh_names = refs_at p fs, lh_size = text_size fs + 1,
             lh_buffer_size = length (wire_name fs)\<rparr>" by blast
  with assms(6) have n: "length (wire_name fs) + 4 \<le> sz" by simp
  then have w: "wire_at mem' p fs" using wire_at_agree [OF assms(1) fs(1)] by simp
  with fs have lh: "LabelHeader e ok mem' p sz known = Inr lh"
    unfolding LabelHeader_accepts_iff [OF assms(3,4)] by blast
  let ?i = "p + length (wire_name fs)"
  have "u16_at mem ?i = u16_at mem' ?i" "u16_at mem (?i + 2) = u16_at mem' (?i + 2)"
    using n agree_u16 [OF assms(1)] by simp_all
  with lh assms(5) map_ref_bytes_refs_at [OF w] map_ref_bytes_refs_at [OF fs(1)] show ?thesis
    by (simp add: parse_question_def fs(6) Let_def)
qed

lemma parse_question_agree:
  assumes "agree (p + sz) mem mem'" "known_on mem p known" "known_on mem' p known" "known_within (p + sz) known" "0 < sz"
  shows "parse_question e ok mem p sz known off = parse_question e ok mem' p sz known off \<or>
    (\<exists>x x'. parse_question e ok mem p sz known off = Inl x \<and> parse_question e ok mem' p sz known off = Inl x' \<and>
      {x, x'} \<subseteq> {LabelHeaderException, QuestionHeaderException})"
proof -
  let ?L = "LabelHeader e ok mem p sz known" and ?L' = "LabelHeader e ok mem' p sz known"
  consider lh where "?L = Inr lh" "lh_buffer_size lh + 4 \<le> sz" | lh where "?L' = Inr lh" "lh_buffer_size lh + 4 \<le> sz"
    | "\<And>lh. ?L = Inr lh \<Longrightarrow> sz < lh_buffer_size lh + 4" "\<And>lh. ?L' = Inr lh \<Longrightarrow> sz < lh_buffer_size lh + 4"
    by (meson not_less)
  then show ?thesis
  proof cases
    case 1
    from short_name_agree [OF assms(1-3,5) this, of off] show ?thesis by simp
  next
    case 2
    from short_name_agree [OF agree_sym [OF assms(1)] assms(3,2,5) this, of off] show ?thesis by simp
  next
    case 3
    have q: "parse_question e ok mem p sz known off = (case ?L of Inl x \<Rightarrow> Inl x | Inr lh \<Rightarrow> Inl QuestionHeaderException)"
      "parse_question e ok mem' p sz known off = (case ?L' of Inl x \<Rightarrow> Inl x | Inr lh \<Rightarrow> Inl QuestionHeaderException)"
      using 3 by (auto simp: parse_question_def Let_def split: sum.split)
    from label_loop_agree [OF assms(1) _ , of p "\<lparr>lh_known = known, lh_names = [], lh_size = 0, lh_buffer_size = 0\<rparr>" e ok False]
      assms(4,5)
    have "?L = ?L' \<or> at_end ?L \<and> at_end ?L'" by (simp add: LabelHeader_def)
    then show ?thesis using q by (auto simp: at_end_def split: sum.splits)
  qed
qed

section \<open>Queries\<close>

text \<open>
  The first pass from two buffers: the same result, or both times an exception that is a server
  failure to the client, with the same reply so far.
\<close>

lemma read_questions_agree:
  assumes "agree len query query'" "left \<le> len" "known_on query (len - left) known"
    "known_on query' (len - left) known" "known_within len known"
  shows "read_questions env query len left n known s = read_questions env query' len left n known s \<or>
    (\<exists>x x' s1. read_questions env query len left n known s = (Inl x, s1) \<and>
      read_questions env query' len left n known s = (Inl x', s1) \<and>
      {x, x'} \<subseteq> {LabelHeaderException, QuestionHeaderException})"
  using assms(3-5)
proof (induction n arbitrary: known s)
  case (Suc n)
  let ?p = "len - left"
  let ?pq = "\<lambda>mem. parse_question (env_endian env) (env_label_ok env) mem ?p left known (of_nat (length (rp_buffer s)))"
  show ?case
  proof (cases "left = 0")
    case False
    have limit: "?p + left = len" using assms(2) by simp
    then have "agree (?p + left) query query'" "known_within (?p + left) known" "0 < left"
      using assms(1) Suc.prems(3) False by simp_all
    from parse_question_agree [OF this(1) Suc.prems(1,2) this(2,3), of "env_endian env" "env_label_ok env"]
    consider "?pq query = ?pq query'" | x x' where "?pq query = Inl x" "?pq query' = Inl x'"
      "{x, x'} \<subseteq> {LabelHeaderException, QuestionHeaderException}" by blast
    then show ?thesis
    proof cases
      case 1
      show ?thesis
      proof (cases "?pq query")
        case (Inl x)
        with 1 [symmetric] show ?thesis by (simp add: Let_def)
      next
        case (Inr r)
        obtain q known' where r: "r = (q, known')" by (cases r)
        from parse_question_accepted [OF Inr [unfolded r] Suc.prems(1)] Suc.prems(3) limit
        have q: "known_on query ?p known'" "known_within len known'" "q_size q \<le> left" by auto
        have Inr': "?pq query' = Inr (q, known')" using Inr r 1 [symmetric] by simp
        from parse_question_accepted [OF Inr' Suc.prems(2)] Suc.prems(3) limit
        have q': "known_on query' ?p known'" by auto
        have seg: "segment query ?p (q_size q) = segment query' ?p (q_size q)"
          using agree_segment [OF assms(1)] q(3) limit by simp
        let ?s = "s\<lparr>rp_buffer := rp_buffer s @ segment query' ?p (q_size q), rp_num_questions := rp_num_questions s + 1\<rparr>"
        obtain ra sa where a: "read_questions env query len left n known' ?s = (ra, sa)"
          by (cases "read_questions env query len left n known' ?s")
        obtain rb sb where b: "read_questions env query' len left n known' ?s = (rb, sb)"
          by (cases "read_questions env query' len left n known' ?s")
        have rest: "ra = rb \<and> sa = sb \<or> (\<exists>x x'. ra = Inl x \<and> rb = Inl x' \<and> sa = sb \<and>
            {x, x'} \<subseteq> {LabelHeaderException, QuestionHeaderException})"
          using Suc.IH [OF q(1) q' q(2), of ?s] unfolding a b by blast
        have here: "read_questions env mem len left (Suc n) known s =
            (if q_qclass q \<noteq> 1 \<and> q_qclass q \<noteq> 255 then (Inl Refused, s)
             else if length (rp_buffer s) + q_size q < max_reply_buffer then
               (case res of (Inl x, s') \<Rightarrow> (Inl x, s') | (Inr questions, s') \<Rightarrow> (Inr (q # questions), s'))
             else (Inl InvalidQuery, s))"
          if "?pq mem = Inr (q, known')" "segment mem ?p (q_size q) = segment query' ?p (q_size q)"
            "read_questions env mem len left n known' ?s = res" for mem res
          using that False by (simp add: Let_def)
        note here [OF Inr [unfolded r] seg a] here [OF Inr' refl b]
        with rest show ?thesis by (cases ra; cases rb) auto
      qed
    next
      case 2
      with False show ?thesis by (auto simp: Let_def)
    qed
  qed simp
qed simp

lemma parse_header_agree:
  assumes "agree len query query'"
  shows "parse_header query len = parse_header query' len"
proof (cases "len < header_size")
  case False
  then have "u16_at query i = u16_at query' i" if "i \<le> 10" for i
    using agree_u16 [OF assms] that by (simp add: header_size_def)
  then show ?thesis by (simp add: parse_header_def)
qed (simp add: parse_header_def)

lemma ProcessQuestions_agree:
  assumes "agree len query query'" "header_size \<le> len"
  shows "ProcessQuestions env query len hdr buffer = ProcessQuestions env query' len hdr buffer \<or>
    (\<exists>x x' b. ProcessQuestions env query len hdr buffer = (Inl x, b) \<and>
      ProcessQuestions env query' len hdr buffer = (Inl x', b) \<and>
      {x, x'} \<subseteq> {LabelHeaderException, QuestionHeaderException})"
proof -
  have "len - header_size \<le> len" "known_on mem p []" "known_within len []" for mem p
    by (simp_all add: known_on_def known_within_def)
  from read_questions_agree [OF assms(1) this(1,2,2,3), of env "unat (hdr_qdcount hdr)"
      "new_reply (resize header_size buffer)"]
  show ?thesis by (auto simp: ProcessQuestions_def)
qed

lemma handle_failure:
  "x \<in> {LabelHeaderException, QuestionHeaderException} \<Longrightarrow> handle x hdr w = (Inr (), reply_error SERVER_FAILURE hdr w)"
  by auto

lemma handle_reply:
  "wk_reply w = wk_reply w' \<Longrightarrow> fst (handle x hdr w) = fst (handle x hdr w') \<and>
    wk_reply (snd (handle x hdr w)) = wk_reply (snd (handle x hdr w'))"
  by (cases x) (simp_all add: reply_error_def unknown_name_def)

lemma ProcesssQuerey_agree:
  assumes "agree len (wk_query w) (wk_query w')"
  shows "fst (ProcesssQuerey env len w) = fst (ProcesssQuerey env len w') \<and>
    wk_reply (snd (ProcesssQuerey env len w)) = wk_reply (snd (ProcesssQuerey env len w'))"
proof (cases "parse_header (wk_query w) len")
  case (Inl x)
  with parse_header_agree [OF assms, symmetric] show ?thesis by (simp add: ProcesssQuerey_def Let_def)
next
  case (Inr hdr)
  then have long: "header_size \<le> len" by (auto simp: parse_header_def split: if_splits)
  show ?thesis
  proof (cases "\<not> GetQr hdr \<and> GetOpcode hdr = 0")
    case True
    let ?b = "[] :: bytes"
    from ProcessQuestions_agree [OF assms long, of env hdr ?b]
    consider "ProcessQuestions env (wk_query w) len hdr ?b = ProcessQuestions env (wk_query w') len hdr ?b"
      | x x' b where "ProcessQuestions env (wk_query w) len hdr ?b = (Inl x, b)"
        "ProcessQuestions env (wk_query w') len hdr ?b = (Inl x', b)"
        "{x, x'} \<subseteq> {LabelHeaderException, QuestionHeaderException}" by blast
    then show ?thesis
    proof cases
      case 1
      obtain r b where r: "ProcessQuestions env (wk_query w) len hdr ?b = (r, b)"
        by (cases "ProcessQuestions env (wk_query w) len hdr ?b")
      note pq = r r [unfolded 1] parse_header_agree [OF assms, symmetric]
      show ?thesis
      proof (cases r)
        case (Inl x)
        with True Inr pq handle_reply [of "w\<lparr>wk_reply := b\<rparr>" "w'\<lparr>wk_reply := b\<rparr>" x hdr] show ?thesis
          by (simp add: ProcesssQuerey_def Let_def del: handle.simps)
      next
        case Inr': (Inr u)
        with True Inr pq show ?thesis by (simp add: ProcesssQuerey_def Let_def)
      qed
    next
      case 2
      with True Inr parse_header_agree [OF assms, symmetric] show ?thesis
        by (auto simp: ProcesssQuerey_def handle_failure reply_error_def Let_def)
    qed
  next
    case False
    with Inr parse_header_agree [OF assms, symmetric] show ?thesis
      by (auto simp: ProcesssQuerey_def reply_error_def Let_def)
  qed
qed

section \<open>Rounds\<close>

text \<open>The answers to a sequence of datagrams, one round after the other.\<close>

fun answers :: "env \<Rightarrow> bytes list \<Rightarrow> worker \<Rightarrow> (exn + bytes option) list" where
  "answers env [] w = []"
| "answers env (d # ds) w = (let (r, w') = receive_one env d w in r # answers env ds w')"

lemma receive_one_agree:
  assumes "length d < length (wk_query w)" "length d < length (wk_query w')"
  shows "fst (receive_one env d w) = fst (receive_one env d w')"
proof -
  let ?w = "start_request d w" and ?w' = "start_request d w'"
  have "agree (length d) (wk_query ?w) (wk_query ?w')"
    using assms by (simp add: start_request_def agree_def)
  moreover obtain r w1 where "ProcesssQuerey env (length d) ?w = (r, w1)"
    by (cases "ProcesssQuerey env (length d) ?w")
  moreover obtain r' w1' where "ProcesssQuerey env (length d) ?w' = (r', w1')"
    by (cases "ProcesssQuerey env (length d) ?w'")
  ultimately have "r' = r" "wk_reply w1' = wk_reply w1"
    "ProcesssQuerey env (length d) ?w = (r, w1)" "ProcesssQuerey env (length d) ?w' = (r, w1')"
    using ProcesssQuerey_agree [of "length d" ?w ?w' env] by auto
  then show ?thesis by (cases r) (simp_all add: receive_one_def split: exn.split)
qed

lemma receive_one_keeps: "length d < length (wk_query w) \<Longrightarrow> length (wk_query (snd (receive_one env d w))) = length (wk_query w)"
proof -
  assume long: "length d < length (wk_query w)"
  obtain r w1 where p: "ProcesssQuerey env (length d) (start_request d w) = (r, w1)"
    by (cases "ProcesssQuerey env (length d) (start_request d w)")
  from ProcesssQuerey_effect [OF p] have "wk_query w1 = wk_query (start_request d w)" by (simp add: same_but_names_def)
  then have "length (wk_query w1) = length (wk_query w)" using long by (simp add: start_request_def)
  with p show ?thesis by (cases r) (simp_all add: receive_one_def request_done_def send_reply_def split: exn.split)
qed

text \<open>
  C13: answers do not depend on the past, for datagrams of less than the 512 bytes of the buffer. The query buffer still holds the end of an earlier, longer
  datagram, and the parser looks one byte past the end of a query; yet the answer to each of a
  sequence of such datagrams is the one that any other worker would give to that datagram alone, whatever
  both have been asked before. So no client can read out or influence what another one has sent by
  datagrams that leave a byte of the buffer free; one that fills it can make the parser read past its end.
\<close>

theorem answers_forget:
  assumes "list_all (\<lambda>d. length d < max_query_buffer) ds"
    and "length (wk_query w) = max_query_buffer" "length (wk_query w') = max_query_buffer"
  shows "answers env ds w = map (\<lambda>d. fst (receive_one env d w')) ds"
  using assms
proof (induction ds arbitrary: w)
  case (Cons d ds)
  then have "length d < length (wk_query w)" "length d < length (wk_query w')" by simp_all
  with receive_one_agree [OF this, of env] receive_one_keeps [of d w env] Cons show ?case
    by (simp add: split_beta)
qed simp

theorem answers_forget_witness:
  "answers site [site_query, status_request] (sample_worker\<lparr>wk_query := replicate max_query_buffer 0xC0\<rparr>) =
     map (\<lambda>d. fst (receive_one site d sample_worker)) [site_query, status_request]"
  by (rule answers_forget) (simp_all add: max_query_buffer_def sample_worker_def site_query_def status_request_def)

end
