(* ===== verification/DnsEndpoints.thy ===== *)
theory DnsEndpoints
  imports DnsForget "HOL-Library.Multiset"
begin

text \<open>
  The DNS server as a whole: \<open>StartReceivingUdpAt\<close>, the housekeeping and \<open>UpdateStats\<close> of
  \<open>DnsDaemonImpl\<close> in \<open>src/dnsd/DnsDaemon.cpp\<close>. A coroutine for each endpoint runs on some worker,
  with buffers of its own and the statistics of the worker's thread; it stops at the receive and at
  the send and is modelled by the steps between them.
\<close>

section \<open>State\<close>

text \<open>
  Where the coroutine of an endpoint stops: at the receive, at the send with the state of the
  request, or at its end. \<open>Overrun\<close> is a read outside the program's
  memory, or a loop without end; then the other endpoints of the worker wait for ever, too, which is one of the runs below.
\<close>

datatype endpoint_pc = Receiving | Sending RequestState | Stopped | Overrun

text \<open>
  The local variables of the coroutine, with the worker it runs on. A peer stands for an address
  that datagrams come from.
\<close>

type_synonym peer = nat

record endpoint =
  ep_worker :: nat
  ep_query :: bytes
  ep_reply :: bytes
  ep_sender :: peer
  ep_pc :: endpoint_pc

text \<open>
  The daemon: the thread-local statistics of the workers, the counter of datagrams, the endpoints,
  the workers of the coroutines that are spawned and have not started, and the workers that a
  housekeeping timer runs on.
\<close>

record dns_server =
  dn_stats :: "Statistics list"
  dn_incoming :: u64
  dn_spawned :: "nat list"
  dn_endpoints :: "endpoint list"
  dn_timers :: "nat list"
  dn_reported :: "Statistics list"

text \<open>The counter has no initial value.\<close>

definition new_dns_server :: "nat \<Rightarrow> u64 \<Rightarrow> dns_server" where
  "new_dns_server threads incoming = \<lparr>dn_stats = replicate threads new_Statistics, dn_incoming = incoming,
     dn_spawned = [], dn_endpoints = [], dn_timers = [], dn_reported = []\<rparr>"

section \<open>Operations\<close>

text \<open>One coroutine for each address that the host and port resolve to, on the worker the thread pool chooses.\<close>

definition StartReceivingUdpAt :: "nat list \<Rightarrow> dns_server \<Rightarrow> dns_server" where
  "StartReceivingUdpAt workers s = s\<lparr>dn_spawned := dn_spawned s @ workers\<rparr>"

definition ScheduleDnsHousekeeping :: "nat \<Rightarrow> dns_server \<Rightarrow> dns_server" where
  "ScheduleDnsHousekeeping i s = s\<lparr>dn_timers := dn_timers s @ [i]\<rparr>"

definition UpdateStats_dns :: "nat \<Rightarrow> dns_server \<Rightarrow> dns_server" where
  "UpdateStats_dns i s = s\<lparr>dn_reported := dn_reported s @ [dn_stats s ! i],
     dn_stats := (dn_stats s)[i := Reset_stats (dn_stats s ! i)]\<rparr>"

text \<open>
  A coroutine starts; where the socket cannot be opened or bound an exception leaves it. The
  memory of a new vector is zero.
\<close>

definition new_endpoint :: "nat \<Rightarrow> endpoint" where
  "new_endpoint i = \<lparr>ep_worker = i, ep_query = replicate max_query_buffer 0,
     ep_reply = replicate max_reply_buffer 0, ep_sender = 0, ep_pc = Receiving\<rparr>"

definition start_endpoint :: "nat \<Rightarrow> bool \<Rightarrow> dns_server \<Rightarrow> dns_server" where
  "start_endpoint i bound s =
     (if bound then ScheduleDnsHousekeeping i (s\<lparr>dn_endpoints := dn_endpoints s @ [new_endpoint i]\<rparr>) else s)"

text \<open>What a round of endpoint \<open>j\<close> works on, and what it leaves.\<close>

definition worker_of :: "nat \<Rightarrow> dns_server \<Rightarrow> worker" where
  "worker_of j s = (let e = dn_endpoints s ! j in
     \<lparr>wk_query = ep_query e, wk_reply = ep_reply e, wk_stats = dn_stats s ! ep_worker e,
      wk_request = UNSET, wk_incoming = dn_incoming s\<rparr>)"

definition after_round :: "nat \<Rightarrow> endpoint_pc \<Rightarrow> worker \<Rightarrow> dns_server \<Rightarrow> dns_server" where
  "after_round j pc w s = (let e = dn_endpoints s ! j in
     s\<lparr>dn_endpoints := (dn_endpoints s)[j := e\<lparr>ep_query := wk_query w, ep_reply := wk_reply w, ep_pc := pc\<rparr>],
       dn_stats := (dn_stats s)[ep_worker e := wk_stats w], dn_incoming := wk_incoming w\<rparr>)"

text \<open>From the receive to the send, or to the next receive.\<close>

definition on_datagram :: "env \<Rightarrow> nat \<Rightarrow> peer \<Rightarrow> bytes \<Rightarrow> dns_server \<Rightarrow> dns_server" where
  "on_datagram env j sender data s =
     (let s1 = s\<lparr>dn_endpoints := (dn_endpoints s)[j := (dn_endpoints s ! j)\<lparr>ep_sender := sender\<rparr>]\<rparr> in
      case ProcesssQuerey env (length data) (start_request data (worker_of j s1)) of
        (Inl UnknownDomain, w) \<Rightarrow> after_round j Receiving (request_done w) s1
      | (Inl UndefinedBehaviour, w) \<Rightarrow> after_round j Overrun w s1
      | (_, w) \<Rightarrow>
          if wk_reply w \<noteq> [] then after_round j (Sending (wk_request w)) w s1
          else after_round j Receiving (request_done w) s1)"

text \<open>The send returns, or throws: then the request is counted by the state it was in, and the coroutine ends.\<close>

definition on_sent :: "nat \<Rightarrow> RequestState \<Rightarrow> bool \<Rightarrow> dns_server \<Rightarrow> dns_server" where
  "on_sent j st ok s =
     (let w = worker_of j s
      in if ok then after_round j Receiving (request_done (send_reply w)) s
         else after_round j Stopped (request_done (w\<lparr>wk_request := st\<rparr>)) s)"

text \<open>The receive throws: the error code that is tested is not the one of the receive.\<close>

definition on_receive_fails :: "nat \<Rightarrow> dns_server \<Rightarrow> dns_server" where
  "on_receive_fails j s = s\<lparr>dn_endpoints := (dn_endpoints s)[j := (dn_endpoints s ! j)\<lparr>ep_pc := Stopped\<rparr>]\<rparr>"

section \<open>Runs\<close>

text \<open>
  What happens at endpoint \<open>j\<close>: a datagram is received, with the outcome of its round, or a reply is
  sent or could not be sent.
\<close>

datatype dns_event = Datagram nat peer bytes "exn + bytes option" | Sent nat peer bytes | Unsent nat peer bytes

text \<open>A datagram that is longer than the buffer is cut by the socket.\<close>

inductive dns_step :: "env \<Rightarrow> dns_server \<Rightarrow> dns_event list \<Rightarrow> dns_server \<Rightarrow> bool" for env where
  dns_starts: "\<forall>i \<in> set workers. i < length (dn_stats s) \<Longrightarrow> dns_step env s [] (StartReceivingUdpAt workers s)"
| dns_spawned: "dn_spawned s = xs @ i # ys \<Longrightarrow>
    dns_step env s [] (start_endpoint i bound (s\<lparr>dn_spawned := xs @ ys\<rparr>))"
| dns_receives: "\<lbrakk> j < length (dn_endpoints s); ep_pc (dn_endpoints s ! j) = Receiving; length data \<le> max_query_buffer \<rbrakk> \<Longrightarrow>
    dns_step env s [Datagram j sender data (fst (receive_one env data (worker_of j s)))] (on_datagram env j sender data s)"
| dns_receive_fails: "\<lbrakk> j < length (dn_endpoints s); ep_pc (dn_endpoints s ! j) = Receiving \<rbrakk> \<Longrightarrow>
    dns_step env s [] (on_receive_fails j s)"
| dns_sent: "\<lbrakk> j < length (dn_endpoints s); dn_endpoints s ! j = e; ep_pc e = Sending st \<rbrakk> \<Longrightarrow>
    dns_step env s [(if ok then Sent else Unsent) j (ep_sender e) (ep_reply e)] (on_sent j st ok s)"
| dns_housekeeping: "dn_timers s = xs @ i # ys \<Longrightarrow>
    dns_step env s [] (ScheduleDnsHousekeeping i (UpdateStats_dns i (s\<lparr>dn_timers := xs @ ys\<rparr>)))"

inductive dns_run :: "env \<Rightarrow> nat \<Rightarrow> u64 \<Rightarrow> dns_event list \<Rightarrow> dns_server \<Rightarrow> bool" for env threads incoming where
  dns_new: "dns_run env threads incoming [] (new_dns_server threads incoming)"
| dns_next: "dns_run env threads incoming es s \<Longrightarrow> dns_step env s es' s' \<Longrightarrow> dns_run env threads incoming (es @ es') s'"

section \<open>What the traces say\<close>

text \<open>The replies due at an endpoint with the peers they are due to, and those handed to its socket.\<close>

fun due :: "nat \<Rightarrow> dns_event list \<Rightarrow> (peer \<times> bytes) list" where
  "due j [] = []"
| "due j (Datagram i p d (Inr (Some b)) # es) = (if i = j then (p, b) # due j es else due j es)"
| "due j (_ # es) = due j es"

fun handed :: "nat \<Rightarrow> dns_event list \<Rightarrow> (peer \<times> bytes) list" where
  "handed j [] = []"
| "handed j (Sent i p b # es) = (if i = j then (p, b) # handed j es else handed j es)"
| "handed j (Unsent i p b # es) = (if i = j then (p, b) # handed j es else handed j es)"
| "handed j (_ # es) = handed j es"

definition pending :: "nat \<Rightarrow> dns_server \<Rightarrow> (peer \<times> bytes) list" where
  "pending j s = (if j < length (dn_endpoints s) then
     (let e = dn_endpoints s ! j in case ep_pc e of Sending st \<Rightarrow> [(ep_sender e, ep_reply e)] | _ \<Rightarrow> []) else [])"

fun received_events :: "dns_event list \<Rightarrow> nat" where
  "received_events [] = 0"
| "received_events (Datagram i p d a # es) = Suc (received_events es)"
| "received_events (_ # es) = received_events es"

fun sent_events :: "dns_event list \<Rightarrow> nat" where
  "sent_events [] = 0"
| "sent_events (Sent i p b # es) = Suc (sent_events es)"
| "sent_events (_ # es) = sent_events es"

text \<open>A counter over all workers and all reports.\<close>

definition total_dns :: "(Statistics \<Rightarrow> u64) \<Rightarrow> dns_server \<Rightarrow> u64" where
  "total_dns f s = (\<Sum>st \<leftarrow> dn_stats s. f st) + (\<Sum>st \<leftarrow> dn_reported s. f st)"

definition requests_done :: "Statistics \<Rightarrow> u64" where
  "requests_done st = ok_requests st + failed_requests st + bad_requests st"

text \<open>Requests that are received and not done with.\<close>

definition in_flight :: "dns_server \<Rightarrow> nat" where
  "in_flight s = length (filter (\<lambda>e. case ep_pc e of Receiving \<Rightarrow> False | Stopped \<Rightarrow> False | _ \<Rightarrow> True) (dn_endpoints s))"

lemma due_append [simp]: "due j (es @ es') = due j es @ due j es'"
  by (induction j es rule: due.induct) auto

lemma handed_append [simp]: "handed j (es @ es') = handed j es @ handed j es'"
  by (induction j es rule: handed.induct) auto

lemma received_events_append [simp]: "received_events (es @ es') = received_events es + received_events es'"
  by (induction es rule: received_events.induct) auto

lemma sent_events_append [simp]: "sent_events (es @ es') = sent_events es + sent_events es'"
  by (induction es rule: sent_events.induct) auto

section \<open>One step\<close>

lemma ProcesssQuerey_request:
  assumes "ProcesssQuerey env n w = (r, w')" "wk_request w = UNSET"
  shows "wk_request w' = UNSET \<or> wk_request w' = BAD"
proof -
  have h: "wk_request (snd (handle x hdr v)) \<in> {wk_request v, BAD}" for x hdr v
    by (cases x) (simp_all add: reply_error_def unknown_name_def)
  let ?w0 = "w\<lparr>wk_reply := []\<rparr>"
  have "wk_request w' \<in> {wk_request w, BAD}"
  proof (cases "parse_header (wk_query w) n")
    case (Inl x)
    with assms(1) show ?thesis by (auto simp: ProcesssQuerey_def Let_def)
  next
    case (Inr hdr)
    obtain pr b where p: "ProcessQuestions env (wk_query w) n hdr [] = (pr, b)"
      by (cases "ProcessQuestions env (wk_query w) n hdr []")
    have e: "ProcesssQuerey env n w = (if GetQr hdr then handle InvalidQuery hdr ?w0
        else if GetOpcode hdr = 0 then
          (case pr of Inr _ \<Rightarrow> (Inr (), w\<lparr>wk_reply := b\<rparr>) | Inl x \<Rightarrow> handle x hdr (w\<lparr>wk_reply := b\<rparr>))
        else (Inr (), reply_error NOT_IMPLEMENTED hdr ?w0))"
      using Inr p by (simp add: ProcesssQuerey_def Let_def del: handle.simps split: sum.splits)
    have "wk_request (snd (ProcesssQuerey env n w)) \<in> {wk_request w, BAD}"
      unfolding e using h [of InvalidQuery hdr ?w0] h [of _ hdr "w\<lparr>wk_reply := b\<rparr>"]
      by (cases pr) (auto simp: reply_error_def simp del: handle.simps)
    with assms(1) show ?thesis by simp
  qed
  with assms(2) show ?thesis by auto
qed

text \<open>The three ways a round goes on, with what it answers.\<close>

lemma on_datagram_cases:
  fixes sender :: peer and data :: bytes and env :: env
  assumes "j < length (dn_endpoints s)"
  defines "s1 \<equiv> s\<lparr>dn_endpoints := (dn_endpoints s)[j := (dn_endpoints s ! j)\<lparr>ep_sender := sender\<rparr>]\<rparr>"
    and "answer \<equiv> fst (receive_one env data (worker_of j s))"
  obtains w where "same_but_names (start_request data (worker_of j s)) w" "wk_request w \<in> {UNSET, BAD}"
    "answer = Inr (Some (wk_reply w)) \<and> on_datagram env j sender data s = after_round j (Sending (wk_request w)) w s1 \<or>
     answer = Inr None \<and> wk_request w = UNSET \<and> on_datagram env j sender data s = after_round j Receiving (request_done w) s1 \<or>
     answer = Inl UndefinedBehaviour \<and> on_datagram env j sender data s = after_round j Overrun w s1"
proof -
  let ?w = "start_request data (worker_of j s)"
  obtain r w where q: "ProcesssQuerey env (length data) ?w = (r, w)" by (cases "ProcesssQuerey env (length data) ?w")
  note eff = ProcesssQuerey_effect [OF q]
  have start: "wk_request ?w = UNSET" by (simp add: start_request_def)
  have same: "worker_of j s1 = worker_of j s" using assms(1) by (simp add: worker_of_def s1_def Let_def)
  have ans: "answer = fst (case (r, w) of
        (Inl UnknownDomain, w1) \<Rightarrow> (Inr None, request_done w1)
      | (Inl UndefinedBehaviour, w1) \<Rightarrow> (Inl UndefinedBehaviour, w1)
      | (_, w1) \<Rightarrow>
          if wk_reply w1 \<noteq> [] then (Inr (Some (wk_reply w1)), request_done (send_reply w1))
          else (Inr None, request_done w1))"
    by (simp add: answer_def receive_one_def q)
  have od: "on_datagram env j sender data s = (case (r, w) of
        (Inl UnknownDomain, w) \<Rightarrow> after_round j Receiving (request_done w) s1
      | (Inl UndefinedBehaviour, w) \<Rightarrow> after_round j Overrun w s1
      | (_, w) \<Rightarrow>
          if wk_reply w \<noteq> [] then after_round j (Sending (wk_request w)) w s1
          else after_round j Receiving (request_done w) s1)"
    by (simp add: on_datagram_def s1_def [symmetric] same q)
  show thesis
  proof (rule that [of w])
    show "wk_request w \<in> {UNSET, BAD}" using ProcesssQuerey_request [OF q start] by auto
    show "same_but_names ?w w" using eff by blast
    from eff start have unset: "r = Inr () \<and> wk_reply w \<noteq> [] \<or> (\<exists>x. r = Inl x \<and> wk_request w = UNSET)"
      by (auto dest: replies_to_nonempty)
    show "answer = Inr (Some (wk_reply w)) \<and> on_datagram env j sender data s = after_round j (Sending (wk_request w)) w s1 \<or>
     answer = Inr None \<and> wk_request w = UNSET \<and> on_datagram env j sender data s = after_round j Receiving (request_done w) s1 \<or>
     answer = Inl UndefinedBehaviour \<and> on_datagram env j sender data s = after_round j Overrun w s1"
    proof (cases r)
      case (Inr u)
      with unset show ?thesis by (simp add: ans od)
    next
      case (Inl x)
      with unset show ?thesis by (cases x) (simp_all add: ans od)
    qed
  qed
qed

definition busy :: "endpoint_pc \<Rightarrow> bool" where
  "busy pc \<longleftrightarrow> (case pc of Receiving \<Rightarrow> False | Stopped \<Rightarrow> False | _ \<Rightarrow> True)"

lemma busy_simps [simp]: "\<not> busy Receiving" "\<not> busy Stopped" "busy (Sending st)" "busy Overrun"
  by (simp_all add: busy_def)

lemma in_flight_busy: "in_flight s = length (filter (\<lambda>e. busy (ep_pc e)) (dn_endpoints s))"
  by (simp add: in_flight_def busy_def)

lemma after_round_totals:
  assumes "j < length (dn_endpoints s)" "ep_worker (dn_endpoints s ! j) < length (dn_stats s)"
  shows "total_dns f (after_round j pc w s) + f (wk_stats (worker_of j s)) = total_dns f s + f (wk_stats w)"
    "in_flight (after_round j pc w s) + (if busy (ep_pc (dn_endpoints s ! j)) then 1 else 0) =
      in_flight s + (if busy pc then 1 else 0)"
proof -
  show "total_dns f (after_round j pc w s) + f (wk_stats (worker_of j s)) = total_dns f s + f (wk_stats w)"
    using sum_list_change [of "ep_worker (dn_endpoints s ! j)" "map f (dn_stats s)" "f (wk_stats w)"] assms
    by (simp add: total_dns_def after_round_def worker_of_def map_update algebra_simps Let_def)
  show "in_flight (after_round j pc w s) + (if busy (ep_pc (dn_endpoints s ! j)) then 1 else 0) =
      in_flight s + (if busy pc then 1 else 0)"
    using length_filter_update [OF assms(1), of "\<lambda>e. busy (ep_pc e)"
        "(dn_endpoints s ! j)\<lparr>ep_query := wk_query w, ep_reply := wk_reply w, ep_pc := pc\<rparr>"]
    by (simp add: in_flight_busy after_round_def Let_def)
qed

lemma after_round_frame [simp]:
  "dn_spawned (after_round j pc w s) = dn_spawned s" "dn_timers (after_round j pc w s) = dn_timers s"
  "dn_reported (after_round j pc w s) = dn_reported s" "dn_incoming (after_round j pc w s) = wk_incoming w"
  "length (dn_stats (after_round j pc w s)) = length (dn_stats s)"
  "length (dn_endpoints (after_round j pc w s)) = length (dn_endpoints s)"
  by (simp_all add: after_round_def Let_def)

lemma after_round_pending:
  "j < length (dn_endpoints s) \<Longrightarrow> pending i (after_round j pc w s) =
    (if i = j then (case pc of Sending st \<Rightarrow> [(ep_sender (dn_endpoints s ! j), wk_reply w)] | _ \<Rightarrow> []) else pending i s)"
  by (simp add: pending_def after_round_def Let_def split: endpoint_pc.split)

section \<open>Invariants\<close>

definition endpoint_ok :: "dns_server \<Rightarrow> endpoint \<Rightarrow> bool" where
  "endpoint_ok s e \<longleftrightarrow> ep_worker e < length (dn_stats s) \<and> length (ep_query e) = max_query_buffer \<and>
     ep_pc e \<in> {Receiving, Sending UNSET, Sending BAD, Stopped, Overrun}"

definition endpoints_ok :: "dns_server \<Rightarrow> bool" where
  "endpoints_ok s \<longleftrightarrow> list_all (endpoint_ok s) (dn_endpoints s) \<and> (\<forall>i \<in> set (dn_spawned s). i < length (dn_stats s)) \<and>
     mset (dn_timers s) = mset (map ep_worker (dn_endpoints s))"

definition counted_ok :: "u64 \<Rightarrow> dns_event list \<Rightarrow> dns_server \<Rightarrow> bool" where
  "counted_ok incoming es s \<longleftrightarrow> total_dns requests_done s + of_nat (in_flight s) = of_nat (received_events es) \<and>
     total_dns ok_requests s = of_nat (sent_events es) \<and> dn_incoming s = incoming + of_nat (received_events es)"

definition ordered :: "dns_event list \<Rightarrow> dns_server \<Rightarrow> bool" where
  "ordered es s \<longleftrightarrow> (\<forall>j. due j es = handed j es @ pending j s)"

lemma after_round_ok:
  assumes "endpoints_ok s" "j < length (dn_endpoints s)" "length (wk_query w) = max_query_buffer"
    and "pc \<in> {Receiving, Sending UNSET, Sending BAD, Stopped, Overrun}"
  shows "endpoints_ok (after_round j pc w s)"
proof -
  let ?e = "dn_endpoints s ! j"
  have e: "endpoint_ok s ?e" using assms(1,2) by (simp add: endpoints_ok_def list_all_length)
  have "map ep_worker ((dn_endpoints s)[j := ?e\<lparr>ep_query := wk_query w, ep_reply := wk_reply w, ep_pc := pc\<rparr>]) =
      map ep_worker (dn_endpoints s)"
    by (metis (no_types, lifting) endpoint.ext_inject endpoint.surjective endpoint.update_convs(2,3,5) list_update_id map_update)
  then have "mset (dn_timers s) = mset (map ep_worker (dn_endpoints (after_round j pc w s)))"
    using assms(1) by (simp add: endpoints_ok_def after_round_def Let_def)
  moreover have "list_all (endpoint_ok (after_round j pc w s)) (dn_endpoints (after_round j pc w s))"
  proof -
    have "endpoint_ok (after_round j pc w s) x"
      if "x = ?e\<lparr>ep_query := wk_query w, ep_reply := wk_reply w, ep_pc := pc\<rparr> \<or> endpoint_ok s x" for x
      using that e assms(3,4) by (auto simp: endpoint_ok_def)
    moreover have "x = ?e\<lparr>ep_query := wk_query w, ep_reply := wk_reply w, ep_pc := pc\<rparr> \<or> endpoint_ok s x"
      if "x \<in> set (dn_endpoints (after_round j pc w s))" for x
    proof -
      from that have "x \<in> insert (?e\<lparr>ep_query := wk_query w, ep_reply := wk_reply w, ep_pc := pc\<rparr>) (set (dn_endpoints s))"
        using set_update_subset_insert by (fastforce simp: after_round_def Let_def)
      with assms(1) show ?thesis by (auto simp: endpoints_ok_def list_all_iff)
    qed
    ultimately show ?thesis unfolding list_all_iff by blast
  qed
  ultimately show ?thesis using assms(1) by (simp add: endpoints_ok_def)
qed

text \<open>A change of the peer of an endpoint that is not sending changes none of this.\<close>

lemma sender_set:
  fixes sender :: peer
  assumes "j < length (dn_endpoints s)" "ep_pc (dn_endpoints s ! j) = Receiving" "endpoints_ok s"
  defines "s1 \<equiv> s\<lparr>dn_endpoints := (dn_endpoints s)[j := (dn_endpoints s ! j)\<lparr>ep_sender := sender\<rparr>]\<rparr>"
  shows "endpoints_ok s1" "total_dns f s1 = total_dns f s" "in_flight s1 = in_flight s" "pending i s1 = pending i s"
    "worker_of j s1 = worker_of j s" "length (dn_endpoints s1) = length (dn_endpoints s)"
    "ep_pc (dn_endpoints s1 ! j) = Receiving" "ep_sender (dn_endpoints s1 ! j) = sender"
    "ep_worker (dn_endpoints s1 ! j) < length (dn_stats s1)"
proof -
  let ?e = "dn_endpoints s ! j"
  have e: "endpoint_ok s ?e" using assms(1,3) by (simp add: endpoints_ok_def list_all_length)
  have m: "map ep_worker (dn_endpoints s1) = map ep_worker (dn_endpoints s)"
    by (simp add: s1_def map_update) (metis list_update_id map_update)
  have "endpoint_ok s1 x" if "x \<in> set (dn_endpoints s1)" for x
  proof -
    from that have "x = ?e\<lparr>ep_sender := sender\<rparr> \<or> x \<in> set (dn_endpoints s)"
      using set_update_subset_insert by (fastforce simp: s1_def)
    with assms(3) e show ?thesis by (auto simp: endpoints_ok_def list_all_iff endpoint_ok_def s1_def)
  qed
  with m assms(3) show "endpoints_ok s1" by (simp add: endpoints_ok_def list_all_iff) (simp add: s1_def)
  show "total_dns f s1 = total_dns f s" by (simp add: total_dns_def s1_def)
  show "in_flight s1 = in_flight s"
    using length_filter_update [OF assms(1), of "\<lambda>e. busy (ep_pc e)" "?e\<lparr>ep_sender := sender\<rparr>"] assms(2)
    by (simp add: in_flight_busy s1_def)
  show "pending i s1 = pending i s" using assms(1,2) by (auto simp: pending_def s1_def nth_list_update Let_def)
  show "worker_of j s1 = worker_of j s" using assms(1) by (simp add: worker_of_def s1_def Let_def)
  show "length (dn_endpoints s1) = length (dn_endpoints s)" "ep_pc (dn_endpoints s1 ! j) = Receiving"
    "ep_sender (dn_endpoints s1 ! j) = sender" "ep_worker (dn_endpoints s1 ! j) < length (dn_stats s1)"
    using assms(1,2) e by (simp_all add: s1_def endpoint_ok_def)
qed

lemma same_done: "same_but_names w w' \<Longrightarrow> requests_done (wk_stats w') = requests_done (wk_stats w) \<and>
    ok_requests (wk_stats w') = ok_requests (wk_stats w) \<and> wk_incoming w' = wk_incoming w \<and> wk_query w' = wk_query w"
  using same_counters [of w w'] by (simp add: requests_done_def same_but_names_def)

lemma request_done_counts:
  "wk_request w \<in> {UNSET, BAD} \<Longrightarrow> requests_done (wk_stats (request_done w)) = requests_done (wk_stats w) + 1 \<and>
     ok_requests (wk_stats (request_done w)) = ok_requests (wk_stats w)"
  "wk_request w = SUCESS \<Longrightarrow> requests_done (wk_stats (request_done w)) = requests_done (wk_stats w) + 1 \<and>
     ok_requests (wk_stats (request_done w)) = ok_requests (wk_stats w) + 1"
  by (auto simp: request_done_def requests_done_def)

lemma request_done_frame [simp]: "wk_query (request_done w) = wk_query w" "wk_incoming (request_done w) = wk_incoming w"
  "wk_reply (request_done w) = wk_reply w"
  by (simp_all add: request_done_def)

lemma start_request_frame: "requests_done (wk_stats (start_request d w)) = requests_done (wk_stats w)"
  "ok_requests (wk_stats (start_request d w)) = ok_requests (wk_stats w)"
  "wk_incoming (start_request d w) = wk_incoming w + 1"
  "length d \<le> length (wk_query w) \<Longrightarrow> length (wk_query (start_request d w)) = length (wk_query w)"
  by (simp_all add: start_request_def requests_done_def)

lemma received_ok:
  fixes sender :: peer and env :: env
  assumes "endpoints_ok s" "counted_ok incoming es s" "ordered es s"
    and "j < length (dn_endpoints s)" "ep_pc (dn_endpoints s ! j) = Receiving" "length data \<le> max_query_buffer"
  defines "es' \<equiv> [Datagram j sender data (fst (receive_one env data (worker_of j s)))]"
    and "s' \<equiv> on_datagram env j sender data s"
  shows "endpoints_ok s' \<and> counted_ok incoming (es @ es') s' \<and> ordered (es @ es') s' \<and> length (dn_stats s') = length (dn_stats s)"
proof -
  let ?w0 = "worker_of j s"
  let ?s1 = "s\<lparr>dn_endpoints := (dn_endpoints s)[j := (dn_endpoints s ! j)\<lparr>ep_sender := sender\<rparr>]\<rparr>"
  note s1 = sender_set [OF assms(4,5,1), where sender = sender]
  have q: "length (wk_query ?w0) = max_query_buffer"
    using assms(1,4) by (simp add: endpoints_ok_def list_all_length endpoint_ok_def worker_of_def Let_def)
  obtain w where w: "same_but_names (start_request data ?w0) w" "wk_request w \<in> {UNSET, BAD}"
    and r: "fst (receive_one env data ?w0) = Inr (Some (wk_reply w)) \<and> s' = after_round j (Sending (wk_request w)) w ?s1 \<or>
     fst (receive_one env data ?w0) = Inr None \<and> wk_request w = UNSET \<and> s' = after_round j Receiving (request_done w) ?s1 \<or>
     fst (receive_one env data ?w0) = Inl UndefinedBehaviour \<and> s' = after_round j Overrun w ?s1"
    unfolding s'_def by (rule on_datagram_cases [OF assms(4), of data env sender])
  have kept: "requests_done (wk_stats w) = requests_done (wk_stats ?w0)" "ok_requests (wk_stats w) = ok_requests (wk_stats ?w0)"
    "wk_incoming w = dn_incoming s + 1" "length (wk_query w) = max_query_buffer"
    using same_done [OF w(1)] start_request_frame [of data ?w0] q assms(6) by (simp_all add: worker_of_def Let_def)
  obtain pc v where v: "s' = after_round j pc v ?s1" "pc \<in> {Receiving, Sending UNSET, Sending BAD, Stopped, Overrun}"
      "length (wk_query v) = max_query_buffer" "wk_incoming v = dn_incoming s + 1"
      "ok_requests (wk_stats v) = ok_requests (wk_stats ?w0)"
      "requests_done (wk_stats v) + (if busy pc then 1 else 0) = requests_done (wk_stats ?w0) + 1"
      "due i es' = (if i = j then (case pc of Sending st \<Rightarrow> [(sender, wk_reply v)] | _ \<Rightarrow> []) else [])" for i
    using r
  proof (elim disjE conjE, goal_cases)
    case 1
    then show thesis using w(2) kept by (intro 1(1) [of "Sending (wk_request w)" w]) (auto simp: es'_def)
  next
    case 2
    then show thesis using request_done_counts(1) [OF w(2)] kept
      by (intro 2(1) [of Receiving "request_done w"]) (auto simp: es'_def)
  next
    case 3
    then show thesis using kept by (intro 3(1) [of Overrun w]) (auto simp: es'_def)
  qed
  have "endpoints_ok s'"
    unfolding v(1) using v(2,3) s1(1,6) assms(4) by (intro after_round_ok) simp_all
  moreover have "counted_ok incoming (es @ es') s'"
  proof -
    have j: "j < length (dn_endpoints ?s1)" using assms(4) s1(6) by simp
    note t = after_round_totals [OF j s1(9), where pc = pc and w = v, folded v(1), unfolded s1(2,3,5,7)]
    have "total_dns ok_requests s' = total_dns ok_requests s" using t(1) [of ok_requests] v(5) by simp
    moreover have "total_dns requests_done s' + of_nat (in_flight s') = total_dns requests_done s + of_nat (in_flight s) + 1"
      using t(1) [of requests_done] t(2) v(6) by (cases "busy pc") auto
    ultimately show ?thesis using assms(2) v(1,4) by (simp add: counted_ok_def es'_def)
  qed
  moreover have "ordered (es @ es') s'"
  proof -
    have "pending i s' = (if i = j then (case pc of Sending st \<Rightarrow> [(sender, wk_reply v)] | _ \<Rightarrow> []) else pending i s)" for i
      using after_round_pending [of j ?s1 i pc v, unfolded s1(4,8)] assms(4) s1(6) by (simp add: v(1))
    moreover have "pending j s = []" using assms(5) by (simp add: pending_def)
    moreover have "handed i es' = []" for i by (simp add: es'_def)
    ultimately show ?thesis using assms(3) v(7) by (simp add: ordered_def)
  qed
  ultimately show ?thesis by (simp add: v(1))
qed

lemma sent_ok:
  fixes ok :: bool
  assumes "endpoints_ok s" "counted_ok incoming es s" "ordered es s"
    and "j < length (dn_endpoints s)" "dn_endpoints s ! j = e" "ep_pc e = Sending st"
  defines "es' \<equiv> [(if ok then Sent else Unsent) j (ep_sender e) (ep_reply e)]" and "s' \<equiv> on_sent j st ok s"
  shows "endpoints_ok s' \<and> counted_ok incoming (es @ es') s' \<and> ordered (es @ es') s' \<and> length (dn_stats s') = length (dn_stats s)"
proof -
  let ?w0 = "worker_of j s"
  let ?pc = "if ok then Receiving else Stopped"
  let ?v = "if ok then request_done (send_reply ?w0) else request_done (?w0\<lparr>wk_request := st\<rparr>)"
  have s': "s' = after_round j ?pc ?v s" by (simp add: s'_def on_sent_def Let_def)
  have e: "endpoint_ok s e" using assms(1,4,5) by (auto simp: endpoints_ok_def list_all_length)
  then have st: "st \<in> {UNSET, BAD}" and q: "length (wk_query ?v) = max_query_buffer" "wk_incoming ?v = dn_incoming s"
    using assms(5,6) by (auto simp: endpoint_ok_def worker_of_def send_reply_def Let_def)
  have n: "requests_done (wk_stats ?v) = requests_done (wk_stats ?w0) + 1"
    "ok_requests (wk_stats ?v) = ok_requests (wk_stats ?w0) + (if ok then 1 else 0)"
    using request_done_counts(1) [of "?w0\<lparr>wk_request := st\<rparr>"] request_done_counts(2) [of "send_reply ?w0"] st
    by (auto simp: send_reply_def requests_done_def)
  have "endpoints_ok s'"
    unfolding s' using assms(1,4) q by (intro after_round_ok) simp_all
  moreover have "counted_ok incoming (es @ es') s'"
  proof -
    have "ep_worker (dn_endpoints s ! j) < length (dn_stats s)" using e assms(5) by (simp add: endpoint_ok_def)
    note t = after_round_totals [OF assms(4) this, where pc = ?pc and w = ?v, folded s']
    have "total_dns ok_requests s' = total_dns ok_requests s + (if ok then 1 else 0)"
      using t(1) [of ok_requests] n(2) by (simp add: algebra_simps split: if_splits)
    moreover have "in_flight s' + 1 = in_flight s" using t(2) assms(5,6) by (auto split: if_splits)
    then have "of_nat (in_flight s') + 1 = (of_nat (in_flight s) :: u64)" by (metis of_nat_1 of_nat_add)
    then have "total_dns requests_done s' + of_nat (in_flight s') = total_dns requests_done s + of_nat (in_flight s)"
      using t(1) [of requests_done] n(1) by (simp add: algebra_simps)
    ultimately show ?thesis using assms(2) q(2) by (auto simp: counted_ok_def es'_def s')
  qed
  moreover have "ordered (es @ es') s'"
  proof -
    have "pending i s' = (if i = j then [] else pending i s)" for i
      using after_round_pending [OF assms(4), of i ?pc ?v] by (auto simp: s')
    moreover have "pending j s = [(ep_sender e, ep_reply e)]" using assms(4-6) by (simp add: pending_def)
    moreover have "handed i es' = (if i = j then [(ep_sender e, ep_reply e)] else [])" "due i es' = []" for i
      by (simp_all add: es'_def)
    ultimately show ?thesis using assms(3) by (simp add: ordered_def)
  qed
  ultimately show ?thesis by (simp add: s')
qed

text \<open>The round of a datagram at a server that has just started.\<close>

definition fresh_worker :: worker where
  "fresh_worker = \<lparr>wk_query = replicate max_query_buffer 0, wk_reply = replicate max_reply_buffer 0,
     wk_stats = new_Statistics, wk_request = UNSET, wk_incoming = 0\<rparr>"

definition answered_alone :: "env \<Rightarrow> dns_event \<Rightarrow> bool" where
  "answered_alone env ev \<longleftrightarrow> (case ev of
     Datagram j p d a \<Rightarrow> length d = max_query_buffer \<or> a = fst (receive_one env d fresh_worker) | _ \<Rightarrow> True)"

lemma busy_append: "in_flight (s\<lparr>dn_endpoints := dn_endpoints s @ [new_endpoint i]\<rparr>) = in_flight s"
  by (simp add: in_flight_busy new_endpoint_def)

lemma dns_step_ok:
  assumes "dns_step env s es' s'" "endpoints_ok s" "counted_ok incoming es s" "ordered es s"
  shows "endpoints_ok s' \<and> counted_ok incoming (es @ es') s' \<and> ordered (es @ es') s' \<and> length (dn_stats s') = length (dn_stats s) \<and>
    list_all (answered_alone env) es'"
  using assms(1)
proof cases
  case (dns_starts workers)
  with assms(2-4) show ?thesis
    by (auto simp: StartReceivingUdpAt_def endpoints_ok_def endpoint_ok_def list_all_iff counted_ok_def total_dns_def in_flight_def
        ordered_def pending_def)
next
  case (dns_spawned xs i ys bound)
  let ?s = "s\<lparr>dn_spawned := xs @ ys\<rparr>"
  have i: "i < length (dn_stats s)" and sp: "\<forall>i \<in> set (dn_spawned ?s). i < length (dn_stats s)"
    using assms(2) dns_spawned(3) by (auto simp: endpoints_ok_def)
  have ok: "endpoints_ok ?s" "counted_ok incoming es ?s" "ordered es ?s"
    using assms(2-4) sp by (simp_all add: endpoints_ok_def endpoint_ok_def list_all_iff counted_ok_def total_dns_def in_flight_def
        ordered_def pending_def)
  show ?thesis
  proof (cases bound)
    case False
    with ok dns_spawned show ?thesis by (simp add: start_endpoint_def)
  next
    case True
    let ?t = "?s\<lparr>dn_endpoints := dn_endpoints s @ [new_endpoint i], dn_timers := dn_timers s @ [i]\<rparr>"
    have s': "s' = ?t" using dns_spawned True by (simp add: start_endpoint_def ScheduleDnsHousekeeping_def)
    have "endpoints_ok ?t"
      using ok(1) i by (auto simp: endpoints_ok_def endpoint_ok_def list_all_iff new_endpoint_def)
    moreover have "counted_ok incoming es ?t"
      using ok(2) by (simp add: counted_ok_def total_dns_def in_flight_busy new_endpoint_def)
    moreover have "pending j ?t = pending j ?s" for j
      by (auto simp: pending_def nth_append new_endpoint_def not_less less_Suc_eq)
    then have "ordered es ?t" using ok(3) by (simp add: ordered_def)
    ultimately show ?thesis using dns_spawned(1) by (simp add: s')
  qed
next
  case (dns_receives j data sender)
  have "length (wk_query (worker_of j s)) = max_query_buffer"
    using assms(2) dns_receives(3) by (simp add: endpoints_ok_def list_all_length endpoint_ok_def worker_of_def Let_def)
  moreover have "length data = max_query_buffer \<or> length data < max_query_buffer" using dns_receives(5) by auto
  moreover have "length (wk_query fresh_worker) = max_query_buffer" by (simp add: fresh_worker_def)
  ultimately have "list_all (answered_alone env) es'"
    using receive_one_agree [of data "worker_of j s" fresh_worker env] dns_receives(1) by (auto simp: answered_alone_def)
  with received_ok [OF assms(2-4) dns_receives(3-5), of env sender] dns_receives(1,2) show ?thesis by simp
next
  case (dns_receive_fails j)
  let ?e = "dn_endpoints s ! j"
  have e: "endpoint_ok s ?e" using assms(2) dns_receive_fails(3) by (simp add: endpoints_ok_def list_all_length)
  have st: "s' = s\<lparr>dn_endpoints := (dn_endpoints s)[j := ?e\<lparr>ep_pc := Stopped\<rparr>]\<rparr>"
    using dns_receive_fails(2) by (simp add: on_receive_fails_def)
  have "map ep_worker (dn_endpoints s') = map ep_worker (dn_endpoints s)"
    by (simp add: st map_update) (metis list_update_id map_update)
  moreover have "endpoint_ok s' x" if "x \<in> set (dn_endpoints s')" for x
  proof -
    from that have "x = ?e\<lparr>ep_pc := Stopped\<rparr> \<or> x \<in> set (dn_endpoints s)"
      using set_update_subset_insert by (fastforce simp: st)
    with assms(2) e show ?thesis by (auto simp: endpoints_ok_def list_all_iff endpoint_ok_def st)
  qed
  ultimately have "endpoints_ok s'" using assms(2) by (simp add: endpoints_ok_def list_all_iff) (simp add: st)
  moreover have "in_flight s' = in_flight s"
    using length_filter_update [OF dns_receive_fails(3), of "\<lambda>e. busy (ep_pc e)" "?e\<lparr>ep_pc := Stopped\<rparr>"] dns_receive_fails(4)
    by (simp add: in_flight_busy st)
  then have "counted_ok incoming es s'" using assms(3) by (simp add: counted_ok_def total_dns_def) (simp add: st)
  moreover have "pending i s' = pending i s" for i
    using dns_receive_fails(3,4) by (auto simp: pending_def st nth_list_update Let_def)
  then have "ordered es s'" using assms(4) by (simp add: ordered_def)
  ultimately show ?thesis using dns_receive_fails(1) by (simp add: st)
next
  case (dns_sent j e st ok)
  with sent_ok [OF assms(2-4) dns_sent(3-5), of ok] show ?thesis by (simp add: answered_alone_def)
next
  case (dns_housekeeping xs i ys)
  have t: "mset (dn_timers s) = mset (xs @ ys @ [i])" using dns_housekeeping(3) by simp
  have i: "i < length (dn_stats s)"
  proof -
    have "i \<in> set_mset (mset (map ep_worker (dn_endpoints s)))"
      using assms(2) dns_housekeeping(3) unfolding endpoints_ok_def by (metis in_set_conv_decomp set_mset_mset)
    with assms(2) show ?thesis by (auto simp: endpoints_ok_def list_all_iff endpoint_ok_def)
  qed
  let ?s' = "s\<lparr>dn_timers := xs @ ys @ [i], dn_reported := dn_reported s @ [dn_stats s ! i],
     dn_stats := (dn_stats s)[i := Reset_stats (dn_stats s ! i)]\<rparr>"
  have st: "s' = ?s'" using dns_housekeeping by (simp add: ScheduleDnsHousekeeping_def UpdateStats_dns_def)
  have "total_dns f s' = total_dns f s" if "f (Reset_stats (dn_stats s ! i)) = 0" for f
    using sum_list_change [of i "map f (dn_stats s)" 0] i that
    by (simp add: st total_dns_def map_update algebra_simps)
  then have "total_dns requests_done s' = total_dns requests_done s" "total_dns ok_requests s' = total_dns ok_requests s"
    by (simp_all add: requests_done_def Reset_stats_def)
  then have "counted_ok incoming es s'" using assms(3) by (simp add: counted_ok_def) (simp add: st in_flight_def)
  moreover have "endpoints_ok s'"
    using assms(2) t by (simp add: st endpoints_ok_def endpoint_ok_def list_all_iff)
  moreover have "ordered es s'" using assms(4) by (simp add: st ordered_def pending_def)
  ultimately show ?thesis using dns_housekeeping(1) by (simp add: st)
qed

lemma dns_run_ok:
  assumes "dns_run env threads incoming es s"
  shows "endpoints_ok s \<and> counted_ok incoming es s \<and> ordered es s \<and> list_all (answered_alone env) es"
  using assms
proof induction
  case dns_new
  show ?case
    by (simp add: new_dns_server_def endpoints_ok_def counted_ok_def ordered_def pending_def total_dns_def in_flight_def
        requests_done_def new_Statistics_def sum_list_replicate)
next
  case (dns_next es s es' s')
  then have "endpoints_ok s" "counted_ok incoming es s" "ordered es s" "list_all (answered_alone env) es" by auto
  from dns_step_ok [OF dns_next.hyps(2) this(1-3)] this(4) show ?case by simp
qed

text \<open>
  C9: the DNS server with all its endpoints and workers. However receives, sends, failures and the
  housekeeping interleave: a datagram that leaves a byte of the buffer free is answered as it would be
  alone, by a server that has just started; at every endpoint the replies are handed to the
  socket in the order of the datagrams, each for the peer that asked, and none is lost or repeated; every datagram is counted
  once, as soon as it is done with, by the worker or in a report; and a worker has one housekeeping
  timer for each endpoint it was given, also when that endpoint has stopped.
\<close>

theorem dns_server_runs:
  assumes "dns_run env threads incoming es s"
  shows "list_all (answered_alone env) es \<and> due j es = handed j es @ pending j s \<and>
    total_dns requests_done s + of_nat (in_flight s) = of_nat (received_events es) \<and>
    total_dns ok_requests s = of_nat (sent_events es) \<and> dn_incoming s = incoming + of_nat (received_events es) \<and>
    mset (dn_timers s) = mset (map ep_worker (dn_endpoints s))"
  using dns_run_ok [OF assms] by (simp add: endpoints_ok_def counted_ok_def ordered_def)

section \<open>A sample run\<close>

text \<open>Two endpoints on one worker; a request at the second one.\<close>

definition sample_listening :: dns_server where
  "sample_listening = start_endpoint 1 True (start_endpoint 1 True
     (StartReceivingUdpAt [1, 1] (new_dns_server 2 0)\<lparr>dn_spawned := [1]\<rparr>)\<lparr>dn_spawned := []\<rparr>)"

definition sample_reply :: bytes where
  "sample_reply = [0x12, 0x34, 0x90, 4, 0, 0, 0, 0, 0, 0, 0, 0]"

definition sample_answered :: dns_server where
  "sample_answered = on_sent 1 UNSET True (on_datagram sample_env 1 7 status_request sample_listening)"

lemma sample_dns_run:
  "dns_run sample_env 2 0 [Datagram 1 7 status_request (Inr (Some sample_reply)), Sent 1 7 sample_reply] sample_answered"
proof -
  let ?s0 = "new_dns_server 2 0"
  let ?s1 = "StartReceivingUdpAt [1, 1] ?s0"
  let ?s2 = "start_endpoint 1 True (?s1\<lparr>dn_spawned := [1]\<rparr>)"
  let ?s4 = "on_datagram sample_env 1 7 status_request sample_listening"
  have "dns_step sample_env ?s0 [] ?s1" by (rule dns_starts) (simp add: new_dns_server_def)
  with dns_new have "dns_run sample_env 2 0 [] ?s1" using dns_next by fastforce
  moreover have "dns_step sample_env ?s1 [] ?s2"
    using dns_spawned [of ?s1 "[]" 1 "[1]" sample_env True] by (simp add: StartReceivingUdpAt_def new_dns_server_def)
  ultimately have "dns_run sample_env 2 0 [] ?s2" using dns_next by fastforce
  moreover have "dns_step sample_env ?s2 [] sample_listening"
    using dns_spawned [of ?s2 "[]" 1 "[]" sample_env True]
    by (simp add: sample_listening_def start_endpoint_def ScheduleDnsHousekeeping_def)
  ultimately have "dns_run sample_env 2 0 [] sample_listening" using dns_next by fastforce
  moreover have "dns_step sample_env sample_listening
      [Datagram 1 7 status_request (fst (receive_one sample_env status_request (worker_of 1 sample_listening)))] ?s4"
    by (rule dns_receives) code_simp+
  ultimately have "dns_run sample_env 2 0
      [Datagram 1 7 status_request (fst (receive_one sample_env status_request (worker_of 1 sample_listening)))] ?s4"
    using dns_next by fastforce
  moreover have "fst (receive_one sample_env status_request (worker_of 1 sample_listening)) = Inr (Some sample_reply)"
    by code_simp
  moreover have "dns_step sample_env ?s4 [Sent 1 7 sample_reply] sample_answered"
  proof -
    have e: "1 < length (dn_endpoints ?s4)" "ep_pc (dn_endpoints ?s4 ! 1) = Sending UNSET"
      "ep_sender (dn_endpoints ?s4 ! 1) = 7" "ep_reply (dn_endpoints ?s4 ! 1) = sample_reply" by code_simp+
    from dns_sent [OF e(1) refl e(2), of sample_env True] e(3,4) show ?thesis by (simp add: sample_answered_def)
  qed
  ultimately show ?thesis using dns_next by fastforce
qed

theorem dns_server_runs_witness:
  "answered_alone sample_env (Datagram 1 7 status_request (Inr (Some sample_reply))) \<and>
   [(7, sample_reply)] = [(7, sample_reply)] @ pending 1 sample_answered \<and>
   total_dns requests_done sample_answered + of_nat (in_flight sample_answered) = 1 \<and>
   total_dns ok_requests sample_answered = 1 \<and> dn_incoming sample_answered = 1 \<and>
   mset (dn_timers sample_answered) = mset (map ep_worker (dn_endpoints sample_answered))"
  using dns_server_runs [OF sample_dns_run, of 1] by simp

end
