(* ===== verification/ConnMgr.thy ===== *)
theory ConnMgr
  imports Stats
begin

text \<open>
  The connections of one worker: class \<open>ConnectionMgr\<close> of \<open>src/httpd/HttpDaemon.cpp\<close>. The
  entry of a connection stands for the connection object it owns; of that object the manager
  sees whether its socket is open.
\<close>

section \<open>State\<close>

record ConnectionEntry =
  ce_key :: u64
  ce_expire :: int

record ConnectionMgr =
  cm_connections :: "ConnectionEntry list"
  cm_dead :: "ConnectionEntry list"
  cm_open :: "u64 set"
  cm_next_key :: u64
  cm_stats :: Statistics

definition new_mgr :: ConnectionMgr where
  "new_mgr = \<lparr>cm_connections = [], cm_dead = [], cm_open = {}, cm_next_key = 0,
     cm_stats = new_Statistics\<rparr>"

section \<open>Operations\<close>

text \<open>
  The key is a parameter of type \<open>int\<close>, so it is cut to 32 bits, and widened with its sign
  for the comparison.
\<close>

definition as_int :: "u64 \<Rightarrow> u64" where
  "as_int key = scast (ucast key :: 32 word)"

fun position :: "u64 \<Rightarrow> ConnectionEntry list \<Rightarrow> nat option" where
  "position key [] = None"
| "position key (e # es) = (if ce_key e = key then Some 0 else map_option Suc (position key es))"

definition Lookup_conn :: "u64 \<Rightarrow> ConnectionEntry list \<Rightarrow> nat option" where
  "Lookup_conn key es = position (as_int key) es"

definition erase :: "nat \<Rightarrow> 'a list \<Rightarrow> 'a list" where
  "erase i xs = take i xs @ drop (Suc i) xs"

text \<open>\<open>Kill\<close> takes an iterator, here its index.\<close>

definition Kill :: "nat \<Rightarrow> ConnectionMgr \<Rightarrow> ConnectionMgr" where
  "Kill i m =
     (let e = cm_connections m ! i
      in m\<lparr>cm_open := cm_open m - {ce_key e}, cm_dead := cm_dead m @ [e],
           cm_connections := erase i (cm_connections m)\<rparr>)"

definition CreateConnection :: "nat \<Rightarrow> int \<Rightarrow> ConnectionMgr \<Rightarrow> u64 \<times> ConnectionMgr" where
  "CreateConnection max_connections now m =
     (let key = cm_next_key m + 1;
          m1 = m\<lparr>cm_next_key := key, cm_open := insert key (cm_open m),
                 cm_connections := cm_connections m @ [\<lparr>ce_key = key, ce_expire = now + 3\<rparr>]\<rparr>
      in (key, if max_connections \<noteq> 0 \<and> max_connections < length (cm_connections m1)
               then Kill 0 m1 else m1))"

text \<open>\<open>Remove\<close> destroys the entry, and with it the connection and its socket.\<close>

definition Remove :: "u64 \<Rightarrow> ConnectionMgr \<Rightarrow> ConnectionMgr" where
  "Remove key m =
     (case Lookup_conn key (cm_connections m) of
        Some i \<Rightarrow> m\<lparr>cm_open := cm_open m - {ce_key (cm_connections m ! i)},
                    cm_connections := erase i (cm_connections m)\<rparr>
      | None \<Rightarrow>
          (case Lookup_conn key (cm_dead m) of
             Some i \<Rightarrow> m\<lparr>cm_dead := erase i (cm_dead m)\<rparr>
           | None \<Rightarrow> m))"

definition SetEndOfLife :: "u64 \<Rightarrow> int \<Rightarrow> ConnectionMgr \<Rightarrow> ConnectionMgr" where
  "SetEndOfLife key eol m =
     (case Lookup_conn key (cm_connections m) of
        Some i \<Rightarrow> m\<lparr>cm_connections := (cm_connections m)[i := (cm_connections m ! i)\<lparr>ce_expire := eol\<rparr>]\<rparr>
      | None \<Rightarrow> m)"

fun RemoveConnections :: "u64 list \<Rightarrow> ConnectionMgr \<Rightarrow> ConnectionMgr" where
  "RemoveConnections [] m = m"
| "RemoveConnections (key # keys) m =
     RemoveConnections keys
       (case Lookup_conn key (cm_connections m) of
          Some i \<Rightarrow> Kill i (m\<lparr>cm_stats := (cm_stats m)\<lparr>overflow_dropped_connections :=
                       overflow_dropped_connections (cm_stats m) + 1\<rparr>\<rparr>)
        | None \<Rightarrow> m)"

definition is_expired :: "int \<Rightarrow> ConnectionEntry \<Rightarrow> bool" where
  "is_expired now e \<longleftrightarrow> ce_expire e \<noteq> 0 \<and> ce_expire e < now"

definition RemoveExpieredConnections :: "int \<Rightarrow> ConnectionMgr \<Rightarrow> ConnectionMgr" where
  "RemoveExpieredConnections now m =
     (if cm_connections m = [] then m
      else let expiered = map ce_key (filter (is_expired now) (cm_connections m))
      in RemoveConnections expiered
           (m\<lparr>cm_stats := (cm_stats m)\<lparr>timeout_dropped_connections :=
               timeout_dropped_connections (cm_stats m) + of_nat (length expiered)\<rparr>\<rparr>))"

definition CloseSocket :: "u64 \<Rightarrow> ConnectionMgr \<Rightarrow> ConnectionMgr" where
  "CloseSocket key m = m\<lparr>cm_open := cm_open m - {key}\<rparr>"

section \<open>Runs\<close>

text \<open>
  What can happen to a manager: a connection is accepted, closes its socket, extends its
  life, or ends; the housekeeping fires. The key counter is shared by the managers of all
  workers, so another one may take a key. Keys are counted up to the point of wrapping around.
\<close>

inductive mgr_step :: "nat \<Rightarrow> ConnectionMgr \<Rightarrow> ConnectionMgr \<Rightarrow> bool" for limit where
  step_create: "cm_next_key m \<noteq> -1 \<Longrightarrow> mgr_step limit m (snd (CreateConnection limit now m))"
| step_elsewhere: "cm_next_key m \<noteq> -1 \<Longrightarrow> mgr_step limit m (m\<lparr>cm_next_key := cm_next_key m + 1\<rparr>)"
| step_close: "mgr_step limit m (CloseSocket key m)"
| step_extend: "mgr_step limit m (SetEndOfLife key eol m)"
| step_remove: "mgr_step limit m (Remove key m)"
| step_housekeeping: "mgr_step limit m (RemoveExpieredConnections now m)"

inductive mgr_reachable :: "nat \<Rightarrow> ConnectionMgr \<Rightarrow> bool" for limit where
  reach_new: "mgr_reachable limit new_mgr"
| reach_step: "mgr_reachable limit m \<Longrightarrow> mgr_step limit m m' \<Longrightarrow> mgr_reachable limit m'"

inductive_cases mgr_stepE: "mgr_step limit m m'"

definition keys_of :: "ConnectionMgr \<Rightarrow> u64 list" where
  "keys_of m = map ce_key (cm_connections m) @ map ce_key (cm_dead m)"

definition mgr_ok :: "nat \<Rightarrow> ConnectionMgr \<Rightarrow> bool" where
  "mgr_ok limit m \<longleftrightarrow> distinct (keys_of m) \<and> (\<forall>k \<in> set (keys_of m). k \<le> cm_next_key m) \<and>
     cm_open m \<subseteq> ce_key ` set (cm_connections m) \<and>
     (limit = 0 \<or> length (cm_connections m) \<le> limit)"

lemma set_erase: "i < length xs \<Longrightarrow> set (erase i xs) \<subseteq> set xs"
  by (auto simp: erase_def dest: in_set_takeD in_set_dropD)

lemma map_erase: "map f (erase i xs) = erase i (map f xs)"
  by (simp add: erase_def take_map drop_map)

lemma length_erase: "i < length xs \<Longrightarrow> length (erase i xs) = length xs - 1"
  by (auto simp: erase_def)

lemma distinct_erase: "distinct xs \<Longrightarrow> i < length xs \<Longrightarrow>
    distinct (erase i xs) \<and> set (erase i xs) = set xs - {xs ! i}"
proof -
  assume a: "distinct xs" "i < length xs"
  then have "xs = take i xs @ xs ! i # drop (Suc i) xs" by (simp add: id_take_nth_drop)
  with a(1) have "distinct (take i xs @ xs ! i # drop (Suc i) xs)"
    "set xs = set (take i xs @ xs ! i # drop (Suc i) xs)" by metis+
  then show ?thesis by (auto simp: erase_def)
qed

lemma position_Some: "position key es = Some i \<Longrightarrow> i < length es \<and> ce_key (es ! i) = key"
  by (induction es arbitrary: i) (auto split: if_splits)

lemma position_None: "position key es = None \<longleftrightarrow> key \<notin> ce_key ` set es"
  by (induction es) auto

lemma Lookup_conn_Some: "Lookup_conn key es = Some i \<Longrightarrow> i < length es \<and> ce_key (es ! i) = as_int key"
  by (simp add: Lookup_conn_def position_Some)

lemma keys_of_erase:
  assumes "distinct (keys_of m)" "i < length (cm_connections m)"
  shows "ce_key ` set (erase i (cm_connections m)) =
      ce_key ` set (cm_connections m) - {ce_key (cm_connections m ! i)}"
    "distinct (map ce_key (erase i (cm_connections m)))"
    "ce_key (cm_connections m ! i) \<notin> set (map ce_key (cm_dead m))"
proof -
  have d: "distinct (map ce_key (cm_connections m))" using assms(1) by (simp add: keys_of_def)
  from distinct_erase [OF d, of i] assms(2)
  show "ce_key ` set (erase i (cm_connections m)) =
      ce_key ` set (cm_connections m) - {ce_key (cm_connections m ! i)}"
    "distinct (map ce_key (erase i (cm_connections m)))"
    unfolding list.set_map [symmetric] map_erase by auto
  have "ce_key (cm_connections m ! i) \<in> ce_key ` set (cm_connections m)" using assms(2) by simp
  with assms(1) show "ce_key (cm_connections m ! i) \<notin> set (map ce_key (cm_dead m))"
    by (auto simp: keys_of_def)
qed

lemma Kill_ok:
  assumes "distinct (keys_of m)" "\<forall>k \<in> set (keys_of m). k \<le> cm_next_key m"
    "cm_open m \<subseteq> ce_key ` set (cm_connections m)" "i < length (cm_connections m)"
    "limit = 0 \<or> length (cm_connections m) \<le> Suc limit"
  shows "mgr_ok limit (Kill i m)"
  using assms keys_of_erase [OF assms(1,4)]
  by (auto simp: mgr_ok_def Kill_def keys_of_def Let_def length_erase)

lemma mgr_ok_stats [simp]: "mgr_ok limit (m\<lparr>cm_stats := st\<rparr>) = mgr_ok limit m"
  by (simp add: mgr_ok_def keys_of_def)

lemma RemoveConnections_ok: "mgr_ok limit m \<Longrightarrow> mgr_ok limit (RemoveConnections keys m)"
proof (induction keys arbitrary: m)
  case (Cons key keys)
  have "mgr_ok limit (Kill i (m\<lparr>cm_stats := st\<rparr>))" if "Lookup_conn key (cm_connections m) = Some i" for i st
    using Cons.prems Lookup_conn_Some [OF that]
    by (intro Kill_ok) (auto simp: mgr_ok_def keys_of_def)
  with Cons show ?case by (auto split: option.splits)
qed simp

lemma next_key_up: "cm_next_key m \<noteq> -1 \<Longrightarrow> cm_next_key m < cm_next_key m + 1"
  using unatSuc [of "cm_next_key m"] by (simp add: word_less_nat_alt add.commute eq_neg_iff_add_eq_0)

lemma CreateConnection_ok:
  assumes "mgr_ok limit m" "cm_next_key m \<noteq> -1"
  shows "mgr_ok limit (snd (CreateConnection limit now m))"
proof -
  let ?key = "cm_next_key m + 1"
  let ?m1 = "m\<lparr>cm_next_key := ?key, cm_open := insert ?key (cm_open m),
     cm_connections := cm_connections m @ [\<lparr>ce_key = ?key, ce_expire = now + 3\<rparr>]\<rparr>"
  have up: "cm_next_key m < ?key"
    using assms(2) by (rule next_key_up)
  with assms(1) have new: "?key \<notin> set (keys_of m)" by (fastforce simp: mgr_ok_def)
  have low: "k \<le> ?key" if "k \<in> set (keys_of m)" for k
    using assms(1) that less_imp_le [OF up] by (auto simp: mgr_ok_def intro: order_trans)
  have m1: "distinct (keys_of ?m1)" "\<forall>k \<in> set (keys_of ?m1). k \<le> cm_next_key ?m1"
      "cm_open ?m1 \<subseteq> ce_key ` set (cm_connections ?m1)"
    using assms(1) new low less_imp_le [OF up] by (auto simp: mgr_ok_def keys_of_def)
  show ?thesis
  proof (cases "limit \<noteq> 0 \<and> limit < length (cm_connections ?m1)")
    case True
    with m1 assms(1) have "mgr_ok limit (Kill 0 ?m1)"
      by (intro Kill_ok) (auto simp: mgr_ok_def)
    with True show ?thesis by (simp add: CreateConnection_def Let_def)
  next
    case False
    with m1 have "mgr_ok limit ?m1" by (auto simp: mgr_ok_def)
    with False show ?thesis by (auto simp: CreateConnection_def Let_def)
  qed
qed

lemma Remove_ok:
  assumes "mgr_ok limit m"
  shows "mgr_ok limit (Remove key m)"
proof -
  from assms have d: "distinct (keys_of m)" by (simp add: mgr_ok_def)
  show ?thesis
  proof (cases "Lookup_conn key (cm_connections m)")
    case (Some i)
    with assms Lookup_conn_Some [OF Some] keys_of_erase [OF d, of i] show ?thesis
      by (auto simp: Remove_def mgr_ok_def keys_of_def length_erase)
  next
    case None
    show ?thesis
    proof (cases "Lookup_conn key (cm_dead m)")
      case (Some i)
      then have i: "i < length (cm_dead m)" by (auto dest: Lookup_conn_Some)
      from d have "distinct (map ce_key (cm_dead m))" by (simp add: keys_of_def)
      from distinct_erase [OF this, of i] i
      have e: "distinct (map ce_key (erase i (cm_dead m)))"
        "ce_key ` set (erase i (cm_dead m)) \<subseteq> ce_key ` set (cm_dead m)"
        using set_erase [OF i] by (auto simp: map_erase)
      with assms Some None show ?thesis
        by (auto simp: Remove_def mgr_ok_def keys_of_def)
    qed (use None assms in \<open>simp add: Remove_def\<close>)
  qed
qed

lemma SetEndOfLife_ok:
  assumes "mgr_ok limit m"
  shows "mgr_ok limit (SetEndOfLife key eol m)"
proof (cases "Lookup_conn key (cm_connections m)")
  case (Some i)
  let ?es = "(cm_connections m)[i := (cm_connections m ! i)\<lparr>ce_expire := eol\<rparr>]"
  from Lookup_conn_Some [OF Some] have keys: "map ce_key ?es = map ce_key (cm_connections m)"
    by (metis ConnectionEntry.select_convs(1) ConnectionEntry.surjective ConnectionEntry.update_convs(2)
        list_update_id map_update)
  then have "ce_key ` set ?es = ce_key ` set (cm_connections m)" by (metis list.set_map)
  with Some assms keys show ?thesis by (simp add: SetEndOfLife_def mgr_ok_def keys_of_def)
qed (use assms in \<open>simp add: SetEndOfLife_def\<close>)

lemma step_ok: "mgr_step limit m m' \<Longrightarrow> mgr_ok limit m \<Longrightarrow> mgr_ok limit m'"
proof (erule mgr_stepE)
  fix now
  assume "mgr_ok limit m" "m' = RemoveExpieredConnections now m"
  then show "mgr_ok limit m'"
    by (simp add: RemoveExpieredConnections_def RemoveConnections_ok Let_def)
next
  assume "mgr_ok limit m" "m' = m\<lparr>cm_next_key := cm_next_key m + 1\<rparr>" "cm_next_key m \<noteq> -1"
  moreover from this have "k \<le> cm_next_key m + 1" if "k \<in> set (keys_of m)" for k
    using that next_key_up [of m] unfolding mgr_ok_def by (meson less_imp_le order_trans)
  ultimately show "mgr_ok limit m'" by (auto simp: mgr_ok_def keys_of_def)
next
  fix key
  assume "mgr_ok limit m" "m' = CloseSocket key m"
  then show "mgr_ok limit m'" by (auto simp: CloseSocket_def mgr_ok_def keys_of_def)
qed (auto intro: CreateConnection_ok Remove_ok SetEndOfLife_ok)

lemma reachable_ok: "mgr_reachable limit m \<Longrightarrow> mgr_ok limit m"
proof (induction rule: mgr_reachable.induct)
  case reach_new
  show ?case by (simp add: mgr_ok_def new_mgr_def keys_of_def)
qed (rule step_ok)

text \<open>
  In every reachable state of a manager no two connections, live or dead, share a key,
  only live connections have an open socket, and a limit on the live connections is kept.
\<close>

theorem manager_invariant:
  assumes "mgr_reachable limit m"
  shows "distinct (keys_of m) \<and> cm_open m \<subseteq> ce_key ` set (cm_connections m) \<and>
    (limit = 0 \<or> length (cm_connections m) \<le> limit)"
  using reachable_ok [OF assms] by (simp add: mgr_ok_def)

theorem manager_invariant_witness:
  "distinct (keys_of (snd (CreateConnection 1 100 (snd (CreateConnection 1 99 new_mgr))))) \<and>
   cm_open (snd (CreateConnection 1 100 (snd (CreateConnection 1 99 new_mgr)))) \<subseteq>
     ce_key ` set (cm_connections (snd (CreateConnection 1 100 (snd (CreateConnection 1 99 new_mgr))))) \<and>
   ((1 :: nat) = 0 \<or>
     length (cm_connections (snd (CreateConnection 1 100 (snd (CreateConnection 1 99 new_mgr))))) \<le> 1)"
proof (rule manager_invariant)
  have "mgr_reachable 1 (snd (CreateConnection 1 99 new_mgr))"
    by (rule reach_step [OF reach_new step_create]) (simp add: new_mgr_def)
  then show "mgr_reachable 1 (snd (CreateConnection 1 100 (snd (CreateConnection 1 99 new_mgr))))"
    by (rule reach_step [OF _ step_create]) (simp add: new_mgr_def CreateConnection_def Let_def)
qed

section \<open>Expiry\<close>

text \<open>The keys a 32-bit signed parameter can carry.\<close>

definition small_key :: "u64 \<Rightarrow> bool" where
  "small_key key \<longleftrightarrow> key < 2 ^ 31"

lemma as_int_small: "small_key key \<Longrightarrow> as_int key = key"
proof -
  assume "small_key key"
  then have "key AND mask 31 = key" by (simp add: small_key_def less_mask_eq)
  then have hi: "\<not> bit key n" if "31 \<le> n" for n
    using that by (metis bit_and_iff bit_mask_iff not_less)
  show ?thesis
    unfolding as_int_def by (rule bit_word_eqI) (auto simp: bit_simps min_def hi)
qed

lemma position_entry:
  "distinct (map ce_key es) \<Longrightarrow> e \<in> set es \<Longrightarrow>
     \<exists>i. position (ce_key e) es = Some i \<and> i < length es \<and> es ! i = e"
proof (induction es)
  case (Cons x es)
  show ?case
  proof (cases "x = e")
    case False
    with Cons.prems have "e \<in> set es" "ce_key x \<noteq> ce_key e" by auto
    with Cons show ?thesis by fastforce
  qed simp
qed simp

lemma erase_filter: "distinct xs \<Longrightarrow> i < length xs \<Longrightarrow> erase i xs = filter (\<lambda>x. x \<noteq> xs ! i) xs"
proof (induction xs arbitrary: i)
  case (Cons x xs)
  show ?case
  proof (cases i)
    case 0
    have "filter (\<lambda>y. y \<noteq> x) xs = xs" by (rule filter_True) (use Cons.prems in auto)
    with 0 show ?thesis by (simp add: erase_def)
  next
    case (Suc j)
    with Cons show ?thesis by (auto simp: erase_def)
  qed
qed simp

lemma RemoveConnections_entries:
  assumes "distinct (map ce_key (cm_connections m))" "distinct xs" "set xs \<subseteq> set (cm_connections m)"
    and "\<forall>e \<in> set xs. small_key (ce_key e)"
  shows "let m' = RemoveConnections (map ce_key xs) m in
     cm_connections m' = filter (\<lambda>e. e \<notin> set xs) (cm_connections m) \<and> cm_dead m' = cm_dead m @ xs \<and>
     cm_open m' = cm_open m - ce_key ` set xs \<and> cm_next_key m' = cm_next_key m \<and>
     cm_stats m' = (cm_stats m)\<lparr>overflow_dropped_connections :=
       overflow_dropped_connections (cm_stats m) + of_nat (length xs)\<rparr>"
  using assms
proof (induction xs arbitrary: m)
  case (Cons x xs)
  let ?es = "cm_connections m"
  let ?m1 = "m\<lparr>cm_stats := (cm_stats m)\<lparr>overflow_dropped_connections :=
      overflow_dropped_connections (cm_stats m) + 1\<rparr>\<rparr>"
  from Cons.prems obtain i where i: "Lookup_conn (ce_key x) ?es = Some i" "i < length ?es" "?es ! i = x"
    using position_entry [of ?es x] as_int_small [of "ce_key x"] by (auto simp: Lookup_conn_def)
  have "distinct ?es" using Cons.prems(1) by (simp add: distinct_map)
  from erase_filter [OF this i(2)] i(3)
  have k: "cm_connections (Kill i ?m1) = filter (\<lambda>e. e \<noteq> x) ?es" "cm_dead (Kill i ?m1) = cm_dead m @ [x]"
      "cm_open (Kill i ?m1) = cm_open m - {ce_key x}" "cm_next_key (Kill i ?m1) = cm_next_key m"
      "cm_stats (Kill i ?m1) = cm_stats ?m1"
    using i(3) by (simp_all add: Kill_def Let_def)
  have "distinct (map ce_key (cm_connections (Kill i ?m1)))"
    using Cons.prems(1) by (simp add: k distinct_map_filter)
  moreover have "set xs \<subseteq> set (cm_connections (Kill i ?m1))" using Cons.prems(2,3) by (auto simp: k)
  ultimately show ?case
    using Cons.IH [of "Kill i ?m1"] Cons.prems i(1)
    by (auto simp: k Let_def conj_commute add.assoc intro!: filter_cong)
qed (simp add: Let_def)

lemma expiry_entries:
  fixes now :: int
  assumes "mgr_ok limit m" "\<forall>e \<in> set (cm_connections m). small_key (ce_key e)"
  defines "m' \<equiv> RemoveExpieredConnections now m" and "gone \<equiv> filter (is_expired now) (cm_connections m)"
  shows "cm_connections m' = filter (\<lambda>e. \<not> is_expired now e) (cm_connections m)" "cm_dead m' = cm_dead m @ gone"
    "cm_open m' = cm_open m - ce_key ` set gone"
    "timeout_dropped_connections (cm_stats m') = timeout_dropped_connections (cm_stats m) + of_nat (length gone)"
    "overflow_dropped_connections (cm_stats m') = overflow_dropped_connections (cm_stats m) + of_nat (length gone)"
proof -
  from assms(1) have d: "distinct (map ce_key (cm_connections m))" by (simp add: mgr_ok_def keys_of_def)
  then have "distinct gone" by (simp add: distinct_map gone_def)
  let ?m1 = "m\<lparr>cm_stats := (cm_stats m)\<lparr>timeout_dropped_connections :=
      timeout_dropped_connections (cm_stats m) + of_nat (length gone)\<rparr>\<rparr>"
  have "filter (\<lambda>e. e \<notin> set gone) (cm_connections m) = filter (\<lambda>e. \<not> is_expired now e) (cm_connections m)"
    by (rule filter_cong) (auto simp: gone_def)
  moreover have "set gone \<subseteq> set (cm_connections m)" by (auto simp: gone_def)
  moreover have "\<forall>e \<in> set gone. small_key (ce_key e)" using assms(2) by (auto simp: gone_def)
  moreover have m': "m' = (if cm_connections m = [] then m else RemoveConnections (map ce_key gone) ?m1)"
    by (simp add: m'_def gone_def RemoveExpieredConnections_def Let_def)
  moreover have "gone = []" if "cm_connections m = []" using that by (simp add: gone_def)
  ultimately have "cm_connections m' = filter (\<lambda>e. \<not> is_expired now e) (cm_connections m) \<and> cm_dead m' = cm_dead m @ gone \<and>
      cm_open m' = cm_open m - ce_key ` set gone \<and>
      timeout_dropped_connections (cm_stats m') = timeout_dropped_connections (cm_stats m) + of_nat (length gone) \<and>
      overflow_dropped_connections (cm_stats m') = overflow_dropped_connections (cm_stats m) + of_nat (length gone)"
    using RemoveConnections_entries [of ?m1 gone] d assms(2) \<open>distinct gone\<close>
    by (cases "cm_connections m = []") (auto simp: Let_def)
  then show "cm_connections m' = filter (\<lambda>e. \<not> is_expired now e) (cm_connections m)" "cm_dead m' = cm_dead m @ gone"
    "cm_open m' = cm_open m - ce_key ` set gone"
    "timeout_dropped_connections (cm_stats m') = timeout_dropped_connections (cm_stats m) + of_nat (length gone)"
    "overflow_dropped_connections (cm_stats m') = overflow_dropped_connections (cm_stats m) + of_nat (length gone)"
    by auto
qed

text \<open>
  C32: the housekeeping kills exactly the connections whose time is over, in their order, and
  closes their sockets, as long as keys fit the parameter of the lookup. Each of them is
  counted twice, as timed out and as dropped for overflow.
\<close>

theorem expiry_exact:
  assumes "mgr_reachable limit m" "\<forall>e \<in> set (cm_connections m). small_key (ce_key e)"
  shows "let m' = RemoveExpieredConnections now m; gone = filter (is_expired now) (cm_connections m) in
     cm_connections m' = filter (\<lambda>e. \<not> is_expired now e) (cm_connections m) \<and>
     cm_dead m' = cm_dead m @ gone \<and> cm_open m' = cm_open m - ce_key ` set gone \<and>
     timeout_dropped_connections (cm_stats m') =
       timeout_dropped_connections (cm_stats m) + of_nat (length gone) \<and>
     overflow_dropped_connections (cm_stats m') =
       overflow_dropped_connections (cm_stats m) + of_nat (length gone)"
  using expiry_entries [OF reachable_ok [OF assms(1)] assms(2), of now] by (simp add: Let_def)

theorem expiry_exact_witness:
  "let m = snd (CreateConnection 0 99 new_mgr); m' = RemoveExpieredConnections 103 m;
       gone = filter (is_expired 103) (cm_connections m) in
     cm_connections m' = filter (\<lambda>e. \<not> is_expired 103 e) (cm_connections m) \<and>
     cm_dead m' = cm_dead m @ gone \<and> cm_open m' = cm_open m - ce_key ` set gone \<and>
     timeout_dropped_connections (cm_stats m') =
       timeout_dropped_connections (cm_stats m) + of_nat (length gone) \<and>
     overflow_dropped_connections (cm_stats m') =
       overflow_dropped_connections (cm_stats m) + of_nat (length gone)"
proof -
  have "mgr_reachable 0 (snd (CreateConnection 0 99 new_mgr))"
    by (rule reach_step [OF reach_new step_create]) (simp add: new_mgr_def)
  moreover have "\<forall>e \<in> set (cm_connections (snd (CreateConnection 0 99 new_mgr))). small_key (ce_key e)"
    by (simp add: CreateConnection_def new_mgr_def small_key_def Let_def)
  ultimately show ?thesis using expiry_exact [of 0 _ 103] unfolding Let_def by blast
qed

text \<open>
  Keys from \<open>2 ^ 31\<close> on are out of the reach of the lookup, whatever key is looked up: what it compares with is below them, or
  has its sign bit set.
\<close>

definition large_key :: "u64 \<Rightarrow> bool" where
  "large_key key \<longleftrightarrow> 2 ^ 31 \<le> key \<and> key < 2 ^ 63"

definition large_part :: "ConnectionMgr \<Rightarrow> ConnectionEntry list \<times> u64 set" where
  "large_part m = (filter (\<lambda>e. large_key (ce_key e)) (cm_connections m), {k \<in> cm_open m. large_key k})"

lemma bit_below: "(w :: u64) < 2 ^ k \<Longrightarrow> bit w n \<Longrightarrow> n < k"
  using less_mask_eq [of w k] by (metis bit_and_iff bit_mask_iff)

lemma below_bits:
  assumes "\<And>n. bit w n \<Longrightarrow> n < 31"
  shows "(w :: u64) < 2 ^ 31"
proof -
  have "w = w AND mask 31" using assms by (intro bit_word_eqI) (auto simp: bit_simps)
  moreover have "w AND mask 31 < 2 ^ 31" by (rule and_mask_less') simp
  ultimately show ?thesis by simp
qed

lemma as_int_sign:
  "bit key 31 \<Longrightarrow> 2 ^ 63 \<le> as_int key" "\<not> bit key 31 \<Longrightarrow> as_int key < 2 ^ 31"
proof -
  assume "bit key 31"
  then have "bit (as_int key) 63" by (simp add: as_int_def bit_simps)
  then show "2 ^ 63 \<le> as_int key" using bit_below [of "as_int key" 63 63] by (meson less_irrefl linorder_not_le)
next
  assume plus: "\<not> bit key 31"
  show "as_int key < 2 ^ 31"
  proof (rule below_bits)
    fix n assume "bit (as_int key) n"
    with plus show "n < 31" by (cases "n < 31") (auto simp: as_int_def bit_simps min_def split: if_splits)
  qed
qed

lemma Lookup_conn_small: "Lookup_conn key es = Some i \<Longrightarrow> \<not> large_key (ce_key (es ! i))"
  using as_int_sign [of key] Lookup_conn_Some [of key es i] by (cases "bit key 31") (auto simp: large_key_def)

lemma filter_erase: "i < length xs \<Longrightarrow> \<not> P (xs ! i) \<Longrightarrow> filter P (erase i xs) = filter P xs"
  by (subst (3) id_take_nth_drop [of i]) (simp_all add: erase_def)

lemma filter_changed: "\<not> P (xs ! i) \<Longrightarrow> \<not> P x \<Longrightarrow> filter P (xs[i := x]) = filter P xs"
proof (cases "i < length xs")
  case True
  assume "\<not> P (xs ! i)" "\<not> P x"
  with True show ?thesis by (subst (2) id_take_nth_drop [OF True]) (simp add: upd_conv_take_nth_drop)
qed (simp add: list_update_beyond)

lemma SetEndOfLife_large: "large_part (SetEndOfLife key eol m) = large_part m"
  using Lookup_conn_small [of key "cm_connections m"]
  by (auto simp: SetEndOfLife_def large_part_def filter_changed split: option.splits)

lemma Kill_large: "i < length (cm_connections m) \<Longrightarrow> \<not> large_key (ce_key (cm_connections m ! i)) \<Longrightarrow> large_part (Kill i m) = large_part m"
  by (auto simp: Kill_def large_part_def filter_erase Let_def)

lemma Remove_large: "large_part (Remove key m) = large_part m"
  using Lookup_conn_small [of key "cm_connections m"] Lookup_conn_Some [of key "cm_connections m"]
  by (auto simp: Remove_def large_part_def filter_erase split: option.splits)

lemma large_part_stats [simp]: "large_part (m\<lparr>cm_stats := st\<rparr>) = large_part m"
  by (simp add: large_part_def)

lemma RemoveConnections_large: "large_part (RemoveConnections keys m) = large_part m"
proof (induction keys arbitrary: m)
  case (Cons key keys)
  show ?case
  proof (cases "Lookup_conn key (cm_connections m)")
    case (Some i)
    with Kill_large [of i "m\<lparr>cm_stats := st\<rparr>" for st] Lookup_conn_small [OF Some] Lookup_conn_Some [OF Some] Cons
    show ?thesis by simp
  qed (use Cons in simp)
qed simp

lemma RemoveExpieredConnections_large: "large_part (RemoveExpieredConnections now m) = large_part m"
  by (simp add: RemoveExpieredConnections_def RemoveConnections_large Let_def)

text \<open>
  C37: connections are not found again from the key \<open>2 ^ 31\<close> on. While keys are below \<open>2 ^ 63\<close>, the lookup of a key from \<open>2 ^ 31\<close> up to \<open>2 ^ 32\<close>
  finds nothing, so the life of such a connection is not extended; and in any state of a manager, the connections with keys from \<open>2 ^ 31\<close> up to \<open>2 ^ 63\<close>
  keep their entries, in their order and with their times, and their sockets, whichever keys are removed or extended and whatever expires.
\<close>

theorem large_keys_never_found:
  assumes "2 ^ 31 \<le> key" "key < 2 ^ 32" "\<forall>e \<in> set (cm_connections m). ce_key e < 2 ^ 63"
  shows "Lookup_conn key (cm_connections m) = None \<and> SetEndOfLife key eol m = m \<and>
    large_part (SetEndOfLife any eol m) = large_part m \<and> large_part (Remove any m) = large_part m \<and>
    large_part (RemoveConnections keys m) = large_part m \<and> large_part (RemoveExpieredConnections now m) = large_part m"
proof -
  have "bit key 31"
  proof (rule ccontr)
    assume no: "\<not> bit key 31"
    have "n < 31" if "bit key n" for n using bit_below [OF assms(2) that] no that by (cases "n = 31") auto
    from below_bits [of key, OF this] assms(1) show False by simp
  qed
  with as_int_sign(1) [of key] assms(3) have "as_int key \<notin> ce_key ` set (cm_connections m)" by auto
  then have "Lookup_conn key (cm_connections m) = None" by (simp add: Lookup_conn_def position_None)
  then show ?thesis
    by (simp add: SetEndOfLife_large Remove_large RemoveConnections_large RemoveExpieredConnections_large SetEndOfLife_def [of key])
qed

theorem large_keys_never_found_witness:
  "let m = new_mgr\<lparr>cm_connections := [\<lparr>ce_key = 2 ^ 31, ce_expire = 5\<rparr>], cm_open := {2 ^ 31}\<rparr> in
     Lookup_conn (2 ^ 31) (cm_connections m) = None \<and> SetEndOfLife (2 ^ 31) 7 m = m \<and>
     large_part (Remove (2 ^ 31) m) = ([\<lparr>ce_key = 2 ^ 31, ce_expire = 5\<rparr>], {2 ^ 31}) \<and>
     large_part (RemoveExpieredConnections 100 m) = ([\<lparr>ce_key = 2 ^ 31, ce_expire = 5\<rparr>], {2 ^ 31})"
proof -
  let ?m = "new_mgr\<lparr>cm_connections := [\<lparr>ce_key = 2 ^ 31, ce_expire = 5\<rparr>], cm_open := {2 ^ 31}\<rparr>"
  have "(2 :: u64) ^ 31 \<le> 2 ^ 31" "(2 :: u64) ^ 31 < 2 ^ 32" "\<forall>e \<in> set (cm_connections ?m). ce_key e < 2 ^ 63" by simp_all
  note found = large_keys_never_found [OF this]
  have "large_part ?m = ([\<lparr>ce_key = 2 ^ 31, ce_expire = 5\<rparr>], {2 ^ 31})" by (auto simp: large_part_def large_key_def)
  with found [of 7 "2 ^ 31" "[]" 100] show ?thesis by (simp add: Let_def)
qed

text \<open>From \<open>2 ^ 32\<close> on a connection is mistaken for the one whose key has the same low half.\<close>

lemma wrapped_key_mistaken:
  assumes "small_key key"
  shows "Lookup_conn (key + n * 2 ^ 32) es = position key es"
proof -
  have "unat (key + n * 2 ^ 32) mod 2 ^ 32 = (unat key + unat n * 2 ^ 32) mod 2 ^ 64 mod 2 ^ 32"
    by (simp add: unat_word_ariths mod_add_right_eq)
  also have "\<dots> = unat key mod 2 ^ 32" by (simp add: mod_mod_cancel)
  finally have "unat (ucast (key + n * 2 ^ 32) :: 32 word) = unat (ucast key :: 32 word)"
    by (simp add: unsigned_ucast_eq take_bit_eq_mod)
  then have "(ucast (key + n * 2 ^ 32) :: 32 word) = ucast key" by (rule unsigned_word_eqI)
  with as_int_small [OF assms] show ?thesis by (simp add: Lookup_conn_def as_int_def)
qed

lemma wrapped_key_removes_stranger:
  assumes "small_key key" "e \<in> set (cm_connections m)" "ce_key e = key" "distinct (map ce_key (cm_connections m))"
  shows "key \<notin> ce_key ` set (cm_connections (Remove (key + n * 2 ^ 32) m))"
proof -
  from position_entry [OF assms(4,2)] assms(3) obtain i where i: "position key (cm_connections m) = Some i"
    "i < length (cm_connections m)" "cm_connections m ! i = e" by auto
  from distinct_erase [OF assms(4), of i] i assms(3) have "key \<notin> set (map ce_key (erase i (cm_connections m)))"
    by (simp add: map_erase)
  moreover have "Lookup_conn (key + n * 2 ^ 32) (cm_connections m) = Some i"
    using wrapped_key_mistaken [OF assms(1)] i(1) by simp
  ultimately show ?thesis unfolding Remove_def by simp
qed
end
