(* ===== verification/HttpServer.thy ===== *)
theory HttpServer
  imports ConnMgr
begin

text \<open>
  The HTTP server as a whole: \<open>HttpDaemonImpl\<close> of \<open>src/httpd/HttpDaemon.cpp\<close>. Coroutines accept
  sockets for any of the workers; the connection is created by a task on the socket's worker.
  The keys of connections come from one counter for all workers, and the statistics are those
  of a worker's thread, also where a coroutine that accepts runs on it.
\<close>

section \<open>State\<close>

text \<open>\<open>hs_pending\<close> are the workers of the tasks that are dispatched and have not run yet.\<close>

record http_server =
  hs_next_key :: u64
  hs_workers :: "ConnectionMgr list"
  hs_pending :: "nat list"
  hs_reported :: "Statistics list"

definition new_server :: "nat \<Rightarrow> http_server" where
  "new_server threads = \<lparr>hs_next_key = 0, hs_workers = replicate threads new_mgr, hs_pending = [], hs_reported = []\<rparr>"

section \<open>Operations\<close>

text \<open>An operation of the manager of a worker, with the counter the managers share.\<close>

definition at_worker :: "nat \<Rightarrow> (ConnectionMgr \<Rightarrow> ConnectionMgr) \<Rightarrow> http_server \<Rightarrow> http_server" where
  "at_worker i f s =
     (let m = f ((hs_workers s ! i)\<lparr>cm_next_key := hs_next_key s\<rparr>)
      in s\<lparr>hs_workers := (hs_workers s)[i := m], hs_next_key := cm_next_key m\<rparr>)"

definition count_at :: "(Statistics \<Rightarrow> Statistics) \<Rightarrow> ConnectionMgr \<Rightarrow> ConnectionMgr" where
  "count_at f m = m\<lparr>cm_stats := f (cm_stats m)\<rparr>"

text \<open>
  The accept on worker \<open>a\<close> returns a socket that belongs to worker \<open>i\<close>, which the thread pool
  chose, or an error.
\<close>

definition on_accept :: "nat \<Rightarrow> nat \<Rightarrow> bool \<Rightarrow> http_server \<Rightarrow> http_server" where
  "on_accept a i ok s =
     (if ok
      then (at_worker a (count_at (\<lambda>st. st\<lparr>connections := connections st + 1\<rparr>)) s)
             \<lparr>hs_pending := hs_pending s @ [i]\<rparr>
      else at_worker a (count_at (\<lambda>st. st\<lparr>failed_connections := failed_connections st + 1\<rparr>)) s)"

definition OnNewConnection :: "nat \<Rightarrow> int \<Rightarrow> nat \<Rightarrow> http_server \<Rightarrow> http_server" where
  "OnNewConnection limit now i s = at_worker i (\<lambda>m. snd (CreateConnection limit now m)) s"

text \<open>The housekeeping of a worker, and the report of its statistics.\<close>

definition UpdateStats_http :: "nat \<Rightarrow> http_server \<Rightarrow> http_server" where
  "UpdateStats_http i s =
     (at_worker i (count_at Reset_stats) s)\<lparr>hs_reported := hs_reported s @ [cm_stats (hs_workers s ! i)]\<rparr>"

definition Housekeeping :: "int \<Rightarrow> nat \<Rightarrow> http_server \<Rightarrow> http_server" where
  "Housekeeping now i s = UpdateStats_http i (at_worker i (RemoveExpieredConnections now) s)"

section \<open>Runs\<close>

datatype server_event = Accepted | Accept_failed | Created | Elsewise

text \<open>The tasks of one worker run in the order of their dispatch. Keys are counted up to wrapping around.\<close>

inductive server_step :: "nat \<Rightarrow> http_server \<Rightarrow> server_event \<Rightarrow> http_server \<Rightarrow> bool" for limit where
  server_accept: "a < length (hs_workers s) \<Longrightarrow> i < length (hs_workers s) \<Longrightarrow>
    server_step limit s Accepted (on_accept a i True s)"
| server_accept_fails: "a < length (hs_workers s) \<Longrightarrow> server_step limit s Accept_failed (on_accept a i False s)"
| server_creates: "\<lbrakk> hs_pending s = xs @ i # ys; i \<notin> set xs; hs_next_key s \<noteq> -1 \<rbrakk> \<Longrightarrow>
    server_step limit s Created (OnNewConnection limit now i (s\<lparr>hs_pending := xs @ ys\<rparr>))"
| server_closes: "i < length (hs_workers s) \<Longrightarrow> server_step limit s Elsewise (at_worker i (CloseSocket key) s)"
| server_extends: "i < length (hs_workers s) \<Longrightarrow> server_step limit s Elsewise (at_worker i (SetEndOfLife key eol) s)"
| server_removes: "i < length (hs_workers s) \<Longrightarrow> server_step limit s Elsewise (at_worker i (Remove key) s)"
| server_housekeeps: "i < length (hs_workers s) \<Longrightarrow> server_step limit s Elsewise (Housekeeping now i s)"

inductive server_run :: "nat \<Rightarrow> nat \<Rightarrow> server_event list \<Rightarrow> http_server \<Rightarrow> bool" for limit threads where
  server_start: "server_run limit threads [] (new_server threads)"
| server_next: "server_run limit threads es s \<Longrightarrow> server_step limit s e s' \<Longrightarrow> server_run limit threads (es @ [e]) s'"

inductive_cases server_stepE: "server_step limit s e s'"

section \<open>What a manager's step does to its keys\<close>

lemma keys_of_stats [simp]: "keys_of (m\<lparr>cm_stats := st\<rparr>) = keys_of m"
  "keys_of (m\<lparr>cm_next_key := k\<rparr>) = keys_of m" "keys_of (m\<lparr>cm_open := p\<rparr>) = keys_of m"
  by (simp_all add: keys_of_def)

lemma Kill_keys: "i < length (cm_connections m) \<Longrightarrow> set (keys_of (Kill i m)) \<subseteq> set (keys_of m) \<and>
    cm_next_key (Kill i m) = cm_next_key m \<and> cm_stats (Kill i m) = cm_stats m"
  using set_erase [of i "cm_connections m"] by (auto simp: Kill_def keys_of_def Let_def)

lemma RemoveConnections_keys:
  "set (keys_of (RemoveConnections keys m)) \<subseteq> set (keys_of m) \<and>
   cm_next_key (RemoveConnections keys m) = cm_next_key m \<and>
   connections (cm_stats (RemoveConnections keys m)) = connections (cm_stats m)"
proof (induction keys arbitrary: m)
  case (Cons key keys)
  show ?case
  proof (cases "Lookup_conn key (cm_connections m)")
    case (Some i)
    let ?m = "m\<lparr>cm_stats := (cm_stats m)\<lparr>overflow_dropped_connections := overflow_dropped_connections (cm_stats m) + 1\<rparr>\<rparr>"
    have "i < length (cm_connections ?m)" using Lookup_conn_Some [OF Some] by simp
    from Kill_keys [OF this] Cons [of "Kill i ?m"] Some show ?thesis by auto
  qed (use Cons in simp)
qed simp

definition keeps_keys :: "ConnectionMgr \<Rightarrow> ConnectionMgr \<Rightarrow> bool" where
  "keeps_keys m m' \<longleftrightarrow> set (keys_of m') \<subseteq> set (keys_of m) \<union> {k. cm_next_key m < k} \<and> cm_next_key m \<le> cm_next_key m'"

lemma step_keys:
  assumes "mgr_step limit m m'"
  shows "keeps_keys m m' \<and> connections (cm_stats m') = connections (cm_stats m)"
  using assms
proof cases
  case (step_create now)
  let ?m1 = "m\<lparr>cm_next_key := cm_next_key m + 1, cm_open := insert (cm_next_key m + 1) (cm_open m),
     cm_connections := cm_connections m @ [\<lparr>ce_key = cm_next_key m + 1, ce_expire = now + 3\<rparr>]\<rparr>"
  have m1: "set (keys_of ?m1) = insert (cm_next_key m + 1) (set (keys_of m))" by (auto simp: keys_of_def)
  from step_create have "m' = Kill 0 ?m1 \<or> m' = ?m1" by (auto simp: CreateConnection_def Let_def)
  with Kill_keys [of 0 ?m1] m1 next_key_up [OF step_create(2)] show ?thesis
    by (auto simp: keeps_keys_def less_imp_le)
next
  case (step_remove key)
  then show ?thesis
    using set_erase [of _ "cm_connections m"] set_erase [of _ "cm_dead m"]
    by (auto simp: Remove_def keeps_keys_def keys_of_def dest!: Lookup_conn_Some split: option.splits) blast+
next
  case step_elsewhere
  then show ?thesis using next_key_up [of m] by (auto simp: keeps_keys_def less_imp_le)
next
  case (step_extend key eol)
  show ?thesis
  proof (cases "Lookup_conn key (cm_connections m)")
    case (Some i)
    then have "ce_key ((cm_connections m ! i)\<lparr>ce_expire := eol\<rparr>) \<in> ce_key ` set (cm_connections m)"
      using Lookup_conn_Some [OF Some] nth_mem [of i "cm_connections m"] by (metis ConnectionEntry.select_convs(1) ConnectionEntry.surjective ConnectionEntry.update_convs(2) image_eqI)
    then have "ce_key ` set ((cm_connections m)[i := (cm_connections m ! i)\<lparr>ce_expire := eol\<rparr>]) \<subseteq> ce_key ` set (cm_connections m)"
      using set_update_subset_insert [of "cm_connections m" i "(cm_connections m ! i)\<lparr>ce_expire := eol\<rparr>"] by blast
    with step_extend Some show ?thesis by (auto simp: SetEndOfLife_def keeps_keys_def keys_of_def)
  qed (use step_extend in \<open>simp add: SetEndOfLife_def keeps_keys_def\<close>)
next
  case (step_housekeeping now)
  let ?keys = "map ce_key (filter (is_expired now) (cm_connections m))"
  let ?m = "m\<lparr>cm_stats := (cm_stats m)\<lparr>timeout_dropped_connections :=
     timeout_dropped_connections (cm_stats m) + of_nat (length ?keys)\<rparr>\<rparr>"
  have "m' = (if cm_connections m = [] then m else RemoveConnections ?keys ?m)"
    using step_housekeeping by (simp add: RemoveExpieredConnections_def Let_def)
  with RemoveConnections_keys [of ?keys ?m] show ?thesis by (auto simp: keeps_keys_def)
qed (auto simp: CloseSocket_def keeps_keys_def)

section \<open>The invariant of the server\<close>

definition all_keys :: "http_server \<Rightarrow> u64 list" where
  "all_keys s = concat (map keys_of (hs_workers s))"

definition worker_ok :: "nat \<Rightarrow> u64 \<Rightarrow> ConnectionMgr \<Rightarrow> bool" where
  "worker_ok limit k m \<longleftrightarrow> mgr_ok limit (m\<lparr>cm_next_key := k\<rparr>)"

text \<open>What the workers hold of the connections that were accepted.\<close>

definition counted_connections :: "http_server \<Rightarrow> u64" where
  "counted_connections s = (\<Sum>m \<leftarrow> hs_workers s. connections (cm_stats m)) + (\<Sum>st \<leftarrow> hs_reported s. connections st)"

definition server_ok :: "nat \<Rightarrow> http_server \<Rightarrow> bool" where
  "server_ok limit s \<longleftrightarrow> distinct (all_keys s) \<and> list_all (worker_ok limit (hs_next_key s)) (hs_workers s) \<and>
     (\<forall>i \<in> set (hs_pending s). i < length (hs_workers s))"

lemma worker_ok_mono: "worker_ok limit k m \<Longrightarrow> k \<le> k' \<Longrightarrow> worker_ok limit k' m"
  by (auto simp: worker_ok_def mgr_ok_def)

lemma distinct_concat_update:
  assumes "distinct (concat xs)" "i < length xs" "distinct ys" "set ys \<subseteq> set (xs ! i) \<union> N" "N \<inter> set (concat xs) = {}"
  shows "distinct (concat (xs[i := ys]))"
proof -
  have "xs = take i xs @ xs ! i # drop (Suc i) xs" using assms(2) by (simp add: id_take_nth_drop)
  with assms(1,5) have "distinct (concat (take i xs @ xs ! i # drop (Suc i) xs))"
    "N \<inter> set (concat (take i xs @ xs ! i # drop (Suc i) xs)) = {}" by metis+
  with assms(3,4) show ?thesis unfolding upd_conv_take_nth_drop [OF assms(2)] by fastforce
qed

lemma at_worker_ok:
  assumes ok: "server_ok limit s" and i: "i < length (hs_workers s)"
    and m: "m = (hs_workers s ! i)\<lparr>cm_next_key := hs_next_key s\<rparr>"
    and f: "mgr_ok limit (f m)" "keeps_keys m (f m)"
  shows "server_ok limit (at_worker i f s)"
proof -
  from ok have d: "distinct (concat (map keys_of (hs_workers s)))" and w: "\<And>m. m \<in> set (hs_workers s) \<Longrightarrow> worker_ok limit (hs_next_key s) m"
    and p: "\<forall>i \<in> set (hs_pending s). i < length (hs_workers s)"
    by (simp_all add: server_ok_def all_keys_def list_all_iff)
  let ?N = "{k. hs_next_key s < k}"
  have "?N \<inter> set (concat (map keys_of (hs_workers s))) = {}"
    using w by (fastforce simp: worker_ok_def mgr_ok_def)
  moreover have "set (keys_of (f m)) \<subseteq> set (keys_of (hs_workers s ! i)) \<union> ?N" using f(2) by (simp add: keeps_keys_def m)
  moreover have "distinct (keys_of (f m))" using f(1) by (simp add: mgr_ok_def)
  ultimately have "distinct (concat (map keys_of ((hs_workers s)[i := f m])))"
    using distinct_concat_update [OF d, of i "keys_of (f m)" ?N] i by (simp add: map_update)
  moreover have "worker_ok limit (cm_next_key (f m)) x" if "x \<in> set ((hs_workers s)[i := f m])" for x
  proof (cases "x = f m")
    case True
    with f(1) show ?thesis by (simp add: worker_ok_def)
  next
    case False
    with that have "x \<in> set (hs_workers s)" using set_update_subset_insert by fast
    with w worker_ok_mono [of limit "hs_next_key s" x] f(2) show ?thesis by (simp add: keeps_keys_def m)
  qed
  ultimately show ?thesis using p by (simp add: server_ok_def all_keys_def list_all_iff at_worker_def Let_def m)
qed

lemma at_worker_step:
  assumes "server_ok limit s" "i < length (hs_workers s)"
    and "\<And>m. cm_next_key m = hs_next_key s \<Longrightarrow> mgr_step limit m (f m)"
  shows "server_ok limit (at_worker i f s)" "counted_connections (at_worker i f s) = counted_connections s"
    "hs_pending (at_worker i f s) = hs_pending s" "length (hs_workers (at_worker i f s)) = length (hs_workers s)"
proof -
  let ?m = "(hs_workers s ! i)\<lparr>cm_next_key := hs_next_key s\<rparr>"
  have "mgr_step limit ?m (f ?m)" using assms(3) by simp
  note step = step_ok [OF this] step_keys [OF this]
  have "worker_ok limit (hs_next_key s) (hs_workers s ! i)" using assms(1,2) by (simp add: server_ok_def list_all_length)
  with step at_worker_ok [OF assms(1,2) refl] show "server_ok limit (at_worker i f s)" by (simp add: worker_ok_def)
  have "connections (cm_stats (f ?m)) = connections (cm_stats (hs_workers s ! i))" using step by simp
  then have "map (\<lambda>m. connections (cm_stats m)) ((hs_workers s)[i := f ?m]) = map (\<lambda>m. connections (cm_stats m)) (hs_workers s)"
    by (metis list_update_id map_update)
  then show "counted_connections (at_worker i f s) = counted_connections s"
    unfolding counted_connections_def at_worker_def Let_def by simp
qed (simp_all add: at_worker_def Let_def)

lemma count_at_keys: "mgr_ok limit (count_at f m) = mgr_ok limit m" "keeps_keys m (count_at f m)"
  by (simp_all add: count_at_def keeps_keys_def)

lemma count_at_ok:
  assumes "server_ok limit s" "i < length (hs_workers s)"
  shows "server_ok limit (at_worker i (count_at f) s)"
    "counted_connections (at_worker i (count_at f) s) + connections (cm_stats (hs_workers s ! i)) =
       counted_connections s + connections (f (cm_stats (hs_workers s ! i)))"
proof -
  have "worker_ok limit (hs_next_key s) (hs_workers s ! i)" using assms by (simp add: server_ok_def list_all_length)
  with at_worker_ok [OF assms refl] show "server_ok limit (at_worker i (count_at f) s)"
    by (simp add: count_at_keys worker_ok_def)
  show "counted_connections (at_worker i (count_at f) s) + connections (cm_stats (hs_workers s ! i)) =
       counted_connections s + connections (f (cm_stats (hs_workers s ! i)))"
    using sum_list_change [of i "map (\<lambda>m. connections (cm_stats m)) (hs_workers s)" "connections (f (cm_stats (hs_workers s ! i)))"] assms(2)
    by (simp add: counted_connections_def at_worker_def count_at_def map_update algebra_simps)
qed

lemma at_worker_frame [simp]:
  "hs_pending (at_worker i f s) = hs_pending s" "length (hs_workers (at_worker i f s)) = length (hs_workers s)"
  "hs_reported (at_worker i f s) = hs_reported s"
  by (simp_all add: at_worker_def Let_def)

lemma server_ok_pending:
  "server_ok limit (s\<lparr>hs_pending := p\<rparr>) \<longleftrightarrow>
     server_ok limit (s\<lparr>hs_pending := []\<rparr>) \<and> (\<forall>i \<in> set p. i < length (hs_workers s))"
  "server_ok limit (s\<lparr>hs_reported := r\<rparr>) = server_ok limit s"
  by (auto simp: server_ok_def all_keys_def)

lemma counted_pending [simp]: "counted_connections (s\<lparr>hs_pending := p\<rparr>) = counted_connections s"
  by (simp add: counted_connections_def)

lemma on_accept_ok:
  assumes "server_ok limit s" "a < length (hs_workers s)" "i < length (hs_workers s)"
  shows "server_ok limit (on_accept a i ok s)"
    "counted_connections (on_accept a i ok s) = counted_connections s + (if ok then 1 else 0)"
proof -
  have "\<forall>j \<in> set (hs_pending s). j < length (hs_workers s)" using assms(1) by (simp add: server_ok_def)
  then show "server_ok limit (on_accept a i ok s)"
    using count_at_ok(1) [OF assms(1,2)] assms(3) by (auto simp: on_accept_def server_ok_def all_keys_def)
  show "counted_connections (on_accept a i ok s) = counted_connections s + (if ok then 1 else 0)"
    using count_at_ok(2) [OF assms(1,2), of "\<lambda>st. st\<lparr>connections := connections st + 1\<rparr>"]
      count_at_ok(2) [OF assms(1,2), of "\<lambda>st. st\<lparr>failed_connections := failed_connections st + 1\<rparr>"]
    by (simp add: on_accept_def algebra_simps)
qed

lemma UpdateStats_ok:
  assumes "server_ok limit s" "i < length (hs_workers s)"
  shows "server_ok limit (UpdateStats_http i s)" "counted_connections (UpdateStats_http i s) = counted_connections s"
proof -
  show "server_ok limit (UpdateStats_http i s)"
    using count_at_ok(1) [OF assms] by (simp add: UpdateStats_http_def server_ok_pending(2))
  have "counted_connections (UpdateStats_http i s) =
      counted_connections (at_worker i (count_at Reset_stats) s) + connections (cm_stats (hs_workers s ! i))"
    by (simp add: counted_connections_def UpdateStats_http_def algebra_simps)
  with count_at_ok(2) [OF assms, of Reset_stats] show "counted_connections (UpdateStats_http i s) = counted_connections s"
    by (simp add: Reset_stats_def)
qed

section \<open>Runs of the server\<close>

lemma server_step_ok:
  assumes "server_step limit s e s'" "server_ok limit s"
  shows "server_ok limit s' \<and> counted_connections s' = counted_connections s + (if e = Accepted then 1 else 0) \<and>
    length (hs_pending s') + (if e = Created then 1 else 0) = length (hs_pending s) + (if e = Accepted then 1 else 0)"
  using assms(1)
proof cases
  case (server_accept a i)
  with on_accept_ok [OF assms(2), of a i True] show ?thesis by (simp add: on_accept_def)
next
  case (server_accept_fails a i)
  have "on_accept a i False s = on_accept a a False s" by (simp add: on_accept_def)
  with server_accept_fails on_accept_ok [OF assms(2), of a a False] show ?thesis by (simp add: on_accept_def)
next
  case (server_creates xs i ys now)
  let ?s = "s\<lparr>hs_pending := xs @ ys\<rparr>"
  from assms(2) server_creates(3) have ok: "server_ok limit ?s" and i: "i < length (hs_workers ?s)"
    by (auto simp: server_ok_def all_keys_def)
  from server_creates(5) have "cm_next_key m = hs_next_key ?s \<Longrightarrow> mgr_step limit m (snd (CreateConnection limit now m))" for m
    by (auto intro: step_create)
  from at_worker_step [OF ok i this] server_creates show ?thesis by (simp add: OnNewConnection_def)
next
  case (server_closes i key)
  with at_worker_step [OF assms(2) server_closes(3), where f = "CloseSocket key"] show ?thesis by (simp add: step_close)
next
  case (server_extends i key eol)
  with at_worker_step [OF assms(2) server_extends(3), where f = "SetEndOfLife key eol"] show ?thesis by (simp add: step_extend)
next
  case (server_removes i key)
  with at_worker_step [OF assms(2) server_removes(3), where f = "Remove key"] show ?thesis by (simp add: step_remove)
next
  case (server_housekeeps i now)
  let ?s = "at_worker i (RemoveExpieredConnections now) s"
  from at_worker_step [OF assms(2) server_housekeeps(3), where f = "RemoveExpieredConnections now"]
  have "server_ok limit ?s" "counted_connections ?s = counted_connections s" by (simp_all add: step_housekeeping)
  with UpdateStats_ok [of limit ?s i] server_housekeeps show ?thesis
    by (simp add: Housekeeping_def) (simp add: UpdateStats_http_def)
qed

lemma server_run_ok:
  assumes "server_run limit threads es s"
  shows "server_ok limit s \<and> counted_connections s = of_nat (count_list es Accepted) \<and>
    count_list es Accepted = count_list es Created + length (hs_pending s)"
  using assms
proof induction
  case server_start
  have "worker_ok limit 0 new_mgr" by (simp add: worker_ok_def mgr_ok_def new_mgr_def keys_of_def)
  moreover have "distinct (concat (replicate threads (keys_of new_mgr)))" by (simp add: keys_of_def new_mgr_def)
  moreover have "(\<Sum>m \<leftarrow> replicate threads new_mgr. connections (cm_stats m)) = 0"
    by (simp add: new_mgr_def new_Statistics_def sum_list_replicate)
  ultimately show ?case
    by (simp add: server_ok_def all_keys_def new_server_def counted_connections_def list_all_iff)
next
  case (server_next es s e s')
  then have "server_ok limit s" by simp
  from server_step_ok [OF server_next.hyps(2) this] server_next.IH show ?case by auto
qed

text \<open>
  C26: in a server with any number of workers no two connections, whichever workers they are on
  and whether live or dead, share a key; every worker keeps its limit and has open sockets for its
  live connections only. Every accepted socket becomes a connection once, as soon as the task that
  was dispatched for it runs, and is counted once in the statistics, those reported so far or
  those of a worker.
\<close>

theorem server_invariant:
  assumes "server_run limit threads es s"
  shows "distinct (concat (map keys_of (hs_workers s))) \<and>
    list_all (\<lambda>m. cm_open m \<subseteq> ce_key ` set (cm_connections m) \<and> (limit = 0 \<or> length (cm_connections m) \<le> limit))
      (hs_workers s) \<and>
    count_list es Accepted = count_list es Created + length (hs_pending s) \<and>
    (\<Sum>m \<leftarrow> hs_workers s. connections (cm_stats m)) + (\<Sum>st \<leftarrow> hs_reported s. connections st) =
      of_nat (count_list es Accepted)"
proof -
  have "list_all (\<lambda>m. cm_open m \<subseteq> ce_key ` set (cm_connections m) \<and> (limit = 0 \<or> length (cm_connections m) \<le> limit))
      (hs_workers s)"
    by (rule list.pred_mono_strong [of "worker_ok limit (hs_next_key s)"])
      (use server_run_ok [OF assms] in \<open>simp_all add: server_ok_def worker_ok_def mgr_ok_def\<close>)
  with server_run_ok [OF assms] show ?thesis
    by (simp add: server_ok_def all_keys_def counted_connections_def)
qed

definition sample_served_two :: http_server where
  "sample_served_two = OnNewConnection 2 99 1 ((on_accept 0 1 True (Housekeeping 99 0 (OnNewConnection 2 99 0
     ((on_accept 0 0 True (new_server 2))\<lparr>hs_pending := []\<rparr>))))\<lparr>hs_pending := []\<rparr>)"

lemma sample_server_run: "server_run 2 2 [Accepted, Created, Elsewise, Accepted, Created] sample_served_two"
proof -
  let ?s1 = "on_accept 0 0 True (new_server 2)"
  let ?s2 = "OnNewConnection 2 99 0 (?s1\<lparr>hs_pending := []\<rparr>)"
  let ?s3 = "Housekeeping 99 0 ?s2"
  let ?s4 = "on_accept 0 1 True ?s3"
  have "server_step 2 (new_server 2) Accepted ?s1" by (rule server_accept) (simp_all add: new_server_def)
  with server_start [of 2 2] have "server_run 2 2 [Accepted] ?s1" using server_next by fastforce
  moreover have "server_step 2 ?s1 Created ?s2"
    using server_creates [of ?s1 "[]" 0 "[]" 2 99]
    by (simp add: on_accept_def new_server_def at_worker_def Let_def count_at_def new_mgr_def)
  ultimately have "server_run 2 2 [Accepted, Created] ?s2" using server_next by fastforce
  moreover have n: "length (hs_workers ?s2) = 2" by (simp add: OnNewConnection_def on_accept_def new_server_def)
  then have "server_step 2 ?s2 Elsewise ?s3" by (intro server_housekeeps) simp
  ultimately have "server_run 2 2 [Accepted, Created, Elsewise] ?s3" using server_next by fastforce
  moreover have "server_step 2 ?s3 Accepted ?s4"
    using n by (intro server_accept) (simp_all add: Housekeeping_def UpdateStats_http_def)
  ultimately have "server_run 2 2 [Accepted, Created, Elsewise, Accepted] ?s4" using server_next by fastforce
  moreover have "hs_pending ?s4 = [1]" "hs_next_key ?s4 \<noteq> -1"
    by code_simp+
  then have "server_step 2 ?s4 Created sample_served_two"
    using server_creates [of ?s4 "[]" 1 "[]" 2 99] by (simp add: sample_served_two_def)
  ultimately show ?thesis using server_next by fastforce
qed

theorem server_invariant_witness:
  "distinct (concat (map keys_of (hs_workers sample_served_two))) \<and>
   concat (map keys_of (hs_workers sample_served_two)) = [1, 2] \<and>
   (\<Sum>m \<leftarrow> hs_workers sample_served_two. connections (cm_stats m)) +
     (\<Sum>st \<leftarrow> hs_reported sample_served_two. connections st) = 2"
proof -
  have "concat (map keys_of (hs_workers sample_served_two)) = [1, 2]" by code_simp
  with server_invariant [OF sample_server_run] show ?thesis by simp
qed

end
