(* ===== verification/Startup.thy ===== *)
theory Startup
  imports DnsConfigured DnsEndpoints HttpServer
begin

text \<open>
  The start of the program (\<open>src/daemon/main.cpp\<close>): the command line, the order in which the
  configuration files are read and the servers are started, the manager of the statistics
  (\<open>src/daemon/StatisticsManager.cpp\<close>), and what a successful start leaves. The last theorem goes
  from the files to the answers that clients get in any run of the started server.
\<close>

section \<open>The command line\<close>

record Configuration =
  cf_num_io_threads :: int
  cf_max_io_thread_queue_capacity :: int
  cf_http_config_file :: bytes
  cf_dns_config_file :: bytes
  cf_daemon :: bool
  cf_recreate_mmap_file :: bool
  cf_stats_update_seconds :: int

text \<open>The values of the member initialisers.\<close>

definition new_Configuration :: Configuration where
  "new_Configuration = \<lparr>cf_num_io_threads = 0, cf_max_io_thread_queue_capacity = 1024 * 64,
     cf_http_config_file = bytes_of ''/etc/vubercool/http.conf'',
     cf_dns_config_file = bytes_of ''/etc/vubercool/dns.conf'',
     cf_daemon = False, cf_recreate_mmap_file = False, cf_stats_update_seconds = 60\<rparr>"

datatype main_exn = BadOption | BadConfig config_exn | OtherException bytes

text \<open>How an option's value is read, with its default value, and the value that is stored.\<close>

datatype option_kind = Switch | Text_option bytes | Bool_option "bool option" | Int_option int

datatype option_value = Switched | Text_value bytes | Bool_value bool | Int_value int

text \<open>
  What the code calls of \<open>boost::program_options\<close> and of the logger: the options on the command line with
  their texts, the conversions of these, \<open>None\<close> where they fail, and the level of a name.
\<close>

record options_lib =
  ol_parse :: "bytes list \<Rightarrow> main_exn + (string \<rightharpoonup> bytes)"
  ol_bool :: "bytes \<Rightarrow> bool option"
  ol_int :: "bytes \<Rightarrow> int option"
  ol_level :: "bytes \<Rightarrow> main_exn + nat"

datatype log_handler = LogToStream nat | LogToFile bytes bool nat

definition cmdline_options :: "Configuration \<Rightarrow> (string \<times> option_kind) list" where
  "cmdline_options conf =
     [(''help'', Switch),
      (''console-log'', Text_option (bytes_of ''NOTICE'')),
      (''log-level'', Text_option (bytes_of ''NOTICE'')),
      (''log-file'', Text_option (bytes_of ''vubercool.log'')),
      (''truncate-log'', Bool_option (Some True)),
      (''daemon'', Bool_option None),
      (''recreate-mmap-file'', Bool_option (Some (cf_recreate_mmap_file conf))),
      (''stats-update-seconds'', Int_option (cf_stats_update_seconds conf)),
      (''io-threads'', Int_option (cf_num_io_threads conf)),
      (''io-queue-size'', Int_option (cf_max_io_thread_queue_capacity conf)),
      (''http-config'', Text_option (cf_http_config_file conf)),
      (''dns-config'', Text_option (cf_dns_config_file conf))]"

text \<open>\<open>po::store\<close>: the values given and the default values of the others.\<close>

fun default_value :: "option_kind \<Rightarrow> option_value option" where
  "default_value Switch = None"
| "default_value (Text_option t) = Some (Text_value t)"
| "default_value (Bool_option d) = map_option Bool_value d"
| "default_value (Int_option i) = Some (Int_value i)"

fun given_value :: "options_lib \<Rightarrow> bytes \<Rightarrow> option_kind \<Rightarrow> option_value option" where
  "given_value lib text Switch = Some Switched"
| "given_value lib text (Text_option d) = Some (Text_value text)"
| "given_value lib text (Bool_option d) = map_option Bool_value (ol_bool lib text)"
| "given_value lib text (Int_option d) = map_option Int_value (ol_int lib text)"

fun store :: "options_lib \<Rightarrow> (string \<rightharpoonup> bytes) \<Rightarrow> (string \<times> option_kind) list \<Rightarrow> main_exn + (string \<rightharpoonup> option_value)" where
  "store lib given [] = Inr Map.empty"
| "store lib given ((name, kind) # opts) =
     rbind (case given name of
         None \<Rightarrow> Inr (default_value kind)
       | Some text \<Rightarrow> (case given_value lib text kind of None \<Rightarrow> Inl BadOption | Some v \<Rightarrow> Inr (Some v)))
       (\<lambda>v. rbind (store lib given opts) (\<lambda>vm. Inr (vm(name := v))))"

fun as_text :: "option_value option \<Rightarrow> bytes" where
  "as_text (Some (Text_value t)) = t"
| "as_text _ = []"

fun as_bool :: "bool \<Rightarrow> option_value option \<Rightarrow> bool" where
  "as_bool old (Some (Bool_value b)) = b"
| "as_bool old _ = old"

fun as_number :: "int \<Rightarrow> option_value option \<Rightarrow> int" where
  "as_number old (Some (Int_value i)) = i"
| "as_number old _ = old"

text \<open>\<open>po::notify\<close>: the members bound to options.\<close>

definition notify :: "(string \<rightharpoonup> option_value) \<Rightarrow> Configuration \<Rightarrow> Configuration" where
  "notify vm conf = conf\<lparr>
     cf_daemon := as_bool (cf_daemon conf) (vm ''daemon''),
     cf_recreate_mmap_file := as_bool (cf_recreate_mmap_file conf) (vm ''recreate-mmap-file''),
     cf_stats_update_seconds := as_number (cf_stats_update_seconds conf) (vm ''stats-update-seconds''),
     cf_num_io_threads := as_number (cf_num_io_threads conf) (vm ''io-threads''),
     cf_max_io_thread_queue_capacity := as_number (cf_max_io_thread_queue_capacity conf) (vm ''io-queue-size''),
     cf_http_config_file := as_text (vm ''http-config''),
     cf_dns_config_file := as_text (vm ''dns-config'')\<rparr>"

text \<open>The result is \<open>False\<close> where the help was asked for.\<close>

definition ParseCommandLine ::
  "options_lib \<Rightarrow> bytes list \<Rightarrow> Configuration \<Rightarrow> main_exn + (bool \<times> Configuration \<times> log_handler list)" where
  "ParseCommandLine lib argv conf0 =
     rbind (ol_parse lib argv) (\<lambda>given.
     rbind (store lib given (cmdline_options conf0)) (\<lambda>vm.
       let conf = notify vm conf0 in
       if vm ''help'' \<noteq> None then Inr (False, conf, [])
       else
         rbind (if \<not> cf_daemon conf \<and> vm ''console-log'' \<noteq> None
                then rbind (ol_level lib (as_text (vm ''console-log''))) (\<lambda>l. Inr [LogToStream l]) else Inr []) (\<lambda>console.
         rbind (if vm ''log-level'' \<noteq> None
                then rbind (ol_level lib (as_text (vm ''log-level'')))
                       (\<lambda>l. Inr [LogToFile (as_text (vm ''log-file'')) (as_bool False (vm ''truncate-log'')) l])
                else Inr []) (\<lambda>file.
           Inr (True, conf, console @ file)))))"

section \<open>Starting the servers\<close>

text \<open>
  What \<open>main\<close> calls that is not in the program: reading a file of settings, the thread pool, which
  has a number of threads and hands out the worker of each call of \<open>GetAnyPipeline\<close>; the files
  and the mapping of the data file; and the resolver, which gives the number of addresses.
\<close>

record main_env =
  me_options :: options_lib
  me_ptree :: ptree_lib
  me_read_info :: "bytes \<Rightarrow> main_exn + ptree"
  me_pool :: "int \<Rightarrow> int \<Rightarrow> main_exn + nat"
  me_any_pipeline :: "nat \<Rightarrow> nat"
  me_file :: "bytes \<Rightarrow> bytes option"
  me_map :: "bytes \<Rightarrow> main_exn + unit"
  me_tcp :: "bytes \<times> bytes \<Rightarrow> main_exn + nat"
  me_udp :: "bytes \<times> bytes \<Rightarrow> main_exn + nat"

text \<open>The objects of \<open>main\<close>. The statistics manager is the instance that \<open>GetManager\<close> returns.\<close>

record running =
  ru_threads :: nat
  ru_manager :: "stats_system option"
  ru_log_interval :: "int option"
  ru_http_config :: HttpConfig
  ru_data :: bytes
  ru_zones :: "zone list"
  ru_http :: http_server
  ru_acceptors :: "nat list"
  ru_dns :: dns_server
  ru_calls :: nat

definition config_res :: "config_exn + 'a \<Rightarrow> main_exn + 'a" where
  "config_res r = (case r of Inl x \<Rightarrow> Inl (BadConfig x) | Inr v \<Rightarrow> Inr v)"

fun fold_res :: "('a \<Rightarrow> 's \<Rightarrow> 'e + 's) \<Rightarrow> 'a list \<Rightarrow> 's \<Rightarrow> 'e + 's" where
  "fold_res f [] s = Inr s"
| "fold_res f (x # xs) s = rbind (f x s) (fold_res f xs)"

text \<open>The constructor schedules the log where the interval is positive.\<close>

definition Create_statistics :: "int \<Rightarrow> running \<Rightarrow> running" where
  "Create_statistics seconds r = r\<lparr>ru_manager := Some (new_system []),
     ru_log_interval := (if 0 < seconds then Some (seconds * 1000) else None)\<rparr>"

definition GetManager :: "running \<Rightarrow> main_exn + stats_system" where
  "GetManager r = (case ru_manager r of
     None \<Rightarrow> Inl (OtherException (bytes_of ''StatisticsManager instance'')) | Some m \<Rightarrow> Inr m)"

text \<open>All addresses of a host are accepted at on one worker; datagrams are received on any worker each.\<close>

definition StartAcceptingAt :: "main_env \<Rightarrow> bytes \<times> bytes \<Rightarrow> running \<Rightarrow> main_exn + running" where
  "StartAcceptingAt me address r =
     rbind (me_tcp me address) (\<lambda>n.
       Inr (r\<lparr>ru_acceptors := ru_acceptors r @ replicate n (me_any_pipeline me (ru_calls r)), ru_calls := ru_calls r + 1\<rparr>))"

definition StartReceivingAt :: "main_env \<Rightarrow> bytes \<times> bytes \<Rightarrow> running \<Rightarrow> main_exn + running" where
  "StartReceivingAt me address r =
     rbind (me_udp me address) (\<lambda>n.
       Inr (r\<lparr>ru_dns := StartReceivingUdpAt (map (\<lambda>k. me_any_pipeline me (ru_calls r + k)) [0..<n]) (ru_dns r),
              ru_calls := ru_calls r + n\<rparr>))"

definition new_running :: "nat \<Rightarrow> u64 \<Rightarrow> running" where
  "new_running threads incoming = \<lparr>ru_threads = threads, ru_manager = None, ru_log_interval = None,
     ru_http_config = default_config, ru_data = [], ru_zones = [], ru_http = new_server threads, ru_acceptors = [],
     ru_dns = new_dns_server threads incoming, ru_calls = 0\<rparr>"

text \<open>The \<open>try\<close> block up to the wait for a signal.\<close>

definition start_up :: "main_env \<Rightarrow> u64 \<Rightarrow> Configuration \<Rightarrow> main_exn + running" where
  "start_up me incoming conf =
     rbind (me_pool me (cf_num_io_threads conf) (cf_max_io_thread_queue_capacity conf)) (\<lambda>threads.
     let r0 = Create_statistics (cf_stats_update_seconds conf) (new_running threads incoming);
         http_conf0 = default_config\<lparr>recreate_mmap_file := cf_recreate_mmap_file conf\<rparr> in
     rbind (me_read_info me (cf_http_config_file conf)) (\<lambda>http_pt.
     rbind (config_res (ParseHttpConfig (me_ptree me) http_pt http_conf0)) (\<lambda>(http_conf, http_iplist).
     let data = open_data (me_file me (data_mmap_file http_conf)) http_conf in
     rbind (me_map me (data_mmap_file http_conf)) (\<lambda>_.
     let r1 = r0\<lparr>ru_http_config := http_conf, ru_data := data\<rparr> in
     rbind (me_read_info me (cf_dns_config_file conf)) (\<lambda>dns_pt.
     rbind (config_res (get_child (me_ptree me) ''network'' dns_pt)) (\<lambda>network.
     rbind (config_res (SetupZones (me_ptree me) dns_pt)) (\<lambda>zones.
     rbind (fold_res (StartAcceptingAt me) http_iplist (r1\<lparr>ru_zones := zones\<rparr>)) (\<lambda>r2.
       fold_res (StartReceivingAt me) (pl_list (me_ptree me) network) r2))))))))"

text \<open>
  The exit code, the end by an exception that nothing catches, or servers that run until a signal
  comes, whereupon the program ends with zero.
\<close>

datatype main_result = Exit int | Terminated main_exn | Serving running

definition main :: "main_env \<Rightarrow> u64 \<Rightarrow> bytes list \<Rightarrow> main_result" where
  "main me incoming argv =
     (case ParseCommandLine (me_options me) argv new_Configuration of
        Inl x \<Rightarrow> Terminated x
      | Inr (False, _) \<Rightarrow> Exit (-1)
      | Inr (True, conf, _) \<Rightarrow>
          (case start_up me incoming conf of
             Inl x \<Rightarrow> Exit (-1)
           | Inr r \<Rightarrow> Serving r))"

definition on_signal :: "main_result \<Rightarrow> main_result" where
  "on_signal m = (case m of Serving r \<Rightarrow> Exit 0 | _ \<Rightarrow> m)"

section \<open>What a start leaves\<close>

text \<open>The addresses that a list of hosts resolves to.\<close>

definition addresses :: "(bytes \<times> bytes \<Rightarrow> main_exn + nat) \<Rightarrow> (bytes \<times> bytes) list \<Rightarrow> nat" where
  "addresses resolver hosts = (\<Sum>h \<leftarrow> hosts. case resolver h of Inl x \<Rightarrow> 0 | Inr n \<Rightarrow> n)"

lemma fold_accepting:
  "fold_res (StartAcceptingAt me) hosts r = Inr r' \<Longrightarrow>
     \<exists>ws n. r' = r\<lparr>ru_acceptors := ru_acceptors r @ ws, ru_calls := n\<rparr> \<and> length ws = addresses (me_tcp me) hosts \<and>
       set ws \<subseteq> range (me_any_pipeline me)"
proof (induction hosts arbitrary: r)
  case Nil
  then have "r' = r\<lparr>ru_acceptors := ru_acceptors r @ [], ru_calls := ru_calls r\<rparr>" by simp
  then show ?case by (intro exI [of _ "[]"] exI [of _ "ru_calls r"]) (simp add: addresses_def)
next
  case (Cons h hosts)
  then obtain r1 where r1: "StartAcceptingAt me h r = Inr r1" "fold_res (StartAcceptingAt me) hosts r1 = Inr r'"
    by (cases "StartAcceptingAt me h r") simp_all
  then obtain n where n: "me_tcp me h = Inr n"
    "fold_res (StartAcceptingAt me) hosts (r\<lparr>ru_acceptors := ru_acceptors r @ replicate n (me_any_pipeline me (ru_calls r)),
       ru_calls := ru_calls r + 1\<rparr>) = Inr r'" by (cases "me_tcp me h") (simp_all add: StartAcceptingAt_def [of me h r])
  from Cons.IH [OF n(2)] obtain ws k where "r' = r\<lparr>ru_acceptors := (ru_acceptors r @ replicate n (me_any_pipeline me (ru_calls r))) @ ws,
      ru_calls := k\<rparr>" "length ws = addresses (me_tcp me) hosts" "set ws \<subseteq> range (me_any_pipeline me)" by auto
  with n(1) show ?case
    by (intro exI [of _ "replicate n (me_any_pipeline me (ru_calls r)) @ ws"] exI [of _ k]) (auto simp: addresses_def)
qed

lemma fold_receiving:
  "fold_res (StartReceivingAt me) hosts r = Inr r' \<Longrightarrow>
     \<exists>ws n. r' = r\<lparr>ru_dns := StartReceivingUdpAt ws (ru_dns r), ru_calls := n\<rparr> \<and> length ws = addresses (me_udp me) hosts \<and>
       set ws \<subseteq> range (me_any_pipeline me)"
proof (induction hosts arbitrary: r)
  case Nil
  then have "r' = r\<lparr>ru_dns := StartReceivingUdpAt [] (ru_dns r), ru_calls := ru_calls r\<rparr>" by (simp add: StartReceivingUdpAt_def)
  then show ?case by (intro exI [of _ "[]"] exI [of _ "ru_calls r"]) (simp add: addresses_def)
next
  case (Cons h hosts)
  then obtain r1 where r1: "StartReceivingAt me h r = Inr r1" "fold_res (StartReceivingAt me) hosts r1 = Inr r'"
    by (cases "StartReceivingAt me h r") simp_all
  then obtain n where n: "me_udp me h = Inr n"
    "fold_res (StartReceivingAt me) hosts (r\<lparr>ru_dns := StartReceivingUdpAt (map (\<lambda>k. me_any_pipeline me (ru_calls r + k)) [0..<n]) (ru_dns r),
       ru_calls := ru_calls r + n\<rparr>) = Inr r'" by (cases "me_udp me h") (simp_all add: StartReceivingAt_def [of me h r])
  let ?vs = "map (\<lambda>k. me_any_pipeline me (ru_calls r + k)) [0..<n]"
  from Cons.IH [OF n(2)] obtain ws k where "r' = r\<lparr>ru_dns := StartReceivingUdpAt (?vs @ ws) (ru_dns r), ru_calls := k\<rparr>"
    "length ws = addresses (me_udp me) hosts" "set ws \<subseteq> range (me_any_pipeline me)" by (auto simp: StartReceivingUdpAt_def)
  with n(1) show ?case
    by (intro exI [of _ "?vs @ ws"] exI [of _ k]) (auto simp: addresses_def)
qed

lemma config_res_Inr [simp]: "config_res r = Inr v \<longleftrightarrow> r = Inr v"
  by (auto simp: config_res_def split: sum.splits)

text \<open>The objects of a start that succeeded, by what they were made from.\<close>

lemma start_up_Inr:
  assumes "start_up me incoming conf = Inr r"
  obtains http_pt http_ips dns_pt network ws vs where
    "me_pool me (cf_num_io_threads conf) (cf_max_io_thread_queue_capacity conf) = Inr (ru_threads r)"
    "me_read_info me (cf_http_config_file conf) = Inr http_pt"
    "ParseHttpConfig (me_ptree me) http_pt (default_config\<lparr>recreate_mmap_file := cf_recreate_mmap_file conf\<rparr>) = Inr (ru_http_config r, http_ips)"
    "ru_data r = open_data (me_file me (data_mmap_file (ru_http_config r))) (ru_http_config r)"
    "me_read_info me (cf_dns_config_file conf) = Inr dns_pt" "get_child (me_ptree me) ''network'' dns_pt = Inr network"
    "SetupZones (me_ptree me) dns_pt = Inr (ru_zones r)"
    "ru_http r = new_server (ru_threads r)" "ru_acceptors r = ws" "length ws = addresses (me_tcp me) http_ips"
    "ru_dns r = StartReceivingUdpAt vs (new_dns_server (ru_threads r) incoming)"
    "length vs = addresses (me_udp me) (pl_list (me_ptree me) network)" "set (ws @ vs) \<subseteq> range (me_any_pipeline me)"
    "ru_manager r = Some (new_system [])"
proof -
  from assms obtain threads http_pt http_conf http_ips u dns_pt network zones r2
    where pool: "me_pool me (cf_num_io_threads conf) (cf_max_io_thread_queue_capacity conf) = Inr threads"
      "me_read_info me (cf_http_config_file conf) = Inr http_pt"
      "ParseHttpConfig (me_ptree me) http_pt (default_config\<lparr>recreate_mmap_file := cf_recreate_mmap_file conf\<rparr>) = Inr (http_conf, http_ips)"
      "me_map me (data_mmap_file http_conf) = Inr u"
      "me_read_info me (cf_dns_config_file conf) = Inr dns_pt" "get_child (me_ptree me) ''network'' dns_pt = Inr network"
      "SetupZones (me_ptree me) dns_pt = Inr zones"
    and f1: "fold_res (StartAcceptingAt me) http_ips ((Create_statistics (cf_stats_update_seconds conf) (new_running threads incoming))
        \<lparr>ru_http_config := http_conf, ru_data := open_data (me_file me (data_mmap_file http_conf)) http_conf, ru_zones := zones\<rparr>) = Inr r2"
    and f2: "fold_res (StartReceivingAt me) (pl_list (me_ptree me) network) r2 = Inr r"
    by (auto simp: start_up_def Let_def)
  from fold_accepting [OF f1] fold_receiving [OF f2] pool that show thesis
    by (force simp: Create_statistics_def new_running_def)
qed

section \<open>The outcome of the command line\<close>

text \<open>The value an option has in the end; options whose texts are all what they should be.\<close>

definition chosen :: "options_lib \<Rightarrow> (string \<rightharpoonup> bytes) \<Rightarrow> string \<Rightarrow> option_kind \<Rightarrow> option_value option" where
  "chosen lib given name kind = (case given name of None \<Rightarrow> default_value kind | Some text \<Rightarrow> given_value lib text kind)"

definition well_given :: "options_lib \<Rightarrow> (string \<rightharpoonup> bytes) \<Rightarrow> string \<times> option_kind \<Rightarrow> bool" where
  "well_given lib given opt \<longleftrightarrow> given (fst opt) = None \<or> chosen lib given (fst opt) (snd opt) \<noteq> None"

lemma store_step: "store lib given ((name, kind) # opts) =
    (if well_given lib given (name, kind) then rbind (store lib given opts) (\<lambda>vm. Inr (vm(name := chosen lib given name kind)))
     else Inl BadOption)"
  by (cases "given name") (auto simp: well_given_def chosen_def split: option.splits)

lemma store_bad: "\<not> list_all (well_given lib given) opts \<Longrightarrow> store lib given opts = Inl BadOption"
proof (induction opts)
  case (Cons opt opts)
  obtain name kind where "opt = (name, kind)" by (cases opt)
  with Cons show ?case by (auto simp del: store.simps simp: store_step)
qed simp

lemma store_good:
  "list_all (well_given lib given) opts \<Longrightarrow> distinct (map fst opts) \<Longrightarrow>
     \<exists>vm. store lib given opts = Inr vm \<and> list_all (\<lambda>(n, k). vm n = chosen lib given n k) opts"
proof (induction opts)
  case (Cons opt opts)
  obtain name kind where opt: "opt = (name, kind)" by (cases opt)
  from Cons obtain vm where vm: "store lib given opts = Inr vm" "list_all (\<lambda>(n, k). vm n = chosen lib given n k) opts"
    by auto
  let ?v = "chosen lib given name kind"
  have "store lib given (opt # opts) = Inr (vm(name := ?v))"
    using Cons.prems(1) vm(1) opt by (simp del: store.simps add: store_step)
  moreover have "list_all (\<lambda>(n, k). (vm(name := ?v)) n = chosen lib given n k) opts"
  proof -
    have "(vm(name := ?v)) n = chosen lib given n k" if "(n, k) \<in> set opts" for n k
    proof -
      have "n \<noteq> name" using Cons.prems(2) opt that by force
      with vm(2) that show ?thesis by (auto simp: list_all_iff)
    qed
    then show ?thesis by (auto simp: list_all_iff)
  qed
  ultimately show ?case using opt by auto
qed simp

lemma store_options:
  assumes "list_all (well_given lib given) (cmdline_options new_Configuration)"
  obtains vm where "store lib given (cmdline_options new_Configuration) = Inr vm"
    "vm ''help'' = chosen lib given ''help'' Switch"
    "vm ''console-log'' = chosen lib given ''console-log'' (Text_option (bytes_of ''NOTICE''))"
    "vm ''log-level'' = chosen lib given ''log-level'' (Text_option (bytes_of ''NOTICE''))" "vm ''daemon'' = chosen lib given ''daemon'' (Bool_option None)"
    "vm ''recreate-mmap-file'' = chosen lib given ''recreate-mmap-file'' (Bool_option (Some False))"
    "vm ''stats-update-seconds'' = chosen lib given ''stats-update-seconds'' (Int_option 60)"
    "vm ''io-threads'' = chosen lib given ''io-threads'' (Int_option 0)"
    "vm ''io-queue-size'' = chosen lib given ''io-queue-size'' (Int_option (65536))"
    "vm ''http-config'' = chosen lib given ''http-config'' (Text_option (bytes_of ''/etc/vubercool/http.conf''))"
    "vm ''dns-config'' = chosen lib given ''dns-config'' (Text_option (bytes_of ''/etc/vubercool/dns.conf''))"
proof -
  have "distinct (map fst (cmdline_options new_Configuration))" by (simp add: cmdline_options_def)
  from store_good [OF assms this] that show thesis by (auto simp: cmdline_options_def new_Configuration_def)
qed

text \<open>The settings that the options given on the command line stand for.\<close>

definition requested :: "options_lib \<Rightarrow> (string \<rightharpoonup> bytes) \<Rightarrow> Configuration" where
  "requested lib given =
     (let number = (\<lambda>name def. case given name of None \<Rightarrow> def | Some t \<Rightarrow> the (ol_int lib t));
          truth = (\<lambda>name. case given name of None \<Rightarrow> False | Some t \<Rightarrow> the (ol_bool lib t));
          text = (\<lambda>name def. case given name of None \<Rightarrow> def | Some t \<Rightarrow> t)
      in \<lparr>cf_num_io_threads = number ''io-threads'' 0, cf_max_io_thread_queue_capacity = number ''io-queue-size'' (65536),
          cf_http_config_file = text ''http-config'' (bytes_of ''/etc/vubercool/http.conf''),
          cf_dns_config_file = text ''dns-config'' (bytes_of ''/etc/vubercool/dns.conf''),
          cf_daemon = truth ''daemon'', cf_recreate_mmap_file = truth ''recreate-mmap-file'',
          cf_stats_update_seconds = number ''stats-update-seconds'' 60\<rparr>)"

lemma chosen_number: "well_given lib given (name, Int_option d) \<Longrightarrow>
    as_number d (chosen lib given name (Int_option d)) = (case given name of None \<Rightarrow> d | Some t \<Rightarrow> the (ol_int lib t))"
  by (auto simp: well_given_def chosen_def split: option.splits)

lemma chosen_truth: "well_given lib given (name, Bool_option d) \<Longrightarrow> d \<in> {None, Some False} \<Longrightarrow>
    as_bool False (chosen lib given name (Bool_option d)) = (case given name of None \<Rightarrow> False | Some t \<Rightarrow> the (ol_bool lib t))"
  by (auto simp: well_given_def chosen_def split: option.splits)

lemma chosen_text: "as_text (chosen lib given name (Text_option d)) = (case given name of None \<Rightarrow> d | Some t \<Rightarrow> t)"
  by (auto simp: chosen_def split: option.splits)

text \<open>
  The exception of the logger for a level that it does not know, if it throws one: the level of the console, where there is
  one, is read before that of the file.
\<close>

definition bad_level :: "options_lib \<Rightarrow> (string \<rightharpoonup> bytes) \<Rightarrow> main_exn option" where
  "bad_level lib given =
     (let level = (\<lambda>name. case ol_level lib (case given name of None \<Rightarrow> bytes_of ''NOTICE'' | Some t \<Rightarrow> t) of
            Inl x \<Rightarrow> Some x | Inr l \<Rightarrow> None)
      in if cf_daemon (requested lib given) then level ''log-level''
         else case level ''console-log'' of Some x \<Rightarrow> Some x | None \<Rightarrow> level ''log-level'')"

lemma store_requested:
  assumes "list_all (well_given lib given) (cmdline_options new_Configuration)"
  obtains vm where "store lib given (cmdline_options new_Configuration) = Inr vm" "notify vm new_Configuration = requested lib given"
    "vm ''help'' = chosen lib given ''help'' Switch"
    "vm ''console-log'' = chosen lib given ''console-log'' (Text_option (bytes_of ''NOTICE''))"
    "vm ''log-level'' = chosen lib given ''log-level'' (Text_option (bytes_of ''NOTICE''))"
proof -
  from store_options [OF assms] obtain vm
    where vm: "store lib given (cmdline_options new_Configuration) = Inr vm" "vm ''help'' = chosen lib given ''help'' Switch"
      "vm ''console-log'' = chosen lib given ''console-log'' (Text_option (bytes_of ''NOTICE''))"
      "vm ''log-level'' = chosen lib given ''log-level'' (Text_option (bytes_of ''NOTICE''))"
      and bound: "vm ''daemon'' = chosen lib given ''daemon'' (Bool_option None)"
      "vm ''recreate-mmap-file'' = chosen lib given ''recreate-mmap-file'' (Bool_option (Some False))"
      "vm ''stats-update-seconds'' = chosen lib given ''stats-update-seconds'' (Int_option 60)"
      "vm ''io-threads'' = chosen lib given ''io-threads'' (Int_option 0)"
      "vm ''io-queue-size'' = chosen lib given ''io-queue-size'' (Int_option (65536))"
      "vm ''http-config'' = chosen lib given ''http-config'' (Text_option (bytes_of ''/etc/vubercool/http.conf''))"
      "vm ''dns-config'' = chosen lib given ''dns-config'' (Text_option (bytes_of ''/etc/vubercool/dns.conf''))" by blast
  have well: "well_given lib given (''io-threads'', Int_option 0)" "well_given lib given (''io-queue-size'', Int_option (65536))"
    "well_given lib given (''stats-update-seconds'', Int_option 60)" "well_given lib given (''daemon'', Bool_option None)"
    "well_given lib given (''recreate-mmap-file'', Bool_option (Some False))"
    using assms by (simp_all add: cmdline_options_def new_Configuration_def)
  have "notify vm new_Configuration = requested lib given"
    by (simp add: notify_def requested_def new_Configuration_def bound chosen_number [OF well(1)] chosen_number [OF well(2)]
        chosen_number [OF well(3)] chosen_truth [OF well(4)] chosen_truth [OF well(5)] chosen_text Let_def)
  with vm that show thesis by blast
qed

text \<open>
  C23: what the command line does, whatever the libraries make of it. Where the options cannot be parsed, an option has a text that is
  not of its type, or the logger does not accept a level, the exception ends
  the program, since the parser stands outside the \<open>try\<close> block of \<open>main\<close>; asking for help makes
  the program exit with the code of a failure, before the levels are looked at; and otherwise the servers start with the settings that were given
  and the default values of the others, or the program exits with that same code.
\<close>

theorem command_line:
  "main me incoming argv =
    (case ol_parse (me_options me) argv of
       Inl x \<Rightarrow> Terminated x
     | Inr given \<Rightarrow>
         if \<not> list_all (well_given (me_options me) given) (cmdline_options new_Configuration) then Terminated BadOption
         else if given ''help'' \<noteq> None then Exit (- 1)
         else (case bad_level (me_options me) given of
             Some x \<Rightarrow> Terminated x
           | None \<Rightarrow> (case start_up me incoming (requested (me_options me) given) of
               Inl x \<Rightarrow> Exit (- 1)
             | Inr r \<Rightarrow> Serving r)))"
proof (cases "ol_parse (me_options me) argv")
  case (Inl x)
  then show ?thesis by (simp add: main_def ParseCommandLine_def)
next
  case parsed: (Inr given)
  let ?lib = "me_options me"
  show ?thesis
  proof (cases "list_all (well_given ?lib given) (cmdline_options new_Configuration)")
    case False
    from store_bad [OF this] False parsed show ?thesis by (simp add: main_def ParseCommandLine_def)
  next
    case True
    from store_requested [OF True] obtain vm where vm: "store ?lib given (cmdline_options new_Configuration) = Inr vm"
        "notify vm new_Configuration = requested ?lib given" "vm ''help'' = chosen ?lib given ''help'' Switch"
        "vm ''console-log'' = chosen ?lib given ''console-log'' (Text_option (bytes_of ''NOTICE''))"
        "vm ''log-level'' = chosen ?lib given ''log-level'' (Text_option (bytes_of ''NOTICE''))" by blast
    have asked: "vm ''help'' \<noteq> None \<longleftrightarrow> given ''help'' \<noteq> None" by (auto simp: vm(3) chosen_def split: option.splits)
    have levels: "vm ''console-log'' \<noteq> None" "vm ''log-level'' \<noteq> None" by (auto simp: vm(4,5) chosen_def split: option.splits)
    have texts: "as_text (vm ''console-log'') = (case given ''console-log'' of None \<Rightarrow> bytes_of ''NOTICE'' | Some t \<Rightarrow> t)"
      "as_text (vm ''log-level'') = (case given ''log-level'' of None \<Rightarrow> bytes_of ''NOTICE'' | Some t \<Rightarrow> t)"
      by (simp_all add: vm(4,5) chosen_text)
    show ?thesis
      using parsed True vm(1,2) asked levels
      by (simp add: main_def ParseCommandLine_def bad_level_def texts Let_def split: sum.splits)
  qed
qed

section \<open>From the command line to the client\<close>

lemma new_dns_spawns:
  assumes "set ws \<subseteq> {..<threads}"
  shows "dns_run env threads incoming [] (StartReceivingUdpAt ws (new_dns_server threads incoming))"
proof -
  have "dns_step env (new_dns_server threads incoming) [] (StartReceivingUdpAt ws (new_dns_server threads incoming))"
    using assms by (intro dns_starts) (auto simp: new_dns_server_def)
  from dns_next [OF dns_new this] show ?thesis by simp
qed

text \<open>
  C27: a start that succeeds leaves everything in place. Both servers are at the beginning of a run,
  with one coroutine for each address of the networks that the two files name, on workers of the
  pool; the statistics have their manager; and the data has an entry of four bytes for each of
  the sites, all zero when there is no data file yet or a new one is asked for.
\<close>

theorem start_up_complete:
  assumes "start_up me incoming conf = Inr r" "range (me_any_pipeline me) \<subseteq> {..<ru_threads r}"
    and "me_read_info me (cf_http_config_file conf) = Inr http_pt" "me_read_info me (cf_dns_config_file conf) = Inr dns_pt"
    and "get_child (me_ptree me) ''network'' dns_pt = Inr network"
    and "ParseHttpConfig (me_ptree me) http_pt (default_config\<lparr>recreate_mmap_file := cf_recreate_mmap_file conf\<rparr>) = Inr (http, ips)"
  shows "dns_run env (ru_threads r) incoming [] (ru_dns r) \<and> server_run limit (ru_threads r) [] (ru_http r) \<and>
    length (dn_spawned (ru_dns r)) = addresses (me_udp me) (pl_list (me_ptree me) network) \<and>
    length (ru_acceptors r) = addresses (me_tcp me) ips \<and> list_all (\<lambda>w. w < ru_threads r) (ru_acceptors r @ dn_spawned (ru_dns r)) \<and>
    GetManager r = Inr (new_system []) \<and> length (ru_data r) = unat (num_sites http) * 4 \<and>
    (if cf_recreate_mmap_file conf \<or> me_file me (data_mmap_file http) = None then ru_data r = replicate (unat (num_sites http) * 4) 0
     else length (the (me_file me (data_mmap_file http))) = unat (num_sites http) * 4 \<longrightarrow> ru_data r = the (me_file me (data_mmap_file http)))"
proof -
  from start_up_Inr [OF assms(1)] obtain http_ips ws vs where r:
    "ParseHttpConfig (me_ptree me) http_pt (default_config\<lparr>recreate_mmap_file := cf_recreate_mmap_file conf\<rparr>) = Inr (ru_http_config r, http_ips)"
    "ru_data r = open_data (me_file me (data_mmap_file (ru_http_config r))) (ru_http_config r)"
    "ru_http r = new_server (ru_threads r)" "ru_acceptors r = ws" "length ws = addresses (me_tcp me) http_ips"
    "ru_dns r = StartReceivingUdpAt vs (new_dns_server (ru_threads r) incoming)"
    "length vs = addresses (me_udp me) (pl_list (me_ptree me) network)" "set (ws @ vs) \<subseteq> range (me_any_pipeline me)"
    "ru_manager r = Some (new_system [])"
    using assms(3-5) by (metis (no_types, lifting) Inr_inject)
  then have http: "ru_http_config r = http" "http_ips = ips" using assms(6) by simp_all
  have "recreate_mmap_file http = cf_recreate_mmap_file conf" using assms(6) by (auto simp: ParseHttpConfig_def Let_def)
  moreover have below: "set (ws @ vs) \<subseteq> {..<ru_threads r}" using r(8) assms(2) by blast
  moreover have "dn_spawned (ru_dns r) = vs" by (simp add: r(6) StartReceivingUdpAt_def new_dns_server_def)
  ultimately show ?thesis
    using new_dns_spawns [of vs "ru_threads r" env incoming] r(2-7,9) http server_start [of limit "ru_threads r"]
    by (auto simp: list_all_iff GetManager_def open_data_def PreAllocateMmapFile_def Let_def)
qed

text \<open>
  C4: from the files to the clients. Once the program has started, in every run of the server, at
  every endpoint and after any other datagrams: a query for the address of a zone that the DNS file
  has, by the labels on the way to it in any case of letters, is answered with the addresses
  of the file, under the name that was asked for and in the order of the file, all of them or, with
  the truncation bit, the first ones. The file may have the zone at any depth where the zone itself or the one around it has an SOA record, or
  where it is a root; it has no alias, its names can be written, and no two zones of the file that stand side by side have the same name but for the case of letters.
  The query is a standard one with one question, well-formed and of less than the 512 bytes of the buffer.
\<close>

theorem started_server_answers:
  assumes "start_up me incoming conf = Inr r" "me_read_info me (cf_dns_config_file conf) = Inr pt"
    and "config_at (pt_children pt) ls sub" "read_a (me_ptree me) sub = Inr ips" "read_cname (me_ptree me) sub = []"
    and "env_zones env = ru_zones r" "label_equality (env_ieq env)" "forest_distinct (env_ieq env) (ru_zones r)" "asked_ready env (qv_labels q)"
    and "dns_run env (ru_threads r) incoming es s" "Datagram j p d a \<in> set es" "length d < max_query_buffer"
    and "parse_header d (length d) = Inr hdr" "\<not> GetQr hdr" "GetOpcode hdr = 0" "hdr_qdcount hdr = 1"
    and "well_asked env d 1 q" "qv_type q = 1" "list_all2 (env_ieq env) (qv_labels q) (rev ls)"
  shows "\<exists>b m k. a = Inr (Some b) \<and> decode_message b = Some m \<and> length b \<le> 512 \<and>
    GetQr (msg_header m) \<and> hdr_id (msg_header m) = hdr_id hdr \<and> msg_questions m = [q] \<and>
    msg_answers m = map (\<lambda>ip. view (qv_labels q, RdataA ip)) (take k ips) \<and> k \<le> length ips \<and>
    (GetTc (msg_header m) \<longleftrightarrow> k < length ips)"
proof -
  have "SetupZones (me_ptree me) pt = Inr (env_zones env)"
    using start_up_Inr [OF assms(1)] assms(2,6) by (metis Inr_inject)
  note answer = address_answered [OF this assms(3,7) assms(8) [folded assms(6)] assms(9,4,5,13-19), of fresh_worker]
  have "answered_alone env (Datagram j p d a)"
    using dns_run_ok [OF assms(10)] assms(11) by (auto simp: list_all_iff)
  with assms(12) have "a = fst (receive_one env d fresh_worker)" by (simp add: answered_alone_def)
  with answer show ?thesis by simp
qed

section \<open>A sample installation\<close>

text \<open>Two threads; one address to accept at and one to receive at.\<close>

definition sample_listen_conf :: ptree where
  "sample_listen_conf = Ptree [] [node ''http'' [leaf ''num-sites'' ''4'', leaf ''data-mmap-file'' ''f'', leaf ''root-path'' ''r'',
     node ''network'' [leaf ''localhost'' ''8081''], node ''aliases'' [], node ''redirects'' []]]"

definition sample_options :: options_lib where
  "sample_options = \<lparr>ol_parse = (\<lambda>args. Inr (case args of [t] \<Rightarrow> [''io-threads'' \<mapsto> t] | _ \<Rightarrow> Map.empty)),
     ol_bool = (\<lambda>t. if t = [49] then Some True else None), ol_int = (\<lambda>t. if t = [50] then Some 2 else None),
     ol_level = (\<lambda>_. Inr 0)\<rparr>"

definition sample_main :: main_env where
  "sample_main = \<lparr>me_options = sample_options, me_ptree = site_lib,
     me_read_info = (\<lambda>path. Inr (if path = cf_dns_config_file new_Configuration then site_conf else sample_listen_conf)),
     me_pool = (\<lambda>_ _. Inr 2), me_any_pipeline = (\<lambda>n. n mod 2), me_file = Map.empty, me_map = (\<lambda>_. Inr ()),
     me_tcp = (\<lambda>_. Inr 1), me_udp = (\<lambda>_. Inr 1)\<rparr>"

definition sample_running :: running where
  "sample_running = projr (start_up sample_main 0 new_Configuration)"

lemma sample_running_values:
  "start_up sample_main 0 new_Configuration = Inr sample_running" "ru_threads sample_running = 2"
  "ru_zones sample_running = env_zones site" "ru_dns sample_running = StartReceivingUdpAt [1] (new_dns_server 2 0)"
proof -
  have vs: "map_sum id (\<lambda>r. (ru_threads r, ru_zones r, ru_dns r)) (start_up sample_main 0 new_Configuration) =
      Inr (2, env_zones site, StartReceivingUdpAt [1] (new_dns_server 2 0))" by code_simp
  then show "start_up sample_main 0 new_Configuration = Inr sample_running" "ru_threads sample_running = 2"
    "ru_zones sample_running = env_zones site" "ru_dns sample_running = StartReceivingUdpAt [1] (new_dns_server 2 0)"
    by (cases "start_up sample_main 0 new_Configuration", simp_all add: sample_running_def)+
qed

lemma sample_workers: "range (me_any_pipeline sample_main) \<subseteq> {..<ru_threads sample_running}"
  by (auto simp: sample_main_def sample_running_values(2))

lemma sample_trees:
  "me_read_info sample_main (cf_dns_config_file new_Configuration) = Inr site_conf" "me_ptree sample_main = site_lib"
  "me_read_info sample_main (cf_http_config_file new_Configuration) = Inr sample_listen_conf"
proof -
  show "me_ptree sample_main = site_lib" by (simp add: sample_main_def)
qed (code_simp+)

lemma sample_listen: "\<exists>http. ParseHttpConfig site_lib sample_listen_conf (default_config\<lparr>recreate_mmap_file := False\<rparr>) =
    Inr (http, [(bytes_of ''localhost'', bytes_of ''8081'')])"
proof -
  have "map_sum id snd (ParseHttpConfig site_lib sample_listen_conf (default_config\<lparr>recreate_mmap_file := False\<rparr>)) =
    Inr [(bytes_of ''localhost'', bytes_of ''8081'')]" by code_simp
  then show ?thesis by (cases "ParseHttpConfig site_lib sample_listen_conf (default_config\<lparr>recreate_mmap_file := False\<rparr>)") auto
qed

theorem start_up_complete_witness:
  "dns_run site 2 0 [] (ru_dns sample_running) \<and> length (dn_spawned (ru_dns sample_running)) = 1 \<and>
   length (ru_acceptors sample_running) = 1 \<and> (\<exists>n. ru_data sample_running = replicate n 0)"
proof -
  obtain http where http: "ParseHttpConfig site_lib sample_listen_conf (default_config\<lparr>recreate_mmap_file := False\<rparr>) =
    Inr (http, [(bytes_of ''localhost'', bytes_of ''8081'')])" using sample_listen by blast
  have network: "get_child site_lib ''network'' site_conf = Inr (snd (hd (pt_children site_conf)))" by code_simp
  have "cf_recreate_mmap_file new_Configuration = False" by (simp add: new_Configuration_def)
  with http have http': "ParseHttpConfig (me_ptree sample_main) sample_listen_conf
      (default_config\<lparr>recreate_mmap_file := cf_recreate_mmap_file new_Configuration\<rparr>) =
    Inr (http, [(bytes_of ''localhost'', bytes_of ''8081'')])" by (simp add: sample_trees)
  have udp: "addresses (me_udp sample_main) (pl_list site_lib (snd (hd (pt_children site_conf)))) = 1" by code_simp
  have tcp: "addresses (me_tcp sample_main) [(bytes_of ''localhost'', bytes_of ''8081'')] = 1" by code_simp
  have none: "me_file sample_main (data_mmap_file http) = None" by (simp add: sample_main_def)
  from start_up_complete [OF sample_running_values(1) sample_workers sample_trees(3,1) network [folded sample_trees(2)] http', of site]
  show ?thesis using udp tcp none by (auto simp: sample_running_values(2) sample_trees(2))
qed

text \<open>The query of \<open>site\<close> is the first datagram.\<close>

definition sample_listener :: dns_server where
  "sample_listener = start_endpoint 1 True ((ru_dns sample_running)\<lparr>dn_spawned := []\<rparr>)"

lemma sample_listener_values: "sample_listener = start_endpoint 1 True (new_dns_server 2 0)"
  by (simp add: sample_listener_def sample_running_values(4) StartReceivingUdpAt_def new_dns_server_def)

abbreviation sample_reception :: dns_event where
  "sample_reception \<equiv> Datagram 0 7 site_query (fst (receive_one site site_query (worker_of 0 sample_listener)))"

lemma sample_reception_run: "\<exists>s. dns_run site 2 0 [sample_reception] s"
proof -
  have "dns_run site 2 0 [] (ru_dns sample_running)"
    unfolding sample_running_values(4) by (rule new_dns_spawns) simp
  moreover have "dns_step site (ru_dns sample_running) [] sample_listener"
    using dns_spawned [of "ru_dns sample_running" "[]" 1 "[]" site True]
    by (simp add: sample_listener_def sample_running_values(4) StartReceivingUdpAt_def new_dns_server_def)
  ultimately have "dns_run site 2 0 [] sample_listener" using dns_next by fastforce
  moreover have "dns_step site sample_listener [sample_reception] (on_datagram site 0 7 site_query sample_listener)"
    unfolding sample_listener_values by (rule dns_receives) code_simp+
  ultimately show ?thesis using dns_next by fastforce
qed

theorem started_server_answers_witness:
  "\<exists>b m. fst (receive_one site site_query (worker_of 0 sample_listener)) = Inr (Some b) \<and> decode_message b = Some m \<and>
     msg_questions m = [site_question]"
proof -
  obtain s where s: "dns_run site (ru_threads sample_running) 0 [sample_reception] s"
    using sample_reception_run by (auto simp: sample_running_values(2))
  have a: "read_a site_lib site_www = Inr ([(10, 0, 0, 3)] :: address_v4 list)" "read_cname site_lib site_www = []" by code_simp+
  have d: "forest_distinct ascii_iequals (ru_zones sample_running)" unfolding sample_running_values(3) by code_simp
  have q: "length site_query < max_query_buffer" "parse_header site_query (length site_query) = Inr site_header"
    "\<not> GetQr site_header" "GetOpcode site_header = 0" "hdr_qdcount site_header = 1" "well_asked site site_query 1 site_question"
    "qv_type site_question = 1" by code_simp+
  have l: "list_all2 (env_ieq site) (qv_labels site_question) (rev [bytes_of ''com'', bytes_of ''a'', bytes_of ''w''])" by code_simp
  have ieq: "env_ieq site = ascii_iequals" by (simp add: site_def)
  from started_server_answers [OF sample_running_values(1) sample_trees(1) site_path a [folded sample_trees(2)]
      sample_running_values(3) [symmetric] ascii.label_equality_axioms [folded ieq] d [folded ieq] config_ready [OF site_valid] s _ q l]
  show ?thesis by auto
qed

end
