(* ===== verification/HttpConn.thy ===== *)
theory HttpConn
  imports Vhost ConnMgr
begin

text \<open>
  One connection: class \<open>Connection\<close> of \<open>src/httpd/HttpDaemon.cpp\<close>. Its coroutine
  \<open>ProcessRequests\<close> stops at two places, the read and the write on the socket; it is modelled
  by the steps between these places. Whatever the thread's other connections change while it
  stops is a step of its own.
\<close>

section \<open>State\<close>

text \<open>
  What a connection is served with: the parser, the conversion of numbers, the files, the
  services of the reply, and the configuration.
\<close>

record http_env =
  he_spirit :: spirit
  he_lexcast :: "bytes \<Rightarrow> u32 option"
  he_files :: "bytes \<Rightarrow> bytes option"
  he_reply :: reply_env
  he_config :: HttpConfig

datatype ParseResult = PARSE_OK | PARSE_INCOMPLETE | PARSE_BAD

text \<open>
  Where the coroutine stops: at the read, at the write of a reply to a parsed request or to a
  bad one, or at its end. \<open>Undefined\<close> is a read outside the program's memory.
\<close>

datatype conn_pc = Reading | Writing | WritingBad | Finished | Undefined

text \<open>
  The members and the local variables of the coroutine, then what it shares with the other
  connections of its thread: the cached date and parser, the hosts' data and the manager,
  which holds the state of the socket and the thread's statistics.
\<close>

record connection =
  cn_buffer :: bytes
  cn_request_bytes :: nat
  cn_need_more :: bool
  cn_req :: HttpRequest
  cn_reply :: CurrentReply
  cn_request_state :: RequestState
  cn_closed :: bool
  cn_pc :: conn_pc
  cn_date :: bytes
  cn_parser :: HttpRequest
  cn_data :: host_data
  cn_mgr :: ConnectionMgr

definition request_buffer_size :: nat where
  "request_buffer_size = 1024 * 8"

definition is_open :: "u64 \<Rightarrow> connection \<Rightarrow> bool" where
  "is_open key c \<longleftrightarrow> key \<in> cm_open (cn_mgr c)"

definition count_stats :: "(Statistics \<Rightarrow> Statistics) \<Rightarrow> connection \<Rightarrow> connection" where
  "count_stats f c = c\<lparr>cn_mgr := (cn_mgr c)\<lparr>cm_stats := f (cm_stats (cn_mgr c))\<rparr>\<rparr>"

section \<open>Closing\<close>

definition close_socket :: "u64 \<Rightarrow> connection \<Rightarrow> connection" where
  "close_socket key c = c\<lparr>cn_mgr := CloseSocket key (cn_mgr c)\<rparr>"

definition Close :: "u64 \<Rightarrow> connection \<Rightarrow> connection" where
  "Close key c =
     (if cn_closed c then c
      else let c1 = close_socket key (c\<lparr>cn_closed := True\<rparr>)
      in c1\<lparr>cn_mgr := Remove key (cn_mgr c1)\<rparr>)"

text \<open>The coroutine ends: the object \<open>my_cleaner\<close> is destroyed.\<close>

definition leave :: "u64 \<Rightarrow> connection \<Rightarrow> connection" where
  "leave key c = (Close key c)\<lparr>cn_pc := Finished\<rparr>"

text \<open>The body of the loop ends: the object \<open>request_stats\<close> is destroyed.\<close>

definition end_request :: "connection \<Rightarrow> connection" where
  "end_request c = count_stats (RequestStats_done (cn_request_state c)) c"

section \<open>Requests\<close>

definition received_data :: "connection \<Rightarrow> bytes" where
  "received_data c = take (cn_request_bytes c) (cn_buffer c)"

definition ParseRequest :: "http_env \<Rightarrow> connection \<Rightarrow> ParseResult \<times> connection" where
  "ParseRequest env c =
     (let my_buffer = received_data c;
          (success, req, parser) = ParseHttpRequest (he_spirit env) my_buffer (cn_parser c) (cn_req c);
          c1 = c\<lparr>cn_req := req, cn_parser := parser\<rparr>
      in if success then (PARSE_OK, c1)
         else if request_buffer_size - 1 \<le> cn_request_bytes c then (PARSE_BAD, c1)
         else if find (crlf @ crlf) my_buffer \<noteq> None then (PARSE_BAD, c1)
         else (PARSE_INCOMPLETE, c1))"

text \<open>\<open>ReplyWithError\<close> on the connection's reply; \<open>now\<close> is what \<open>std::time\<close> returns.\<close>

definition reply_with_error :: "http_env \<Rightarrow> int \<Rightarrow> nat \<Rightarrow> bytes \<Rightarrow> connection \<Rightarrow> connection" where
  "reply_with_error env now code content c =
     (let (date, r) = ReplyWithError (he_reply env) now code content (cn_req c) (cn_date c, cn_reply c)
      in c\<lparr>cn_date := date, cn_reply := r\<rparr>)"

text \<open>
  The reply to a parsed request, up to the write. \<open>now1\<close> and \<open>now2\<close> are the times of the two
  calls of \<open>Prepare\<close>. \<open>GetHost\<close> stands outside the inner \<open>try\<close>: its exceptions end the loop.
\<close>

definition answer_request :: "http_env \<Rightarrow> u64 \<Rightarrow> int \<Rightarrow> int \<Rightarrow> connection \<Rightarrow> connection" where
  "answer_request env key now1 now2 c =
     (let req = cn_req c; config = he_config env; timeout = connection_timeout config in
      case GetHost (he_lexcast env) config (cn_data c) (host req) of
        Inl VhostUndefined \<Rightarrow> c\<lparr>cn_pc := Undefined\<rparr>
      | Inl _ \<Rightarrow> leave key (close_socket key (end_request c))
      | Inr h \<Rightarrow>
          let r1 = Prepare (he_reply env) now1 (allow_gzip config) (allow_deflate config) req (cn_reply c);
              (outcome, data') = ProcessRequest (he_files env) h req (cn_data c);
              c1 = c\<lparr>cn_reply := r1, cn_data := data'\<rparr>;
              c2 = (case outcome of
                      Inr content \<Rightarrow>
                        let (date, r) = Reply (he_reply env) 200 req (cn_date c1, write_out content r1)
                        in c1\<lparr>cn_date := date, cn_reply := r, cn_request_state := SUCESS\<rparr>
                    | Inl (ExceptionInvalidResource _) \<Rightarrow>
                        reply_with_error env now2 404 (bytes_of ''Not Found'') c1
                    | Inl (ExceptionUnsupportedMethod _) \<Rightarrow>
                        reply_with_error env now2 405 (bytes_of ''Method not allowed'') c1
                    | Inl _ \<Rightarrow> c1);
              c3 = (if timeout \<noteq> 0
                    then c2\<lparr>cn_mgr := SetEndOfLife key (cr_now (cn_reply c2) + uint timeout) (cn_mgr c2)\<rparr>
                    else c2)
          in if outcome = Inl HostUndefined then c1\<lparr>cn_pc := Undefined\<rparr>
             else if outcome = Inl interprocess_exception then leave key (close_socket key (end_request c1))
             else c3\<lparr>cn_pc := Writing\<rparr>)"

text \<open>From the construction of \<open>request_stats\<close> to the write, or to the next read.\<close>

definition process :: "http_env \<Rightarrow> u64 \<Rightarrow> int \<Rightarrow> int \<Rightarrow> connection \<Rightarrow> connection" where
  "process env key now1 now2 c =
     (case ParseRequest env (c\<lparr>cn_request_state := UNSET, cn_need_more := True\<rparr>) of
        (PARSE_OK, c1) \<Rightarrow> answer_request env key now1 now2 c1
      | (PARSE_BAD, c1) \<Rightarrow>
          (reply_with_error env now2 400 (bytes_of ''Bad Request!'')
             (c1\<lparr>cn_request_state := BAD\<rparr>))\<lparr>cn_pc := WritingBad\<rparr>
      | (PARSE_INCOMPLETE, c1) \<Rightarrow>
          let c2 = end_request (c1\<lparr>cn_request_state := IGNORE\<rparr>)
          in if is_open key c2 then c2\<lparr>cn_pc := Reading\<rparr> else leave key c2)"

text \<open>The test of the loop.\<close>

definition next_round :: "http_env \<Rightarrow> u64 \<Rightarrow> int \<Rightarrow> int \<Rightarrow> connection \<Rightarrow> connection" where
  "next_round env key now1 now2 c =
     (if is_open key c
      then (if cn_need_more c then c\<lparr>cn_pc := Reading\<rparr> else process env key now1 now2 c)
      else leave key c)"

section \<open>Steps\<close>

text \<open>The read returns bytes, or fails.\<close>

definition on_read :: "http_env \<Rightarrow> u64 \<Rightarrow> int \<Rightarrow> int \<Rightarrow> bytes option \<Rightarrow> connection \<Rightarrow> connection" where
  "on_read env key now1 now2 result c =
     (case result of
        None \<Rightarrow> leave key (if is_open key c then close_socket key c else c)
      | Some data \<Rightarrow>
          process env key now1 now2
            (count_stats (\<lambda>s. s\<lparr>bytes_received := bytes_received s + of_nat (length data)\<rparr>)
               (c\<lparr>cn_buffer := put_at (cn_buffer c) (cn_request_bytes c) data,
                  cn_request_bytes := cn_request_bytes c + length data\<rparr>)))"

text \<open>The request is taken out of the buffer.\<close>

definition consume_request :: "connection \<Rightarrow> connection" where
  "consume_request c =
     (let n = unat (request_length (cn_req c)) in
      if cn_request_bytes c = n then c\<lparr>cn_request_bytes := 0\<rparr>
      else c\<lparr>cn_buffer := put_at (cn_buffer c) 0 (segment (cn_buffer c) n (cn_request_bytes c - n)),
             cn_request_bytes := cn_request_bytes c - n, cn_need_more := False\<rparr>)"

text \<open>The write of a reply to a parsed request returns, or fails.\<close>

definition on_written :: "http_env \<Rightarrow> u64 \<Rightarrow> int \<Rightarrow> int \<Rightarrow> bool \<Rightarrow> connection \<Rightarrow> connection" where
  "on_written env key now1 now2 ok c =
     (if \<not> ok then leave key (end_request (if is_open key c then close_socket key c else c))
      else let c1 = count_stats (\<lambda>s. s\<lparr>bytes_sent := bytes_sent s + of_nat (cr_bytes_in_reply (cn_reply c))\<rparr>) c
      in if \<not> is_open key c1 then leave key (end_request c1)
         else if cr_close_on_reply (cn_reply c1)
              then next_round env key now1 now2 (end_request (close_socket key c1))
              else next_round env key now1 now2 (end_request (consume_request c1)))"

text \<open>
  The write of the reply to a bad request returns, or fails with an exception; both ways the
  socket is closed.
\<close>

definition on_bad_written :: "u64 \<Rightarrow> connection \<Rightarrow> connection" where
  "on_bad_written key c = leave key (end_request (close_socket key c))"

text \<open>
  What happens on a connection: bytes are received, or a request with the bytes it was parsed
  from is done with after its reply. The last step is anything the thread's other connections
  do to what they share.
\<close>

datatype conn_event = Received bytes | Handled bytes HttpRequest

fun received :: "conn_event list \<Rightarrow> bytes" where
  "received [] = []"
| "received (Received data # es) = data @ received es"
| "received (Handled raw req # es) = received es"

fun handled :: "conn_event list \<Rightarrow> (bytes \<times> HttpRequest) list" where
  "handled [] = []"
| "handled (Received data # es) = handled es"
| "handled (Handled raw req # es) = (raw, req) # handled es"

definition kept_open :: "u64 \<Rightarrow> bool \<Rightarrow> connection \<Rightarrow> bool" where
  "kept_open key ok c \<longleftrightarrow> ok \<and> is_open key c \<and> \<not> cr_close_on_reply (cn_reply c)"

inductive conn_step :: "http_env \<Rightarrow> u64 \<Rightarrow> connection \<Rightarrow> conn_event list \<Rightarrow> connection \<Rightarrow> bool"
  for env key where
  step_read: "\<lbrakk> cn_pc c = Reading; data \<noteq> []; cn_request_bytes c + length data \<le> request_buffer_size \<rbrakk>
    \<Longrightarrow> conn_step env key c [Received data] (on_read env key now1 now2 (Some data) c)"
| step_read_fails: "cn_pc c = Reading \<Longrightarrow> conn_step env key c [] (on_read env key now1 now2 None c)"
| step_written: "cn_pc c = Writing \<Longrightarrow> conn_step env key c
      (if kept_open key ok c
       then [Handled (take (unat (request_length (cn_req c))) (received_data c)) (cn_req c)] else [])
      (on_written env key now1 now2 ok c)"
| step_bad_written: "cn_pc c = WritingBad \<Longrightarrow> conn_step env key c [] (on_bad_written key c)"
| step_others: "conn_step env key c []
      (c\<lparr>cn_date := date, cn_parser := parser, cn_data := data, cn_mgr := mgr\<rparr>)"

text \<open>The object and the locals at the start; the buffer is not initialised.\<close>

definition new_connection :: "bytes \<Rightarrow> bytes \<Rightarrow> HttpRequest \<Rightarrow> host_data \<Rightarrow> ConnectionMgr \<Rightarrow> connection" where
  "new_connection buffer date parser data mgr =
     \<lparr>cn_buffer = buffer, cn_request_bytes = 0, cn_need_more = True, cn_req = new_HttpRequest,
      cn_reply = new_reply, cn_request_state = UNSET, cn_closed = False, cn_pc = Reading,
      cn_date = date, cn_parser = parser, cn_data = data, cn_mgr = mgr\<rparr>"

inductive conn_run :: "http_env \<Rightarrow> u64 \<Rightarrow> conn_event list \<Rightarrow> connection \<Rightarrow> bool" for env key where
  conn_start: "length buffer = request_buffer_size \<Longrightarrow>
    conn_run env key [] (next_round env key now1 now2 (new_connection buffer date parser data mgr))"
| conn_next: "conn_run env key es c \<Longrightarrow> conn_step env key c es' c' \<Longrightarrow> conn_run env key (es @ es') c'"

lemma received_append [simp]: "received (es @ es') = received es @ received es'"
  by (induction es rule: received.induct) auto

lemma handled_append [simp]: "handled (es @ es') = handled es @ handled es'"
  by (induction es rule: handled.induct) auto

section \<open>What the steps leave alone\<close>

lemma count_stats_frame [simp]:
  "cn_buffer (count_stats f c) = cn_buffer c" "cn_request_bytes (count_stats f c) = cn_request_bytes c"
  "cn_req (count_stats f c) = cn_req c" "cn_need_more (count_stats f c) = cn_need_more c"
  "cn_reply (count_stats f c) = cn_reply c" "cn_pc (count_stats f c) = cn_pc c"
  "cn_closed (count_stats f c) = cn_closed c" "cn_data (count_stats f c) = cn_data c"
  "cn_date (count_stats f c) = cn_date c" "cn_parser (count_stats f c) = cn_parser c"
  "cn_request_state (count_stats f c) = cn_request_state c" "is_open key (count_stats f c) = is_open key c"
  by (simp_all add: count_stats_def is_open_def)

lemma end_request_frame [simp]:
  "cn_buffer (end_request c) = cn_buffer c" "cn_request_bytes (end_request c) = cn_request_bytes c"
  "cn_req (end_request c) = cn_req c" "cn_need_more (end_request c) = cn_need_more c"
  "cn_reply (end_request c) = cn_reply c" "cn_pc (end_request c) = cn_pc c"
  "is_open key (end_request c) = is_open key c"
  by (simp_all add: end_request_def)

lemma close_socket_frame [simp]:
  "cn_buffer (close_socket key c) = cn_buffer c" "cn_request_bytes (close_socket key c) = cn_request_bytes c"
  "cn_req (close_socket key c) = cn_req c" "cn_need_more (close_socket key c) = cn_need_more c"
  "\<not> is_open key (close_socket key c)"
  by (simp_all add: close_socket_def CloseSocket_def is_open_def)

lemma leave_frame [simp]:
  "cn_buffer (leave key c) = cn_buffer c" "cn_request_bytes (leave key c) = cn_request_bytes c"
  "cn_req (leave key c) = cn_req c" "cn_pc (leave key c) = Finished"
  by (simp_all add: leave_def Close_def Let_def)

lemma reply_with_error_frame [simp]:
  "cn_buffer (reply_with_error env now code m c) = cn_buffer c"
  "cn_request_bytes (reply_with_error env now code m c) = cn_request_bytes c"
  "cn_req (reply_with_error env now code m c) = cn_req c"
  "cn_need_more (reply_with_error env now code m c) = cn_need_more c"
  "cn_mgr (reply_with_error env now code m c) = cn_mgr c"
  "cn_data (reply_with_error env now code m c) = cn_data c"
  by (simp_all add: reply_with_error_def split: prod.splits)

lemma received_data_cong:
  "cn_buffer c' = cn_buffer c \<Longrightarrow> cn_request_bytes c' = cn_request_bytes c \<Longrightarrow>
     received_data c' = received_data c"
  by (simp add: received_data_def)

lemma answer_request_frame:
  "cn_buffer (answer_request env key now1 now2 c) = cn_buffer c \<and>
   cn_request_bytes (answer_request env key now1 now2 c) = cn_request_bytes c \<and>
   cn_req (answer_request env key now1 now2 c) = cn_req c \<and>
   cn_pc (answer_request env key now1 now2 c) \<in> {Undefined, Finished, Writing}"
  by (auto simp: answer_request_def Let_def split: sum.splits vhost_exn.splits host_exn.splits prod.splits)

section \<open>The buffer\<close>

text \<open>What a parse that succeeds found, and what is relied on: it takes bytes, and bytes it was given.\<close>

definition parsed_as :: "http_env \<Rightarrow> bytes \<Rightarrow> HttpRequest \<Rightarrow> bool" where
  "parsed_as env raw req \<longleftrightarrow> (\<exists>more v. he_spirit env (raw @ more) new_HttpRequest = (True, v, length raw) \<and>
     req = v\<lparr>request_length := of_nat (length raw)\<rparr>)"

definition parser_ok :: "http_env \<Rightarrow> bool" where
  "parser_ok env \<longleftrightarrow> (\<forall>input v n. he_spirit env input new_HttpRequest = (True, v, n) \<longrightarrow>
     0 < n \<and> n \<le> length input)"

definition conn_ok :: "http_env \<Rightarrow> connection \<Rightarrow> bool" where
  "conn_ok env c \<longleftrightarrow> length (cn_buffer c) = request_buffer_size \<and>
     cn_request_bytes c \<le> request_buffer_size \<and>
     (cn_pc c = Reading \<longrightarrow> cn_request_bytes c + 2 \<le> request_buffer_size) \<and>
     (cn_pc c = Writing \<longrightarrow> (\<exists>v n. he_spirit env (received_data c) new_HttpRequest = (True, v, n) \<and>
        cn_req c = v\<lparr>request_length := of_nat n\<rparr>))"

lemma ParseRequest_cases:
  assumes "ParseRequest env c = (result, c1)"
  shows "cn_buffer c1 = cn_buffer c \<and> cn_request_bytes c1 = cn_request_bytes c \<and>
    (result = PARSE_OK \<longrightarrow> (\<exists>v n. he_spirit env (received_data c) new_HttpRequest = (True, v, n) \<and>
        cn_req c1 = v\<lparr>request_length := of_nat n\<rparr>)) \<and>
    (result = PARSE_INCOMPLETE \<longrightarrow> cn_request_bytes c < request_buffer_size - 1)"
  using assms by (auto simp: ParseRequest_def ParseHttpRequest_def Parse_def Let_def
      split: prod.splits if_splits)

lemma process_ok:
  assumes "length (cn_buffer c) = request_buffer_size" "cn_request_bytes c \<le> request_buffer_size"
  shows "conn_ok env (process env key now1 now2 c) \<and>
    received_data (process env key now1 now2 c) = received_data c"
proof -
  let ?c0 = "c\<lparr>cn_request_state := UNSET, cn_need_more := True\<rparr>"
  obtain result c1 where pr: "ParseRequest env ?c0 = (result, c1)" by (cases "ParseRequest env ?c0")
  note found = ParseRequest_cases [OF pr]
  have data: "received_data ?c0 = received_data c" by (simp add: received_data_def)
  show ?thesis
  proof (cases result)
    case PARSE_OK
    let ?c2 = "answer_request env key now1 now2 c1"
    from answer_request_frame [of env key now1 now2 c1] found data
    have "received_data ?c2 = received_data c" by (simp add: received_data_def)
    with PARSE_OK pr found answer_request_frame [of env key now1 now2 c1] assms data show ?thesis
      by (auto simp: process_def conn_ok_def)
  next
    case PARSE_INCOMPLETE
    with pr found assms show ?thesis
      by (auto simp: process_def conn_ok_def received_data_def Let_def)
  next
    case PARSE_BAD
    with pr found assms show ?thesis
      by (auto simp: process_def conn_ok_def received_data_def)
  qed
qed

lemma conn_ok_leave: "length (cn_buffer c) = request_buffer_size \<Longrightarrow>
    cn_request_bytes c \<le> request_buffer_size \<Longrightarrow> conn_ok env (leave key c)"
  by (simp add: conn_ok_def)

lemma next_round_ok:
  assumes "length (cn_buffer c) = request_buffer_size" "cn_request_bytes c \<le> request_buffer_size"
    and "is_open key c \<Longrightarrow> cn_need_more c \<Longrightarrow> cn_request_bytes c = 0"
  shows "conn_ok env (next_round env key now1 now2 c) \<and>
    received_data (next_round env key now1 now2 c) = received_data c"
proof (cases "is_open key c \<and> \<not> cn_need_more c")
  case True
  with process_ok [OF assms(1,2)] show ?thesis by (simp add: next_round_def)
next
  case False
  with assms show ?thesis
    by (auto simp: next_round_def conn_ok_def received_data_def request_buffer_size_def)
qed

lemma consume_request_data:
  assumes "length (cn_buffer c) = request_buffer_size" "cn_request_bytes c \<le> request_buffer_size"
    and "unat (request_length (cn_req c)) \<le> cn_request_bytes c"
  shows "received_data (consume_request c) = drop (unat (request_length (cn_req c))) (received_data c) \<and>
    length (cn_buffer (consume_request c)) = request_buffer_size \<and>
    cn_request_bytes (consume_request c) \<le> request_buffer_size \<and>
    (cn_need_more (consume_request c) \<longrightarrow> cn_request_bytes (consume_request c) = 0)"
proof -
  let ?n = "unat (request_length (cn_req c))" and ?k = "cn_request_bytes c"
  have "take (?k - ?n) (put_at (cn_buffer c) 0 (segment (cn_buffer c) ?n (?k - ?n))) =
      drop ?n (take ?k (cn_buffer c))"
    using assms by (simp add: put_at_def segment_def drop_take)
  then show ?thesis using assms
    by (auto simp: consume_request_def received_data_def Let_def segment_def)
qed

lemma conn_ok_length:
  assumes "conn_ok env c" "parser_ok env" "cn_pc c = Writing"
  obtains n where "unat (request_length (cn_req c)) = n" "0 < n" "n \<le> cn_request_bytes c"
    "parsed_as env (take n (received_data c)) (cn_req c)"
proof -
  from assms obtain v n where v: "he_spirit env (received_data c) new_HttpRequest = (True, v, n)"
    "cn_req c = v\<lparr>request_length := of_nat n\<rparr>" by (auto simp: conn_ok_def)
  from assms(2) v(1) have n: "0 < n" "n \<le> length (received_data c)" by (auto simp: parser_ok_def)
  from assms(1) have len: "length (received_data c) = cn_request_bytes c"
    by (simp add: conn_ok_def received_data_def)
  from assms(1) n(2) len have "n < 2 ^ 32" by (simp add: conn_ok_def request_buffer_size_def)
  then have "unat (request_length (cn_req c)) = n"
    by (simp add: v(2) unat_of_nat take_bit_eq_mod)
  moreover have "parsed_as env (take n (received_data c)) (cn_req c)"
    unfolding parsed_as_def using v n(2)
    by (intro exI [of _ "drop n (received_data c)"] exI [of _ v]) (simp add: min_absorb2)
  ultimately show ?thesis using that n len by simp
qed

lemma on_written_ok:
  assumes "conn_ok env c" "parser_ok env" "cn_pc c = Writing"
  shows "conn_ok env (on_written env key now1 now2 ok c) \<and>
    received_data (on_written env key now1 now2 ok c) =
      (if kept_open key ok c then drop (unat (request_length (cn_req c))) (received_data c)
       else received_data c)"
proof -
  have c: "length (cn_buffer c) = request_buffer_size" "cn_request_bytes c \<le> request_buffer_size"
    using assms(1) by (auto simp: conn_ok_def)
  obtain n where n: "unat (request_length (cn_req c)) = n" "n \<le> cn_request_bytes c"
    by (rule conn_ok_length [OF assms])
  let ?c1 = "count_stats (\<lambda>s. s\<lparr>bytes_sent := bytes_sent s + of_nat (cr_bytes_in_reply (cn_reply c))\<rparr>) c"
  let ?c2 = "end_request (consume_request ?c1)"
  show ?thesis
  proof (cases "kept_open key ok c")
    case True
    have "received_data ?c1 = received_data c" by (rule received_data_cong) simp_all
    with consume_request_data [of ?c1] c n have c2:
      "received_data ?c2 = drop n (received_data c)" "length (cn_buffer ?c2) = request_buffer_size"
      "cn_request_bytes ?c2 \<le> request_buffer_size"
      "cn_need_more ?c2 \<Longrightarrow> cn_request_bytes ?c2 = 0"
      by (auto simp: received_data_def)
    from next_round_ok [OF c2(2,3) c2(4), of key env now1 now2] True c2(1) n show ?thesis
      by (auto simp: on_written_def kept_open_def Let_def)
  next
    case False
    have rd: "received_data (leave key d) = received_data c"
      if "cn_buffer d = cn_buffer c" "cn_request_bytes d = cn_request_bytes c" for d
      by (rule received_data_cong) (simp_all add: that)
    from False c show ?thesis
      by (auto simp: on_written_def kept_open_def next_round_def Let_def conn_ok_leave rd)
  qed
qed

lemma conn_step_ok:
  assumes "conn_step env key c es c'" "conn_ok env c" "parser_ok env"
  shows "conn_ok env c' \<and> received_data c @ received es = concat (map fst (handled es)) @ received_data c' \<and>
    (\<forall>(raw, req) \<in> set (handled es). raw \<noteq> [] \<and> parsed_as env raw req)"
  using assms(1)
proof cases
  case (step_read data now1 now2)
  let ?c1 = "count_stats (\<lambda>s. s\<lparr>bytes_received := bytes_received s + of_nat (length data)\<rparr>)
     (c\<lparr>cn_buffer := put_at (cn_buffer c) (cn_request_bytes c) data,
        cn_request_bytes := cn_request_bytes c + length data\<rparr>)"
  from step_read assms(2) have b: "length (cn_buffer ?c1) = request_buffer_size"
    "cn_request_bytes ?c1 \<le> request_buffer_size" "received_data ?c1 = received_data c @ data"
    by (auto simp: conn_ok_def received_data_def put_at_def)
  with process_ok [OF b(1,2), of env key now1 now2] step_read show ?thesis
    by (auto simp: on_read_def)
next
  case (step_read_fails now1 now2)
  with assms(2) show ?thesis
    by (auto simp: on_read_def conn_ok_def received_data_def)
next
  case (step_written ok now1 now2)
  obtain n where n: "unat (request_length (cn_req c)) = n" "0 < n" "n \<le> cn_request_bytes c"
    "parsed_as env (take n (received_data c)) (cn_req c)"
    by (rule conn_ok_length [OF assms(2,3) step_written(3)])
  then have "take n (received_data c) \<noteq> []"
    using assms(2) by (auto simp: received_data_def conn_ok_def)
  with step_written n on_written_ok [OF assms(2,3) step_written(3), of key now1 now2 ok] show ?thesis by auto
next
  case step_bad_written
  with assms(2) show ?thesis by (auto simp: on_bad_written_def conn_ok_def received_data_def)
next
  case (step_others date parser data mgr)
  with assms(2) show ?thesis by (auto simp: conn_ok_def received_data_def)
qed

lemma conn_run_ok:
  assumes "conn_run env key es c" "parser_ok env"
  shows "conn_ok env c \<and> received es = concat (map fst (handled es)) @ received_data c \<and>
    (\<forall>(raw, req) \<in> set (handled es). raw \<noteq> [] \<and> parsed_as env raw req)"
  using assms
proof induction
  case (conn_start buffer now1 now2 date parser data mgr)
  let ?c = "new_connection buffer date parser data mgr"
  have "length (cn_buffer ?c) = request_buffer_size" "cn_request_bytes ?c = 0"
    using conn_start by (simp_all add: new_connection_def)
  with next_round_ok [of ?c key env now1 now2] show ?case by (simp add: received_data_def)
next
  case (conn_next es c es' c')
  from conn_step_ok [OF conn_next.hyps(2)] conn_next.IH conn_next.prems
  have st: "conn_ok env c'" "received_data c @ received es' = concat (map fst (handled es')) @ received_data c'"
    "\<forall>(raw, req) \<in> set (handled es'). raw \<noteq> [] \<and> parsed_as env raw req" by auto
  with conn_next.IH conn_next.prems have "received (es @ es') =
      concat (map fst (handled (es @ es'))) @ received_data c'" by simp
  with st conn_next.IH conn_next.prems show ?case by auto
qed

text \<open>
  C7: no byte of a connection is lost, read twice or reordered. Whatever the sizes of the
  reads and however requests are pipelined, what was received is the requests done with so
  far, one after the other, followed by what is in the buffer, and each of these requests is
  what the parser made of the bytes it was taken from. The thread's other connections cannot
  disturb this. The parser has to take at least a byte and no more than it is given.
\<close>

theorem stream_conserved:
  assumes "conn_run env key es c" "parser_ok env"
  shows "received es = concat (map fst (handled es)) @ received_data c \<and>
    (\<forall>(raw, req) \<in> set (handled es). raw \<noteq> [] \<and> parsed_as env raw req)"
  using conn_run_ok [OF assms] by blast

text \<open>
  The buffer never overflows, and a read always finds room for two bytes at least, so a
  connection whose request does not end cannot make the loop spin on reads of no bytes.
\<close>

theorem buffer_bounded:
  assumes "conn_run env key es c" "parser_ok env"
  shows "length (cn_buffer c) = request_buffer_size \<and> cn_request_bytes c \<le> request_buffer_size \<and>
    (cn_pc c = Reading \<longrightarrow> cn_request_bytes c + 2 \<le> request_buffer_size)"
  using conn_run_ok [OF assms] by (simp add: conn_ok_def)

section \<open>Answers\<close>

text \<open>The code, message, body and hosts' data that a request of a default host leads to.\<close>

definition default_answer ::
  "http_env \<Rightarrow> nat \<Rightarrow> host_data \<Rightarrow> HttpRequest \<Rightarrow> nat \<times> bytes \<times> bytes \<times> host_data" where
  "default_answer env ix data req =
     (if served req then
        (let hits = hostbits (data ! ix) + 1 in
         (200, bytes_of ''OK'',
          encoded (he_reply env) (allow_gzip (he_config env)) (allow_deflate (he_config env)) req
            (page ix (unat hits) (do_not_track req)),
          data[ix := (data ! ix)\<lparr>hostbits := hits\<rparr>]))
      else if meth req = GET \<or> meth req = HEAD
      then (404, bytes_of ''Not Found'', bytes_of ''Not Found'', data)
      else (405, bytes_of ''Method not allowed'', bytes_of ''Method not allowed'', data))"

lemma messages_no_cr: "13 \<notin> set (bytes_of ''Not Found'')" "13 \<notin> set (bytes_of ''Method not allowed'')"
  "13 \<notin> set (bytes_of ''Bad Request!'')"
  by code_simp+

lemma reply_with_error_read:
  assumes "now \<noteq> 0" "date_ok (re_date (he_reply env) now)" "13 \<notin> set content"
  shows "let r = cn_reply (reply_with_error env now code content c) in
     (\<exists>ls. read_reply (meth (cn_req c) = HEAD) (concat (cr_buffers r) @ rest) =
        Some (status_line code content (cn_req c) # ls,
              if meth (cn_req c) = HEAD then [] else content, rest)) \<and> cr_close_on_reply r"
  using ReplyWithError_read [OF assms, of code "cn_req c" "cn_date c" "cn_reply c" rest]
  by (auto simp: reply_with_error_def Let_def split: prod.splits)

lemma ParseRequest_parsed:
  assumes "he_spirit env (received_data c) new_HttpRequest = (True, v, n)"
  shows "ParseRequest env c =
    (PARSE_OK, c\<lparr>cn_req := v\<lparr>request_length := of_nat n\<rparr>, cn_parser := v\<rparr>)"
  using assms by (simp add: ParseRequest_def ParseHttpRequest_def Parse_def Let_def)

lemma request_answer:
  assumes "he_spirit env (received_data c) new_HttpRequest = (True, v, n)"
    and "GetHost (he_lexcast env) (he_config env) (cn_data c) (host v) = Inr (Default, ix)"
    and "now1 \<noteq> 0" "date_ok (re_date (he_reply env) now1)"
    and "now2 \<noteq> 0" "date_ok (re_date (he_reply env) now2)"
  shows "let c' = process env key now1 now2 c; req = v\<lparr>request_length := of_nat n\<rparr>; r = cn_reply c';
      (code, message, body, data') = default_answer env ix (cn_data c) req in
    cn_pc c' = Writing \<and> cn_data c' = data' \<and>
    (\<exists>ls. read_reply (meth v = HEAD) (concat (cr_buffers r) @ rest) =
       Some (status_line code message req # ls, if meth v = HEAD then [] else body, rest)) \<and>
    cr_close_on_reply r = (if served v then version v = HTTP_1_0 else True)"
proof -
  let ?req = "v\<lparr>request_length := of_nat n\<rparr>" and ?renv = "he_reply env" and ?cfg = "he_config env"
  let ?c0 = "c\<lparr>cn_request_state := UNSET, cn_need_more := True\<rparr>"
  let ?c1 = "?c0\<lparr>cn_req := ?req, cn_parser := v\<rparr>"
  have "received_data ?c0 = received_data c" by (simp add: received_data_def)
  with ParseRequest_parsed [of env ?c0 v n] assms(1)
  have pr: "process env key now1 now2 c = answer_request env key now1 now2 ?c1"
    by (simp add: process_def)
  let ?r1 = "Prepare ?renv now1 (allow_gzip ?cfg) (allow_deflate ?cfg) ?req (cn_reply c)"
  have sv: "served ?req = served v" by (simp add: served_def)
  consider (ok) "served v" | (resource) "\<not> served v" "meth v = GET \<or> meth v = HEAD"
    | (other) "meth v \<noteq> GET" "meth v \<noteq> HEAD" by blast
  then show ?thesis
  proof cases
    case ok
    let ?page = "page ix (unat (hostbits (cn_data c ! ix) + 1)) (do_not_track v)"
    obtain date r where r: "Reply ?renv 200 ?req (cn_date c, write_out ?page ?r1) = (date, r)"
      by (cases "Reply ?renv 200 ?req (cn_date c, write_out ?page ?r1)")
    from ok have "ProcessRequest (he_files env) (Default, ix) ?req (cn_data c) =
        (Inr ?page, (cn_data c)[ix := (cn_data c ! ix)\<lparr>hostbits := hostbits (cn_data c ! ix) + 1\<rparr>])"
      by (simp add: DefaultHost_ProcessRequest_def served_def IncHitCount_def Let_def)
    with Reply_read [OF assms(3,4), of 200 ?req "cn_date c" ?page "allow_gzip ?cfg" "allow_deflate ?cfg"
        "cn_reply c" rest] assms(2) ok r sv
    show ?thesis by (auto simp: pr answer_request_def default_answer_def Let_def)
  next
    case resource
    then have out: "ProcessRequest (he_files env) (Default, ix) ?req (cn_data c) =
        (Inl (ExceptionInvalidResource (bytes_of ''Not root'')), cn_data c)"
      by (auto simp: DefaultHost_ProcessRequest_def served_def)
    from resource reply_with_error_read [OF assms(5,6) messages_no_cr(1), of 404 "?c1\<lparr>cn_reply := ?r1\<rparr>" rest]
      assms(2) out sv
    show ?thesis by (auto simp: pr answer_request_def default_answer_def Let_def)
  next
    case other
    then have out: "ProcessRequest (he_files env) (Default, ix) ?req (cn_data c) =
        (Inl (ExceptionUnsupportedMethod (GetMethodName ?req)), cn_data c)"
      by (auto simp: DefaultHost_ProcessRequest_def)
    from other have "\<not> served v" by (simp add: served_def)
    with other reply_with_error_read [OF assms(5,6) messages_no_cr(2), of 405 "?c1\<lparr>cn_reply := ?r1\<rparr>" rest]
      assms(2) out sv
    show ?thesis by (auto simp: pr answer_request_def default_answer_def Let_def)
  qed
qed

text \<open>
  C22: a request that the parser accepts and whose host is a default host is answered. The
  client reads the page with the host's hit count raised by one, or the message for a resource
  other than the root or a method other than the two supported, and the connection stays open
  exactly for a page sent to a client of HTTP 1.1.
\<close>

theorem request_answered:
  assumes "he_spirit env (received_data c) new_HttpRequest = (True, v, n)"
    and "GetHost (he_lexcast env) (he_config env) (cn_data c) (host v) = Inr (Default, ix)"
    and "now1 \<noteq> 0" "date_ok (re_date (he_reply env) now1)"
    and "now2 \<noteq> 0" "date_ok (re_date (he_reply env) now2)"
  shows "let c' = process env key now1 now2 c; req = v\<lparr>request_length := of_nat n\<rparr>; r = cn_reply c';
      (code, message, body, data') = default_answer env ix (cn_data c) req in
    cn_pc c' = Writing \<and> cn_data c' = data' \<and>
    (\<exists>ls. read_reply (meth v = HEAD) (concat (cr_buffers r) @ rest) =
       Some (status_line code message req # ls, if meth v = HEAD then [] else body, rest)) \<and>
    cr_close_on_reply r = (if served v then version v = HTTP_1_0 else True)"
  using assms by (rule request_answer)

text \<open>
  C29: data that does not parse and cannot become a request, because it has the end of a header
  or fills the buffer, is answered with an error, counted once as a bad request, and the
  connection is closed and ended whether the write succeeds or not. The status line and the
  body follow the version and the method of the request before it on the connection; on a new
  connection the version is the text of an unknown one.
\<close>

theorem bad_request_refused:
  assumes "he_spirit env (received_data c) new_HttpRequest = (False, v, n)"
    and "request_buffer_size \<le> cn_request_bytes c + 1 \<or> find (crlf @ crlf) (received_data c) \<noteq> None"
    and "now2 \<noteq> 0" "date_ok (re_date (he_reply env) now2)"
  shows "let c1 = process env key now1 now2 c; c2 = on_bad_written key c1; head = (meth (cn_req c) = HEAD) in
    cn_pc c1 = WritingBad \<and>
    (\<exists>ls. read_reply head (concat (cr_buffers (cn_reply c1)) @ rest) =
       Some (status_line 400 (bytes_of ''Bad Request!'') (cn_req c) # ls,
             if head then [] else bytes_of ''Bad Request!'', rest)) \<and>
    cn_pc c2 = Finished \<and> \<not> is_open key c2 \<and>
    cm_stats (cn_mgr c2) = (cm_stats (cn_mgr c))\<lparr>bad_requests := bad_requests (cm_stats (cn_mgr c)) + 1\<rparr>"
proof -
  let ?c0 = "c\<lparr>cn_request_state := UNSET, cn_need_more := True\<rparr>"
  let ?c1 = "?c0\<lparr>cn_parser := v, cn_request_state := BAD\<rparr>"
  have data: "received_data ?c0 = received_data c" by (simp add: received_data_def)
  have parse: "ParseRequest env ?c0 = (PARSE_BAD, ?c0\<lparr>cn_parser := v\<rparr>)"
    using assms(1,2) data
    by (auto simp: ParseRequest_def ParseHttpRequest_def Parse_def request_buffer_size_def Let_def)
  let ?p = "(reply_with_error env now2 400 (bytes_of ''Bad Request!'') ?c1)\<lparr>cn_pc := WritingBad\<rparr>"
  have p: "process env key now1 now2 c = ?p" by (simp add: process_def parse)
  have state: "cn_request_state ?p = BAD" "cn_mgr ?p = cn_mgr c" "cn_closed ?p = cn_closed c"
    by (simp_all add: reply_with_error_def split: prod.splits)
  have remove: "cm_open (Remove key m) \<subseteq> cm_open m" "cm_stats (Remove key m) = cm_stats m" for m
    by (auto simp: Remove_def split: option.splits)
  have "cm_stats (cn_mgr (on_bad_written key ?p)) =
      (cm_stats (cn_mgr c))\<lparr>bad_requests := bad_requests (cm_stats (cn_mgr c)) + 1\<rparr>"
    using state by (simp add: on_bad_written_def leave_def Close_def close_socket_def CloseSocket_def
        end_request_def count_stats_def remove Let_def del: reply_with_error_frame)
  moreover have "\<not> is_open key (on_bad_written key ?p)"
    by (auto simp: on_bad_written_def leave_def Close_def close_socket_def CloseSocket_def
        end_request_def count_stats_def is_open_def Let_def dest!: subsetD [OF remove(1)])
  ultimately show ?thesis
    using reply_with_error_read [OF assms(3,4) messages_no_cr(3), of 400 ?c1 rest]
    by (simp add: p on_bad_written_def Let_def)
qed

section \<open>The end of a connection\<close>

lemma Remove_forgets:
  assumes "distinct (keys_of m)" "small_key key"
  shows "key \<notin> set (keys_of (Remove key m)) \<and> cm_open (Remove key m) \<subseteq> cm_open m"
proof -
  have e: "key \<notin> set (map ce_key (erase i es))" "i < length es \<Longrightarrow> set (map ce_key (erase i es)) \<subseteq> ce_key ` set es"
    if "Lookup_conn key es = Some i" "distinct (map ce_key es)" for es i
    using distinct_erase [OF that(2), of i] Lookup_conn_Some [OF that(1)] as_int_small [OF assms(2)]
    by (auto simp: map_erase dest: set_erase [THEN subsetD])
  have none: "key \<notin> ce_key ` set es" if "Lookup_conn key es = None" for es
    using that as_int_small [OF assms(2)] by (simp add: Lookup_conn_def position_None)
  have mem: "key \<in> ce_key ` set es" if "Lookup_conn key es = Some i" for es i
    using Lookup_conn_Some [OF that] as_int_small [OF assms(2)] by (metis image_eqI nth_mem)
  show ?thesis
  proof (cases "Lookup_conn key (cm_connections m)")
    case (Some i)
    with e [OF Some] mem [OF Some] assms(1) show ?thesis by (auto simp: Remove_def keys_of_def)
  next
    case live: None
    show ?thesis
    proof (cases "Lookup_conn key (cm_dead m)")
      case (Some i)
      with e [OF Some] live none [OF live] assms(1) show ?thesis by (auto simp: Remove_def keys_of_def)
    next
      case None
      with live none [OF live] none [OF None] show ?thesis by (auto simp: Remove_def keys_of_def)
    qed
  qed
qed

definition forgotten :: "u64 \<Rightarrow> connection \<Rightarrow> bool" where
  "forgotten key c \<longleftrightarrow> \<not> is_open key c \<and> key \<notin> set (keys_of (cn_mgr c))"

text \<open>A connection that still runs has not been closed, and its manager's keys are distinct.\<close>

definition running :: "connection \<Rightarrow> bool" where
  "running c \<longleftrightarrow> \<not> cn_closed c \<and> distinct (keys_of (cn_mgr c))"

lemma leave_forgets: "running c \<Longrightarrow> small_key key \<Longrightarrow> forgotten key (leave key c)"
  using Remove_forgets [of "CloseSocket key (cn_mgr c)" key]
  by (auto simp: running_def forgotten_def leave_def Close_def close_socket_def is_open_def
      CloseSocket_def keys_of_def Let_def)

lemma running_simps [simp]:
  "running (count_stats f c) = running c" "running (end_request c) = running c"
  "running (close_socket key c) = running c" "running (consume_request c) = running c"
  "running (c\<lparr>cn_reply := r\<rparr>) = running c" "running (c\<lparr>cn_data := d\<rparr>) = running c"
  by (simp_all add: running_def count_stats_def end_request_def close_socket_def CloseSocket_def
      consume_request_def keys_of_def Let_def)

lemma answer_request_forgets:
  "running c \<Longrightarrow> small_key key \<Longrightarrow> cn_pc (answer_request env key now1 now2 c) = Finished \<Longrightarrow>
     forgotten key (answer_request env key now1 now2 c)"
  by (auto simp: answer_request_def leave_forgets Let_def
      split: sum.splits vhost_exn.splits prod.splits if_splits)

lemma process_forgets:
  assumes "running c" "small_key key" "cn_pc (process env key now1 now2 c) = Finished"
  shows "forgotten key (process env key now1 now2 c)"
proof -
  let ?c0 = "c\<lparr>cn_request_state := UNSET, cn_need_more := True\<rparr>"
  obtain result c1 where pr: "ParseRequest env ?c0 = (result, c1)" by (cases "ParseRequest env ?c0")
  then have "running c1" using assms(1)
    by (auto simp: ParseRequest_def running_def Let_def split: prod.splits if_splits)
  moreover from this have "running (c1\<lparr>cn_request_state := s\<rparr>)" for s by (simp add: running_def)
  ultimately show ?thesis using assms pr
    by (auto simp: process_def answer_request_forgets leave_forgets Let_def
        split: ParseResult.splits if_splits)
qed

lemma next_round_forgets:
  "running c \<Longrightarrow> small_key key \<Longrightarrow> cn_pc (next_round env key now1 now2 c) = Finished \<Longrightarrow>
     forgotten key (next_round env key now1 now2 c)"
  by (auto simp: next_round_def leave_forgets process_forgets split: if_splits)

text \<open>
  Whatever ends the coroutine, a failed read or write, an unknown host, a reply that closes
  the connection or a bad request, the socket is closed then and the manager has forgotten the
  connection, in its list of live connections and in that of dead ones, as long as the key
  fits the parameter of the lookup.
\<close>

theorem connection_forgotten:
  assumes "conn_step env key c es c'" "cn_pc c \<noteq> Finished" "cn_pc c' = Finished"
    and "running c" "small_key key"
  shows "\<not> is_open key c' \<and> key \<notin> set (keys_of (cn_mgr c'))"
proof -
  have "forgotten key c'"
    using assms(1)
  proof cases
    case (step_read data now1 now2)
    have "running (c\<lparr>cn_buffer := put_at (cn_buffer c) (cn_request_bytes c) data,
        cn_request_bytes := cn_request_bytes c + length data\<rparr>)" using assms(4) by (simp add: running_def)
    with step_read assms(3,5) show ?thesis by (simp add: on_read_def process_forgets)
  next
    case (step_read_fails now1 now2)
    with assms(4,5) show ?thesis by (simp add: on_read_def leave_forgets)
  next
    case (step_written ok now1 now2)
    with assms(3-5) show ?thesis
      by (auto simp: on_written_def leave_forgets next_round_forgets Let_def split: if_splits)
  next
    case step_bad_written
    with assms(4,5) show ?thesis by (simp add: on_bad_written_def leave_forgets)
  next
    case (step_others date parser data mgr)
    with assms(2,3) show ?thesis by simp
  qed
  then show ?thesis by (simp add: forgotten_def)
qed

lemma answer_keeps_open:
  "cn_pc (answer_request env key now1 now2 c) = Writing \<Longrightarrow>
     is_open key (answer_request env key now1 now2 c) = is_open key c"
  by (auto simp: answer_request_def is_open_def reply_with_error_def SetEndOfLife_def Let_def
      split: sum.splits vhost_exn.splits host_exn.splits prod.splits if_splits option.splits)

lemma process_parsed_frame:
  assumes "he_spirit env (received_data c) new_HttpRequest = (True, v, n)"
  shows "received_data (process env key now1 now2 c) = received_data c"
    and "cn_req (process env key now1 now2 c) = v\<lparr>request_length := of_nat n\<rparr>"
    and "cn_pc (process env key now1 now2 c) = Writing \<Longrightarrow>
      is_open key (process env key now1 now2 c) = is_open key c"
proof -
  let ?c1 = "c\<lparr>cn_request_state := UNSET, cn_need_more := True, cn_req := v\<lparr>request_length := of_nat n\<rparr>, cn_parser := v\<rparr>"
  have p: "process env key now1 now2 c = answer_request env key now1 now2 ?c1"
    using ParseRequest_parsed [of env "c\<lparr>cn_request_state := UNSET, cn_need_more := True\<rparr>" v n] assms
    by (simp add: process_def received_data_def)
  then show "received_data (process env key now1 now2 c) = received_data c"
    and "cn_req (process env key now1 now2 c) = v\<lparr>request_length := of_nat n\<rparr>"
    using answer_request_frame [of env key now1 now2 ?c1] by (simp_all add: received_data_def)
  show "cn_pc (process env key now1 now2 c) = Writing \<Longrightarrow>
      is_open key (process env key now1 now2 c) = is_open key c"
    using answer_keeps_open [of env key now1 now2 ?c1] by (simp add: p is_open_def)
qed

section \<open>A sample connection\<close>

text \<open>A parser that takes everything up to the first empty line for one and the same request.\<close>

definition sample_spirit :: spirit where
  "sample_spirit input req =
     (case find (crlf @ crlf) input of
        None \<Rightarrow> (False, req, 0)
      | Some i \<Rightarrow> (True, sample_request\<lparr>host := bytes_of ''2.example.com''\<rparr>, i + 4))"

definition sample_http_env :: http_env where
  "sample_http_env = \<lparr>he_spirit = sample_spirit, he_lexcast = sample_lex, he_files = (\<lambda>_. None),
     he_reply = sample_reply_env, he_config = sample_config\<rparr>"

definition sample_mgr :: ConnectionMgr where
  "sample_mgr = snd (CreateConnection 0 99 new_mgr)"

definition sample_connection :: connection where
  "sample_connection = new_connection (replicate request_buffer_size 0) [] new_HttpRequest sample_data sample_mgr"

definition sample_start :: connection where
  "sample_start = next_round sample_http_env 1 5 5 sample_connection"

text \<open>The same connection with a few bytes in its buffer.\<close>

definition sample_filled :: "bytes \<Rightarrow> connection" where
  "sample_filled data = sample_connection\<lparr>cn_buffer := data, cn_request_bytes := length data\<rparr>"

lemma find_bound: "find pat s = Some i \<Longrightarrow> i + length pat \<le> length s"
  by (induction s arbitrary: i) (auto split: if_splits dest: prefix_length_le)

lemma sample_parser_ok: "parser_ok sample_http_env"
proof -
  have "i + 4 \<le> length input" if "find (crlf @ crlf) input = Some i" for input i
    using find_bound [OF that] by (simp add: crlf_def)
  then show ?thesis
    by (auto simp: parser_ok_def sample_http_env_def sample_spirit_def split: option.splits)
qed

lemma sample_open: "is_open 1 sample_connection" "cn_need_more sample_connection"
  "cn_request_bytes sample_connection = 0" "cn_mgr sample_connection = sample_mgr"
  "cn_closed sample_connection = False"
  by (simp_all add: sample_connection_def new_connection_def is_open_def sample_mgr_def
      CreateConnection_def new_mgr_def Let_def)

lemma sample_start: "sample_start = sample_connection\<lparr>cn_pc := Reading\<rparr>"
  by (simp add: sample_start_def next_round_def sample_open)

lemma sample_conn_run: "conn_run sample_http_env 1 [Received [71, 69]]
    (on_read sample_http_env 1 5 5 (Some [71, 69]) sample_start)"
proof -
  have "conn_run sample_http_env 1 [] sample_start"
    unfolding sample_start_def sample_connection_def by (rule conn_start) simp
  moreover have "conn_step sample_http_env 1 sample_start [Received [71, 69]]
      (on_read sample_http_env 1 5 5 (Some [71, 69]) sample_start)"
    by (rule step_read) (simp_all add: sample_start sample_open request_buffer_size_def)
  ultimately show ?thesis by (metis append_Nil conn_next)
qed

lemma sample_read: "cn_pc (on_read sample_http_env 1 5 5 (Some [71, 69]) sample_start) = Reading"
proof -
  let ?data = "[71, 69] :: bytes"
  let ?filled = "count_stats (\<lambda>s. s\<lparr>bytes_received := bytes_received s + of_nat (length ?data)\<rparr>)
     (sample_start\<lparr>cn_buffer := put_at (cn_buffer sample_start) (cn_request_bytes sample_start) ?data,
        cn_request_bytes := cn_request_bytes sample_start + length ?data\<rparr>)"
  let ?started = "?filled\<lparr>cn_request_state := UNSET, cn_need_more := True\<rparr>"
  let ?parsed = "?started\<lparr>cn_parser := new_HttpRequest\<rparr>"
  have "received_data ?started = ?data" by (simp add: received_data_def put_at_def sample_start sample_open)
  then have parse: "ParseRequest sample_http_env ?started = (PARSE_INCOMPLETE, ?parsed)"
    by (simp add: ParseRequest_def ParseHttpRequest_def Parse_def sample_http_env_def sample_spirit_def
        crlf_def request_buffer_size_def sample_start sample_open)
  have open1: "is_open 1 (end_request (?parsed\<lparr>cn_request_state := IGNORE\<rparr>))"
    using sample_open(1) by (simp add: is_open_def count_stats_def end_request_def sample_start)
  have "on_read sample_http_env 1 5 5 (Some ?data) sample_start = process sample_http_env 1 5 5 ?filled"
    by (simp only: on_read_def option.case)
  also have "cn_pc \<dots> = Reading"
    unfolding process_def parse using open1 by (simp add: Let_def)
  finally show ?thesis .
qed

theorem stream_conserved_witness:
  "received [Received [71, 69]] = concat (map fst (handled [Received [71, 69]])) @
     received_data (on_read sample_http_env 1 5 5 (Some [71, 69]) sample_start)"
  using stream_conserved [OF sample_conn_run sample_parser_ok] by (rule conjunct1)

theorem buffer_bounded_witness:
  "let c = on_read sample_http_env 1 5 5 (Some [71, 69]) sample_start in
     length (cn_buffer c) = request_buffer_size \<and> cn_pc c = Reading \<and>
     cn_request_bytes c + 2 \<le> request_buffer_size"
  using buffer_bounded [OF sample_conn_run sample_parser_ok] sample_read by (simp add: Let_def)

lemma sample_filled_data [simp]: "received_data (sample_filled data) = data"
  by (simp add: sample_filled_def received_data_def)

theorem request_answered_witness:
  "let c = sample_filled [71, 69, 84, 13, 10, 13, 10]; c' = process sample_http_env 1 1 1 c;
       v = sample_request\<lparr>host := bytes_of ''2.example.com''\<rparr>; req = v\<lparr>request_length := of_nat 7\<rparr>;
       r = cn_reply c'; (code, message, body, data') = default_answer sample_http_env 2 (cn_data c) req in
    cn_pc c' = Writing \<and> cn_data c' = data' \<and>
    (\<exists>ls. read_reply (meth v = HEAD) (concat (cr_buffers r) @ [7]) =
       Some (status_line code message req # ls, if meth v = HEAD then [] else body, [7])) \<and>
    cr_close_on_reply r = (if served v then version v = HTTP_1_0 else True)"
proof -
  let ?data = "[71, 69, 84, 13, 10, 13, 10] :: bytes"
  let ?v = "sample_request\<lparr>host := bytes_of ''2.example.com''\<rparr>"
  have "he_spirit sample_http_env ?data new_HttpRequest = (True, ?v, 7)"
    by (simp add: sample_http_env_def sample_spirit_def crlf_def)
  then have spirit: "he_spirit sample_http_env (received_data (sample_filled ?data)) new_HttpRequest = (True, ?v, 7)"
    by simp
  have "GetHost sample_lex sample_config sample_data (bytes_of ''2.example.com'') = Inr (Default, 2)"
    by code_simp
  then have "GetHost (he_lexcast sample_http_env) (he_config sample_http_env)
      (cn_data (sample_filled ?data)) (host ?v) = Inr (Default, 2)"
    by (simp add: sample_http_env_def sample_filled_def sample_connection_def new_connection_def)
  moreover have "date_ok (re_date (he_reply sample_http_env) 1)"
    using sample_date_ok by (simp add: sample_http_env_def)
  ultimately show ?thesis
    using request_answered [OF spirit, of 2 1 1 1 "[7]"] unfolding Let_def by simp
qed

theorem bad_request_refused_witness:
  "let c = (sample_filled (replicate (request_buffer_size - 1) 65)); c1 = process sample_http_env 1 1 1 c;
       c2 = on_bad_written 1 c1; head = (meth (cn_req c) = HEAD) in
    cn_pc c1 = WritingBad \<and>
    (\<exists>ls. read_reply head (concat (cr_buffers (cn_reply c1)) @ [7]) =
       Some (status_line 400 (bytes_of ''Bad Request!'') (cn_req c) # ls,
             if head then [] else bytes_of ''Bad Request!'', [7])) \<and>
    cn_pc c2 = Finished \<and> \<not> is_open 1 c2 \<and>
    cm_stats (cn_mgr c2) = (cm_stats (cn_mgr c))\<lparr>bad_requests := bad_requests (cm_stats (cn_mgr c)) + 1\<rparr>"
proof -
  let ?data = "replicate (request_buffer_size - 1) 65 :: bytes"
  have none: "find (crlf @ crlf) (replicate n 65) = None" for n
    by (induction n) (simp_all add: crlf_def)
  have "he_spirit sample_http_env (received_data (sample_filled ?data)) new_HttpRequest = (False, new_HttpRequest, 0)"
    by (simp add: sample_http_env_def sample_spirit_def none)
  moreover have "request_buffer_size \<le> cn_request_bytes (sample_filled ?data) + 1"
    by (simp add: sample_filled_def request_buffer_size_def)
  moreover have "date_ok (re_date (he_reply sample_http_env) 1)"
    using sample_date_ok by (simp add: sample_http_env_def)
  ultimately show ?thesis
    using bad_request_refused [of sample_http_env "sample_filled ?data" new_HttpRequest 0 1 1 1 "[7]"]
    unfolding Let_def by simp
qed

theorem connection_forgotten_witness:
  "\<not> is_open 1 (on_read sample_http_env 1 5 5 None sample_start) \<and>
   1 \<notin> set (keys_of (cn_mgr (on_read sample_http_env 1 5 5 None sample_start)))"
proof (rule connection_forgotten)
  show "conn_step sample_http_env 1 sample_start [] (on_read sample_http_env 1 5 5 None sample_start)"
    by (rule step_read_fails) (simp add: sample_start)
  show "cn_pc sample_start \<noteq> Finished" by (simp add: sample_start)
  show "cn_pc (on_read sample_http_env 1 5 5 None sample_start) = Finished" by (simp add: on_read_def)
  show "running sample_start"
    by (simp add: running_def sample_start sample_open sample_mgr_def CreateConnection_def new_mgr_def
        keys_of_def Let_def)
qed (simp add: small_key_def)

end
