(* ===== verification/HttpGrammar.thy ===== *)
theory HttpGrammar
  imports HttpRequest "HOL-Library.Sublist"
begin

text \<open>
  The grammar of HTTP requests: \<open>RequestGrammar\<close> of \<open>src/httpd/HttpRequestParser.h\<close>. Its input
  are the tokens of the lexer, each with a number and a text; \<open>HttpLexer\<close> models the lexer.
\<close>

section \<open>Tokens\<close>

text \<open>The token definitions the grammar refers to by name.\<close>

datatype terminal = M_GET | M_OPTIONS | M_HEAD | M_POST | M_PUT | M_DELETE | M_TRACE | M_CONNECT | M_ANY
  | URI | HTTP_V10 | HTTP_V11 | H_HOST | H_DNT | H_ACCEPT_ENCODING | H_ANY
  | DNT_ON | DNT_OFF | AE_GZIP | AE_DEFLATE | AE_OTHER | AE_QVALUE | HV_STR

type_synonym token = "nat \<times> bytes"

text \<open>
  The least number the lexer gives to a token by itself, and the number of each token. The
  numbers of two kinds of tokens are fixed by the program.
\<close>

record token_ids =
  min_token_id :: nat
  auto_id :: "terminal \<Rightarrow> nat"

definition TOK_CRLF :: "token_ids \<Rightarrow> nat" where
  "TOK_CRLF ids = min_token_id ids + 10"

definition TOK_STRING :: "token_ids \<Rightarrow> nat" where
  "TOK_STRING ids = TOK_CRLF ids + 1"

definition id_of :: "token_ids \<Rightarrow> terminal \<Rightarrow> nat" where
  "id_of ids t = (if t = HV_STR then TOK_STRING ids else auto_id ids t)"

section \<open>Operators of the grammar\<close>

text \<open>
  A rule gets the grammar's request and the tokens from a position on. It fails or returns the
  tokens behind what it matched; the request is changed by the semantic actions that ran, also
  by those of an alternative that failed later.
\<close>

type_synonym rule = "HttpRequest \<Rightarrow> token list \<Rightarrow> token list option \<times> HttpRequest"

definition lit :: "nat \<Rightarrow> (bytes \<Rightarrow> HttpRequest \<Rightarrow> HttpRequest) \<Rightarrow> rule" where
  "lit i action r ts =
     (case ts of
        [] \<Rightarrow> (None, r)
      | (j, text) # rest \<Rightarrow> if j = i then (Some rest, action text r) else (None, r))"

abbreviation skip :: "bytes \<Rightarrow> HttpRequest \<Rightarrow> HttpRequest" where
  "skip \<equiv> \<lambda>text r. r"

definition sequ :: "rule \<Rightarrow> rule \<Rightarrow> rule" where
  "sequ p q r ts = (case p r ts of (None, r') \<Rightarrow> (None, r') | (Some ts', r') \<Rightarrow> q r' ts')"

definition alt :: "rule \<Rightarrow> rule \<Rightarrow> rule" where
  "alt p q r ts = (case p r ts of (Some ts', r') \<Rightarrow> (Some ts', r') | (None, r') \<Rightarrow> q r' ts)"

text \<open>
  Repetition. A subject that matches without taking a token would be repeated for ever; here
  the repetition ends there, and below it is shown that no subject of the grammar does so.
\<close>

function many :: "rule \<Rightarrow> rule" where
  "many p r ts =
     (case p r ts of
        (None, r') \<Rightarrow> (Some ts, r')
      | (Some ts', r') \<Rightarrow> if length ts' < length ts then many p r' ts' else (Some ts', r'))"
  by pat_completeness auto
termination by (relation "measure (\<lambda>(p, r, ts). length ts)") auto

declare many.simps [simp del]

section \<open>The rules\<close>

definition ws :: rule where
  "ws = lit 32 skip"

definition crlf_rule :: "token_ids \<Rightarrow> rule" where
  "crlf_rule ids = lit (TOK_CRLF ids) skip"

definition str_rule :: "token_ids \<Rightarrow> rule" where
  "str_rule ids = lit (TOK_STRING ids) skip"

definition hv_crlf :: "token_ids \<Rightarrow> rule" where
  "hv_crlf ids = sequ (many ws) (crlf_rule ids)"

definition set_method :: "Method \<Rightarrow> bytes \<Rightarrow> HttpRequest \<Rightarrow> HttpRequest" where
  "set_method m text r = r\<lparr>meth := m\<rparr>"

definition method_rule :: "token_ids \<Rightarrow> rule" where
  "method_rule ids =
     alt (lit (id_of ids M_GET) (set_method GET))
     (alt (lit (id_of ids M_OPTIONS) (set_method OPTIONS))
     (alt (lit (id_of ids M_HEAD) (set_method HEAD))
     (alt (lit (id_of ids M_POST) (set_method POST))
     (alt (lit (id_of ids M_PUT) (set_method PUT))
     (alt (lit (id_of ids M_DELETE) (set_method DELETE))
     (alt (lit (id_of ids M_TRACE) (set_method TRACE))
     (alt (lit (id_of ids M_CONNECT) (set_method CONNECT))
          (lit (id_of ids M_ANY) skip))))))))"

definition set_version :: "Version \<Rightarrow> bytes \<Rightarrow> HttpRequest \<Rightarrow> HttpRequest" where
  "set_version v text r = r\<lparr>version := v\<rparr>"

definition http_version :: "token_ids \<Rightarrow> rule" where
  "http_version ids =
     alt (lit (id_of ids HTTP_V10) (set_version HTTP_1_0)) (lit (id_of ids HTTP_V11) (set_version HTTP_1_1))"

definition set_uri :: "bytes \<Rightarrow> HttpRequest \<Rightarrow> HttpRequest" where
  "set_uri text r = r\<lparr>uri := text\<rparr>"

definition request_rule :: "token_ids \<Rightarrow> rule" where
  "request_rule ids =
     sequ (method_rule ids) (sequ ws (sequ (lit (id_of ids URI) set_uri)
       (sequ ws (sequ (http_version ids) (crlf_rule ids)))))"

definition set_host :: "bytes \<Rightarrow> HttpRequest \<Rightarrow> HttpRequest" where
  "set_host text r = r\<lparr>host := text\<rparr>"

definition host_hdr :: "token_ids \<Rightarrow> rule" where
  "host_hdr ids =
     sequ (lit (id_of ids H_HOST) skip) (sequ (lit 58 skip) (sequ (many ws)
       (sequ (lit (id_of ids HV_STR) set_host) (hv_crlf ids))))"

definition set_dnt :: "bytes \<Rightarrow> HttpRequest \<Rightarrow> HttpRequest" where
  "set_dnt text r = r\<lparr>do_not_track := True\<rparr>"

definition dnt_value :: "token_ids \<Rightarrow> rule" where
  "dnt_value ids = alt (lit (id_of ids DNT_ON) set_dnt) (lit (id_of ids DNT_OFF) skip)"

definition dnt_hdr :: "token_ids \<Rightarrow> rule" where
  "dnt_hdr ids =
     sequ (lit (id_of ids H_DNT) skip) (sequ (many ws) (sequ (dnt_value ids) (hv_crlf ids)))"

definition set_gzip :: "bytes \<Rightarrow> HttpRequest \<Rightarrow> HttpRequest" where
  "set_gzip text r = r\<lparr>accept_encoding_gzip := True\<rparr>"

definition set_deflate :: "bytes \<Rightarrow> HttpRequest \<Rightarrow> HttpRequest" where
  "set_deflate text r = r\<lparr>accept_encoding_deflate := True\<rparr>"

definition accept_encoding_value :: "token_ids \<Rightarrow> rule" where
  "accept_encoding_value ids =
     alt (lit (id_of ids AE_GZIP) set_gzip)
     (alt (lit (id_of ids AE_DEFLATE) set_deflate) (lit (id_of ids AE_OTHER) skip))"

definition accept_item :: "token_ids \<Rightarrow> rule" where
  "accept_item ids =
     sequ (many ws) (sequ (accept_encoding_value ids)
       (sequ (many (lit (id_of ids AE_QVALUE) skip)) (many (lit 44 skip))))"

definition accept_encoding_hdr :: "token_ids \<Rightarrow> rule" where
  "accept_encoding_hdr ids =
     sequ (lit (id_of ids H_ACCEPT_ENCODING) skip) (sequ (many (accept_item ids)) (hv_crlf ids))"

definition any_item :: "token_ids \<Rightarrow> rule" where
  "any_item ids = sequ (many ws) (str_rule ids)"

definition any_hdr :: "token_ids \<Rightarrow> rule" where
  "any_hdr ids =
     sequ (lit (id_of ids H_ANY) skip) (sequ (lit 58 skip)
       (sequ (sequ (any_item ids) (many (any_item ids))) (hv_crlf ids)))"

definition header_rule :: "token_ids \<Rightarrow> rule" where
  "header_rule ids = alt (host_hdr ids) (alt (dnt_hdr ids) (alt (accept_encoding_hdr ids) (any_hdr ids)))"

definition start :: "token_ids \<Rightarrow> rule" where
  "start ids = sequ (request_rule ids) (sequ (many (header_rule ids)) (crlf_rule ids))"

section \<open>The operators\<close>

lemma lit_simps [simp]:
  "lit i a r [] = (None, r)"
  "lit i a r ((j, t) # rest) = (if j = i then (Some rest, a t r) else (None, r))"
  by (simp_all add: lit_def)

lemma lit_Some [simp]: "lit i a r ts = (Some rest, r') \<longleftrightarrow> (\<exists>t. ts = (i, t) # rest \<and> r' = a t r)"
  by (cases ts) (auto split: if_splits)

lemma lit_None [simp]: "lit i a r ts = (None, r') \<longleftrightarrow> (ts = [] \<or> fst (hd ts) \<noteq> i) \<and> r' = r"
  by (cases ts) (auto split: if_splits)

lemma sequ_Some: "sequ p q r ts = (Some rest, r') \<longleftrightarrow>
    (\<exists>ts1 r1. p r ts = (Some ts1, r1) \<and> q r1 ts1 = (Some rest, r'))"
  by (auto simp: sequ_def split: prod.splits option.splits)

lemma sequ_None: "sequ p q r ts = (None, r') \<longleftrightarrow>
    p r ts = (None, r') \<or> (\<exists>ts1 r1. p r ts = (Some ts1, r1) \<and> q r1 ts1 = (None, r'))"
  by (auto simp: sequ_def split: prod.splits option.splits)

lemma sequ_hit: "p r ts = (Some ts1, r1) \<Longrightarrow> sequ p q r ts = q r1 ts1"
  by (simp add: sequ_def)

lemma alt_Some: "alt p q r ts = (Some rest, r') \<longleftrightarrow>
    p r ts = (Some rest, r') \<or> (\<exists>r1. p r ts = (None, r1) \<and> q r1 ts = (Some rest, r'))"
  by (auto simp: alt_def split: prod.splits option.splits)

lemma alt_None: "alt p q r ts = (None, r') \<longleftrightarrow> (\<exists>r1. p r ts = (None, r1) \<and> q r1 ts = (None, r'))"
  by (auto simp: alt_def split: prod.splits option.splits)

lemma alt_first: "p r ts = (Some ts1, r1) \<Longrightarrow> alt p q r ts = (Some ts1, r1)"
  by (simp add: alt_def)

lemma alt_second: "p r ts = (None, r1) \<Longrightarrow> alt p q r ts = q r1 ts"
  by (simp add: alt_def)

text \<open>A rule that never matches without taking a token.\<close>

definition consuming :: "rule \<Rightarrow> bool" where
  "consuming p \<longleftrightarrow> (\<forall>r ts ts' r'. p r ts = (Some ts', r') \<longrightarrow> length ts' < length ts)"

text \<open>The rounds of a repetition.\<close>

inductive rounds :: "rule \<Rightarrow> HttpRequest \<Rightarrow> token list \<Rightarrow> token list \<Rightarrow> HttpRequest \<Rightarrow> bool" for p where
  rounds_stop: "p r ts = (None, r') \<Longrightarrow> rounds p r ts ts r'"
| rounds_more: "p r ts = (Some ts1, r1) \<Longrightarrow> rounds p r1 ts1 rest r' \<Longrightarrow> rounds p r ts rest r'"

lemma many_rounds: "consuming p \<Longrightarrow> many p r ts = (Some rest, r') \<longleftrightarrow> rounds p r ts rest r'"
proof
  assume "consuming p" "many p r ts = (Some rest, r')"
  then show "rounds p r ts rest r'"
  proof (induction p r ts rule: many.induct)
    case (1 p r ts)
    show ?case
    proof (cases "p r ts")
      case (Pair out r1)
      show ?thesis
      proof (cases out)
        case None
        with Pair 1(3) have "rest = ts" "r' = r1" by (simp_all add: many.simps)
        with Pair None show ?thesis by (auto intro: rounds_stop)
      next
        case (Some ts1)
        with Pair 1(2) have less: "length ts1 < length ts" by (auto simp: consuming_def)
        with Pair Some 1(3) have "many p r1 ts1 = (Some rest, r')" by (subst (asm) many.simps) simp
        from 1(1) [OF Pair [symmetric] Some less 1(2) this] Pair Some show ?thesis by (auto intro: rounds_more)
      qed
    qed
  qed
next
  assume c: "consuming p" and "rounds p r ts rest r'"
  from this(2) show "many p r ts = (Some rest, r')"
  proof induction
    case (rounds_stop r ts r')
    then show ?case by (simp add: many.simps)
  next
    case (rounds_more r ts ts1 r1 rest r')
    with c have "length ts1 < length ts" by (auto simp: consuming_def)
    with rounds_more show ?case by (subst many.simps) simp
  qed
qed

lemma many_Some: "\<exists>rest r'. many p r ts = (Some rest, r')"
proof (induction p r ts rule: many.induct)
  case (1 p r ts)
  then show ?case by (subst many.simps) (auto split: prod.splits option.splits)
qed

lemma many_never_fails [simp]: "many p r ts \<noteq> (None, r')"
  using many_Some [of p r ts] by auto

abbreviation is_id :: "nat \<Rightarrow> token \<Rightarrow> bool" where
  "is_id i \<equiv> \<lambda>t. fst t = i"

lemma many_lit: "many (lit i skip) r ts = (Some (dropWhile (is_id i) ts), r)"
proof (induction ts)
  case (Cons t ts)
  obtain a b where t: "t = (a, b)" by (cases t)
  have "many (lit i skip) r (t # ts) =
      (if a = i then many (lit i skip) r ts else (Some (t # ts), r))"
    by (subst many.simps) (simp add: t)
  with Cons t show ?case by simp
qed (simp add: many.simps)

text \<open>A run of tokens of one number.\<close>

definition run :: "nat \<Rightarrow> token list \<Rightarrow> bool" where
  "run i ts \<longleftrightarrow> (\<forall>t \<in> set ts. fst t = i)"

definition starts_with :: "nat set \<Rightarrow> token list \<Rightarrow> bool" where
  "starts_with S ts \<longleftrightarrow> (\<exists>t rest. ts = t # rest \<and> fst t \<in> S)"

lemma starts_with_Cons [simp]: "starts_with S (t # ts) = (fst t \<in> S)"
  by (auto simp: starts_with_def)

lemma drop_run: "run i w \<Longrightarrow> starts_with S ts \<Longrightarrow> i \<notin> S \<Longrightarrow> dropWhile (is_id i) (w @ ts) = ts"
  by (induction w) (auto simp: run_def starts_with_def)

lemma starts_with_append: "run i w \<Longrightarrow> starts_with S ts \<Longrightarrow> starts_with (insert i S) (w @ ts)"
  by (cases w) (auto simp: run_def starts_with_def)

lemma dropWhile_run: "\<exists>w. run i w \<and> ts = w @ dropWhile (is_id i) ts"
  by (intro exI [of _ "takeWhile (is_id i) ts"]) (auto simp: run_def dest: set_takeWhileD)

section \<open>The language of requests\<close>

text \<open>
  What the rules say, read as a grammar of token sequences. The function is what the semantic
  actions do to the request on the way.
\<close>

type_synonym effect = "HttpRequest \<Rightarrow> HttpRequest"

definition method_table :: "(terminal \<times> Method) list" where
  "method_table = [(M_GET, GET), (M_OPTIONS, OPTIONS), (M_HEAD, HEAD), (M_POST, POST), (M_PUT, PUT),
     (M_DELETE, DELETE), (M_TRACE, TRACE), (M_CONNECT, CONNECT)]"

inductive method_token :: "token_ids \<Rightarrow> token \<Rightarrow> effect \<Rightarrow> bool" for ids where
  method_known: "(k, m) \<in> set method_table \<Longrightarrow> method_token ids (id_of ids k, t) (set_method m t)"
| method_other: "method_token ids (id_of ids M_ANY, t) (\<lambda>r. r)"

inductive version_token :: "token_ids \<Rightarrow> token \<Rightarrow> effect \<Rightarrow> bool" for ids where
  version_10: "version_token ids (id_of ids HTTP_V10, t) (set_version HTTP_1_0 t)"
| version_11: "version_token ids (id_of ids HTTP_V11, t) (set_version HTTP_1_1 t)"

inductive coding_token :: "token_ids \<Rightarrow> token \<Rightarrow> effect \<Rightarrow> bool" for ids where
  coding_gzip: "coding_token ids (id_of ids AE_GZIP, t) (set_gzip t)"
| coding_deflate: "coding_token ids (id_of ids AE_DEFLATE, t) (set_deflate t)"
| coding_other: "coding_token ids (id_of ids AE_OTHER, t) (\<lambda>r. r)"

inductive accept_items :: "token_ids \<Rightarrow> token list \<Rightarrow> effect \<Rightarrow> bool" for ids where
  items_nil: "accept_items ids [] (\<lambda>r. r)"
| items_cons: "\<lbrakk> run 32 w; coding_token ids t a; run (id_of ids AE_QVALUE) qs; run 44 cs; accept_items ids is f \<rbrakk>
    \<Longrightarrow> accept_items ids (w @ t # qs @ cs @ is) (\<lambda>r. f (a r))"

inductive any_items :: "token_ids \<Rightarrow> token list \<Rightarrow> bool" for ids where
  any_nil: "any_items ids []"
| any_cons: "run 32 w \<Longrightarrow> any_items ids is \<Longrightarrow> any_items ids (w @ (TOK_STRING ids, v) # is)"

inductive header :: "token_ids \<Rightarrow> token list \<Rightarrow> effect \<Rightarrow> bool" for ids where
  header_host: "run 32 w \<Longrightarrow> run 32 w' \<Longrightarrow> header ids
      ((id_of ids H_HOST, t) # (58, c) # w @ (TOK_STRING ids, v) # w' @ [(TOK_CRLF ids, e)]) (set_host v)"
| header_dnt_on: "run 32 w \<Longrightarrow> run 32 w' \<Longrightarrow> header ids
      ((id_of ids H_DNT, t) # w @ (id_of ids DNT_ON, v) # w' @ [(TOK_CRLF ids, e)]) (set_dnt v)"
| header_dnt_off: "run 32 w \<Longrightarrow> run 32 w' \<Longrightarrow> header ids
      ((id_of ids H_DNT, t) # w @ (id_of ids DNT_OFF, v) # w' @ [(TOK_CRLF ids, e)]) (\<lambda>r. r)"
| header_accept: "accept_items ids is f \<Longrightarrow> run 32 w \<Longrightarrow> header ids
      ((id_of ids H_ACCEPT_ENCODING, t) # is @ w @ [(TOK_CRLF ids, e)]) f"
| header_any: "any_items ids is \<Longrightarrow> is \<noteq> [] \<Longrightarrow> run 32 w \<Longrightarrow> header ids
      ((id_of ids H_ANY, t) # (58, c) # is @ w @ [(TOK_CRLF ids, e)]) (\<lambda>r. r)"

inductive headers :: "token_ids \<Rightarrow> token list \<Rightarrow> effect \<Rightarrow> bool" for ids where
  headers_nil: "headers ids [] (\<lambda>r. r)"
| headers_cons: "header ids h f \<Longrightarrow> headers ids hs g \<Longrightarrow> headers ids (h @ hs) (\<lambda>r. g (f r))"

inductive request_tokens :: "token_ids \<Rightarrow> token list \<Rightarrow> effect \<Rightarrow> bool" for ids where
  request: "\<lbrakk> method_token ids m f; version_token ids v g; headers ids hs h \<rbrakk> \<Longrightarrow> request_tokens ids
      (m # (32, s) # (id_of ids URI, u) # (32, s') # v # (TOK_CRLF ids, e) # hs @ [(TOK_CRLF ids, e')])
      (\<lambda>r. h (g (set_uri u (f r))))"

text \<open>
  What the rules need of the numbers. The least number the lexer gives and the fixed numbers
  may make the end of a line the same as version 1.0, and a header's value the same as version 1.1.
\<close>

definition ids_ok :: "token_ids \<Rightarrow> bool" where
  "ids_ok ids \<longleftrightarrow>
     (\<forall>t u. id_of ids t = id_of ids u \<longrightarrow> t = u \<or> {t, u} = {HTTP_V11, HV_STR}) \<and>
     (\<forall>t. id_of ids t = TOK_CRLF ids \<longrightarrow> t = HTTP_V10) \<and>
     (\<forall>t. id_of ids t \<notin> {32, 44, 58}) \<and> TOK_CRLF ids \<notin> {32, 44, 58}"

lemma ids_apart:
  assumes "ids_ok ids"
  shows "t \<noteq> u \<Longrightarrow> t \<noteq> HTTP_V11 \<Longrightarrow> t \<noteq> HV_STR \<Longrightarrow> id_of ids t \<noteq> id_of ids u"
    and "t \<noteq> u \<Longrightarrow> u \<noteq> HTTP_V11 \<Longrightarrow> u \<noteq> HV_STR \<Longrightarrow> id_of ids t \<noteq> id_of ids u"
    and "t \<noteq> HTTP_V10 \<Longrightarrow> id_of ids t \<noteq> TOK_CRLF ids"
    and "t \<noteq> HTTP_V10 \<Longrightarrow> TOK_CRLF ids \<noteq> id_of ids t"
    and "id_of ids t \<noteq> 32" and "id_of ids t \<noteq> 44" and "id_of ids t \<noteq> 58"
    and "TOK_CRLF ids \<noteq> 32" and "TOK_CRLF ids \<noteq> 44" and "TOK_CRLF ids \<noteq> 58"
  using assms unfolding ids_ok_def by (blast | metis | simp)+

lemma id_of_string [simp]: "id_of ids HV_STR = TOK_STRING ids"
  by (simp add: id_of_def)

lemma string_apart:
  assumes "ids_ok ids"
  shows "TOK_STRING ids \<noteq> 32" "TOK_STRING ids \<noteq> TOK_CRLF ids"
  using ids_apart(5) [OF assms, of HV_STR] by (simp_all add: TOK_STRING_def)

lemma hv_crlf_hit:
  assumes "ids_ok ids" "run 32 w"
  shows "hv_crlf ids r (w @ (TOK_CRLF ids, e) # rest) = (Some rest, r)"
  using drop_run [OF assms(2), of "{TOK_CRLF ids}"] ids_apart(8) [OF assms(1)]
  by (simp add: hv_crlf_def sequ_def ws_def many_lit crlf_rule_def)

lemma hv_crlf_Some:
  assumes "hv_crlf ids r ts = (Some rest, r')"
  obtains w e where "run 32 w" "ts = w @ (TOK_CRLF ids, e) # rest" "r' = r"
proof -
  from assms obtain e where "dropWhile (is_id 32) ts = (TOK_CRLF ids, e) # rest" "r' = r"
    by (auto simp: hv_crlf_def sequ_Some ws_def many_lit crlf_rule_def)
  with dropWhile_run [of 32 ts] that show thesis by metis
qed

section \<open>Values of the header for accepted encodings\<close>

lemma value_Some:
  "accept_encoding_value ids r ts = (Some rest, r') \<Longrightarrow> \<exists>t a. ts = t # rest \<and> coding_token ids t a \<and> r' = a r"
  by (fastforce simp: accept_encoding_value_def alt_Some intro: coding_token.intros)

lemma value_hit: "ids_ok ids \<Longrightarrow> coding_token ids t a \<Longrightarrow> accept_encoding_value ids r (t # ts) = (Some ts, a r)"
  by (auto elim!: coding_token.cases simp: accept_encoding_value_def alt_def ids_apart(1))

lemma coding_id: "coding_token ids t a \<Longrightarrow> fst t \<in> id_of ids ` {AE_GZIP, AE_DEFLATE, AE_OTHER}"
  by (auto elim: coding_token.cases)

lemma value_miss: "ts = [] \<or> fst (hd ts) \<notin> id_of ids ` {AE_GZIP, AE_DEFLATE, AE_OTHER} \<Longrightarrow>
    accept_encoding_value ids r ts = (None, r)"
  by (cases ts) (auto simp: accept_encoding_value_def alt_def lit_def)

text \<open>The first tokens of the list of codings and the end of its header.\<close>

abbreviation item_ids :: "token_ids \<Rightarrow> nat set" where
  "item_ids ids \<equiv> insert 32 (insert (TOK_CRLF ids) (id_of ids ` {AE_GZIP, AE_DEFLATE, AE_OTHER}))"

lemma item_ids_apart: "ids_ok ids \<Longrightarrow> id_of ids AE_QVALUE \<notin> item_ids ids" "ids_ok ids \<Longrightarrow> 44 \<notin> item_ids ids"
  using ids_apart [of ids] by auto

lemma starts_mono: "starts_with S ts \<Longrightarrow> S \<subseteq> T \<Longrightarrow> starts_with T ts"
  by (auto simp: starts_with_def)

lemma accept_item_hit:
  assumes ok: "ids_ok ids" and w: "run 32 w" and t: "coding_token ids t a"
    and q: "run (id_of ids AE_QVALUE) qs" and c: "run 44 cs" and tail: "starts_with (item_ids ids) ts"
  shows "accept_item ids r (w @ t # qs @ cs @ ts) = (Some ts, a r)"
proof -
  have "starts_with (insert 44 (item_ids ids)) (cs @ ts)" by (rule starts_with_append [OF c tail])
  with item_ids_apart(1) [OF ok] ids_apart(6) [OF ok, of AE_QVALUE] drop_run [OF q]
  have "dropWhile (is_id (id_of ids AE_QVALUE)) (qs @ cs @ ts) = cs @ ts" by simp
  moreover have "dropWhile (is_id 44) (cs @ ts) = ts" using drop_run [OF c tail item_ids_apart(2) [OF ok]] .
  moreover have "dropWhile (is_id 32) (w @ t # qs @ cs @ ts) = t # qs @ cs @ ts"
    using drop_run [OF w, of "{fst t}"] coding_id [OF t] ids_apart(5) [OF ok] by fastforce
  ultimately show ?thesis
    by (simp add: accept_item_def sequ_def ws_def many_lit value_hit [OF ok t])
qed

lemma accept_item_stop:
  assumes "ids_ok ids" "run 32 w"
  shows "accept_item ids r (w @ (TOK_CRLF ids, e) # ts) = (None, r)"
proof -
  have "dropWhile (is_id 32) (w @ (TOK_CRLF ids, e) # ts) = (TOK_CRLF ids, e) # ts"
    using drop_run [OF assms(2), of "{TOK_CRLF ids}"] ids_apart(8) [OF assms(1)] by simp
  moreover have "accept_encoding_value ids r ((TOK_CRLF ids, e) # ts) = (None, r)"
    using ids_apart(4) [OF assms(1)] by (intro value_miss) auto
  ultimately show ?thesis by (simp add: accept_item_def sequ_def ws_def many_lit)
qed

lemma accept_item_Some:
  assumes "accept_item ids r ts = (Some rest, r')"
  obtains w t a qs cs where "run 32 w" "coding_token ids t a" "run (id_of ids AE_QVALUE) qs" "run 44 cs"
    "ts = w @ t # qs @ cs @ rest" "r' = a r"
proof -
  let ?q = "id_of ids AE_QVALUE"
  from assms obtain t a us where u: "dropWhile (is_id 32) ts = t # us" "coding_token ids t a" "r' = a r"
      "rest = dropWhile (is_id 44) (dropWhile (is_id ?q) us)"
    by (auto simp: accept_item_def sequ_Some ws_def many_lit dest!: value_Some)
  obtain w where "run 32 w" "ts = w @ t # us" using dropWhile_run [of 32 ts] u(1) by metis
  moreover obtain qs where "run ?q qs" "us = qs @ dropWhile (is_id ?q) us" using dropWhile_run by metis
  moreover obtain cs where "run 44 cs" "dropWhile (is_id ?q) us = cs @ rest" using dropWhile_run u(4) by metis
  ultimately show thesis using that [of w t a qs cs] u by metis
qed

lemma accept_item_consuming: "consuming (accept_item ids)"
  by (auto simp: consuming_def elim!: accept_item_Some)

lemma accept_items_start:
  "accept_items ids is f \<Longrightarrow> run 32 w \<Longrightarrow> starts_with (item_ids ids) (is @ w @ (TOK_CRLF ids, e) # rest)"
proof (induction rule: accept_items.induct)
  case items_nil
  then show ?case using starts_with_append [of 32 w "item_ids ids" "(TOK_CRLF ids, e) # rest"] by simp
next
  case (items_cons v t a qs cs "is" f)
  then show ?case
    using starts_with_append [of 32 v "item_ids ids" "t # qs @ cs @ is @ w @ (TOK_CRLF ids, e) # rest"] coding_id
    by fastforce
qed

lemma accept_items_hit:
  "accept_items ids is f \<Longrightarrow> ids_ok ids \<Longrightarrow> run 32 w \<Longrightarrow>
    rounds (accept_item ids) r (is @ w @ (TOK_CRLF ids, e) # rest) (w @ (TOK_CRLF ids, e) # rest) (f r)"
proof (induction arbitrary: r rule: accept_items.induct)
  case items_nil
  then show ?case by (simp add: rounds_stop accept_item_stop)
next
  case (items_cons v t a qs cs "is" f)
  have "accept_item ids r ((v @ t # qs @ cs @ is) @ w @ (TOK_CRLF ids, e) # rest) =
      (Some (is @ w @ (TOK_CRLF ids, e) # rest), a r)"
    using accept_item_hit [OF items_cons.prems(1) items_cons.hyps(1-4) accept_items_start [OF items_cons.hyps(5) items_cons.prems(2)]]
    by simp
  then show ?case by (rule rounds_more) (simp add: items_cons)
qed

lemma accept_items_Some:
  "rounds (accept_item ids) r ts (w @ (TOK_CRLF ids, e) # rest) r' \<Longrightarrow> ids_ok ids \<Longrightarrow> run 32 w \<Longrightarrow>
    \<exists>is f. accept_items ids is f \<and> ts = is @ w @ (TOK_CRLF ids, e) # rest \<and> r' = f r"
proof (induction r ts "w @ (TOK_CRLF ids, e) # rest" r' rule: rounds.induct)
  case (rounds_stop r r')
  then show ?case using items_nil accept_item_stop [of ids w r e rest] by fastforce
next
  case (rounds_more r ts ts1 r1 r')
  from rounds_more(3) [OF rounds_more.prems] obtain "is" f
    where i: "accept_items ids is f" "ts1 = is @ w @ (TOK_CRLF ids, e) # rest" "r' = f r1" by auto
  from rounds_more(1) obtain v t a qs cs where "run 32 v" "coding_token ids t a" "run (id_of ids AE_QVALUE) qs"
    "run 44 cs" "ts = v @ t # qs @ cs @ ts1" "r1 = a r" by (rule accept_item_Some)
  with i items_cons [of v ids t a qs cs "is" f] show ?case by fastforce
qed

section \<open>Other headers\<close>

lemma any_item_hit:
  assumes "ids_ok ids" "run 32 w"
  shows "any_item ids r (w @ (TOK_STRING ids, v) # ts) = (Some ts, r)"
  using drop_run [OF assms(2), of "{TOK_STRING ids}"] string_apart(1) [OF assms(1)]
  by (simp add: any_item_def sequ_def ws_def many_lit str_rule_def)

lemma any_item_stop:
  assumes "ids_ok ids" "run 32 w"
  shows "any_item ids r (w @ (TOK_CRLF ids, e) # ts) = (None, r)"
  using drop_run [OF assms(2), of "{TOK_CRLF ids}"] ids_apart(8) [OF assms(1)] string_apart(2) [OF assms(1)]
  by (simp add: any_item_def sequ_def ws_def many_lit str_rule_def)

lemma any_item_Some:
  assumes "any_item ids r ts = (Some rest, r')"
  obtains w v where "run 32 w" "ts = w @ (TOK_STRING ids, v) # rest" "r' = r"
proof -
  from assms obtain v where "dropWhile (is_id 32) ts = (TOK_STRING ids, v) # rest" "r' = r"
    by (auto simp: any_item_def sequ_Some ws_def many_lit str_rule_def)
  with dropWhile_run [of 32 ts] that show thesis by metis
qed

lemma any_item_consuming: "consuming (any_item ids)"
  by (auto simp: consuming_def elim!: any_item_Some)

lemma any_items_hit:
  "any_items ids is \<Longrightarrow> ids_ok ids \<Longrightarrow> run 32 w \<Longrightarrow>
    rounds (any_item ids) r (is @ w @ (TOK_CRLF ids, e) # rest) (w @ (TOK_CRLF ids, e) # rest) r"
proof (induction rule: any_items.induct)
  case any_nil
  then show ?case by (simp add: rounds_stop any_item_stop)
next
  case (any_cons v "is" x)
  have "any_item ids r ((v @ (TOK_STRING ids, x) # is) @ w @ (TOK_CRLF ids, e) # rest) =
      (Some (is @ w @ (TOK_CRLF ids, e) # rest), r)"
    using any_item_hit [OF any_cons.prems(1) any_cons.hyps(1)] by simp
  then show ?case by (rule rounds_more) (simp add: any_cons)
qed

lemma any_items_Some:
  "rounds (any_item ids) r ts rest r' \<Longrightarrow> any_item ids r' rest = (None, r') \<Longrightarrow>
    \<exists>is. any_items ids is \<and> ts = is @ rest \<and> r' = r"
proof (induction rule: rounds.induct)
  case (rounds_stop r ts r')
  then have "r' = r"
    by (auto simp: any_item_def sequ_None ws_def many_lit str_rule_def)
  with any_nil show ?case by fastforce
next
  case (rounds_more r ts ts1 r1 rest r')
  from rounds_more(1) obtain w v where "run 32 w" "ts = w @ (TOK_STRING ids, v) # ts1" "r1 = r"
    by (rule any_item_Some)
  with rounds_more any_cons [of w ids _ v] show ?case by fastforce
qed

section \<open>Headers\<close>

text \<open>The kind of a header is settled by its first token.\<close>

lemma header_rule_by_head:
  assumes "ids_ok ids"
  shows "header_rule ids r ts =
    (case ts of [] \<Rightarrow> (None, r)
     | (j, x) # _ \<Rightarrow> if j = id_of ids H_HOST then host_hdr ids r ts else if j = id_of ids H_DNT then dnt_hdr ids r ts
         else if j = id_of ids H_ACCEPT_ENCODING then accept_encoding_hdr ids r ts
         else if j = id_of ids H_ANY then any_hdr ids r ts else (None, r))"
proof -
  have other: "ts = [] \<or> fst (hd ts) \<noteq> id_of ids H_HOST \<Longrightarrow> host_hdr ids q ts = (None, q)"
    "ts = [] \<or> fst (hd ts) \<noteq> id_of ids H_DNT \<Longrightarrow> dnt_hdr ids q ts = (None, q)"
    "ts = [] \<or> fst (hd ts) \<noteq> id_of ids H_ACCEPT_ENCODING \<Longrightarrow> accept_encoding_hdr ids q ts = (None, q)"
    "ts = [] \<or> fst (hd ts) \<noteq> id_of ids H_ANY \<Longrightarrow> any_hdr ids q ts = (None, q)" for q
    by (cases ts; auto simp: host_hdr_def dnt_hdr_def accept_encoding_hdr_def any_hdr_def sequ_def lit_def)+
  show ?thesis
    using ids_apart(1) [OF assms] other
    by (cases ts) (auto simp: header_rule_def alt_def split: option.split prod.split)
qed

lemma header_rule_end: "ids_ok ids \<Longrightarrow> header_rule ids r ((TOK_CRLF ids, e) # ts) = (None, r)"
  by (simp add: header_rule_by_head ids_apart(4))

lemma host_hit:
  assumes "ids_ok ids" "run 32 w" "run 32 w'"
  shows "host_hdr ids r ((id_of ids H_HOST, t) # (58, c) # w @ (TOK_STRING ids, v) # w' @ (TOK_CRLF ids, e) # rest) =
    (Some rest, r\<lparr>host := v\<rparr>)"
  using drop_run [OF assms(2), of "{TOK_STRING ids}"] string_apart(1) [OF assms(1)]
  by (simp add: host_hdr_def sequ_def ws_def many_lit hv_crlf_hit [OF assms(1,3)] set_host_def)

lemma dnt_hit:
  assumes "ids_ok ids" "run 32 w" "run 32 w'" and k: "k \<in> {DNT_ON, DNT_OFF}"
  shows "dnt_hdr ids r ((id_of ids H_DNT, t) # w @ (id_of ids k, v) # w' @ (TOK_CRLF ids, e) # rest) =
    (Some rest, if k = DNT_ON then set_dnt v r else r)"
  using drop_run [OF assms(2), of "{id_of ids k}"] ids_apart(5) [OF assms(1), of k]
    ids_apart(1) [OF assms(1), of DNT_OFF DNT_ON] k
  by (auto simp: dnt_hdr_def sequ_def ws_def many_lit dnt_value_def alt_def hv_crlf_hit [OF assms(1,3)])

lemma many_hit: "consuming p \<Longrightarrow> rounds p r ts rest r' \<Longrightarrow> many p r ts = (Some rest, r')"
  by (simp add: many_rounds)

lemma accept_hit:
  assumes "ids_ok ids" "accept_items ids is f" "run 32 w"
  shows "accept_encoding_hdr ids r ((id_of ids H_ACCEPT_ENCODING, t) # is @ w @ (TOK_CRLF ids, e) # rest) =
    (Some rest, f r)"
  using many_hit [OF accept_item_consuming accept_items_hit [OF assms(2,1,3)]]
  by (simp add: accept_encoding_hdr_def sequ_def hv_crlf_hit [OF assms(1,3)])

lemma any_hit:
  assumes ok: "ids_ok ids" and i: "any_items ids is" "is \<noteq> []" and w: "run 32 w"
  shows "any_hdr ids r ((id_of ids H_ANY, t) # (58, c) # is @ w @ (TOK_CRLF ids, e) # rest) = (Some rest, r)"
  using i(1)
proof (cases rule: any_items.cases)
  case any_nil
  with i(2) show ?thesis by simp
next
  case (any_cons v js x)
  have "many (any_item ids) r (js @ w @ (TOK_CRLF ids, e) # rest) = (Some (w @ (TOK_CRLF ids, e) # rest), r)"
    using many_hit [OF any_item_consuming any_items_hit [OF any_cons(3) ok w]] .
  with any_cons show ?thesis
    by (simp add: any_hdr_def sequ_def any_item_hit [OF ok] hv_crlf_hit [OF ok w])
qed

lemma header_hit: "ids_ok ids \<Longrightarrow> header ids h f \<Longrightarrow> header_rule ids r (h @ rest) = (Some rest, f r)"
  by (auto elim!: header.cases simp: header_rule_by_head ids_apart(1) host_hit dnt_hit accept_hit any_hit set_host_def
      dnt_hit [of _ _ _ DNT_ON] dnt_hit [of _ _ _ DNT_OFF])

lemma host_Some:
  assumes "host_hdr ids r ts = (Some rest, r')"
  shows "\<exists>h f. header ids h f \<and> ts = h @ rest \<and> r' = f r"
proof -
  from assms obtain t c v us vs where ts: "ts = (id_of ids H_HOST, t) # (58, c) # us"
      "dropWhile (is_id 32) us = (TOK_STRING ids, v) # vs" "hv_crlf ids (set_host v r) vs = (Some rest, r')"
    by (auto simp: host_hdr_def sequ_Some ws_def many_lit)
  from ts(3) obtain w' e where "run 32 w'" "vs = w' @ (TOK_CRLF ids, e) # rest" "r' = set_host v r"
    by (rule hv_crlf_Some)
  moreover from dropWhile_run [of 32 us] ts(2) obtain w where "run 32 w" "us = w @ (TOK_STRING ids, v) # vs" by metis
  ultimately show ?thesis using ts(1) header_host [of w w' ids t c v e] by fastforce
qed

lemma dnt_Some:
  assumes "dnt_hdr ids r ts = (Some rest, r')"
  shows "\<exists>h f. header ids h f \<and> ts = h @ rest \<and> r' = f r"
proof -
  from assms obtain t k v us vs r1 where ts: "ts = (id_of ids H_DNT, t) # us"
      "dropWhile (is_id 32) us = (id_of ids k, v) # vs" "k = DNT_ON \<and> r1 = set_dnt v r \<or> k = DNT_OFF \<and> r1 = r"
      "hv_crlf ids r1 vs = (Some rest, r')"
    by (auto simp: dnt_hdr_def sequ_Some ws_def many_lit dnt_value_def alt_Some)
  from ts(4) obtain w' e where "run 32 w'" "vs = w' @ (TOK_CRLF ids, e) # rest" "r' = r1" by (rule hv_crlf_Some)
  moreover from dropWhile_run [of 32 us] ts(2) obtain w where "run 32 w" "us = w @ (id_of ids k, v) # vs" by metis
  ultimately show ?thesis
    using ts(1,3) header_dnt_on [of w w' ids t v e] header_dnt_off [of w w' ids t v e] by fastforce
qed

lemma accept_Some:
  assumes "accept_encoding_hdr ids r ts = (Some rest, r')" "ids_ok ids"
  shows "\<exists>h f. header ids h f \<and> ts = h @ rest \<and> r' = f r"
proof -
  from assms obtain t us vs r1 where ts: "ts = (id_of ids H_ACCEPT_ENCODING, t) # us"
      "rounds (accept_item ids) r us vs r1" "hv_crlf ids r1 vs = (Some rest, r')"
    by (auto simp: accept_encoding_hdr_def sequ_Some many_rounds [OF accept_item_consuming])
  from ts(3) obtain w e where w: "run 32 w" "vs = w @ (TOK_CRLF ids, e) # rest" "r' = r1" by (rule hv_crlf_Some)
  with ts(2) accept_items_Some [of ids r us w e rest r1] assms(2) obtain "is" f
    where "accept_items ids is f" "us = is @ vs" "r1 = f r" by auto
  with ts(1) w header_accept [of ids "is" f w t e] show ?thesis by fastforce
qed

lemma any_Some:
  assumes "any_hdr ids r ts = (Some rest, r')" "ids_ok ids"
  shows "\<exists>h f. header ids h f \<and> ts = h @ rest \<and> r' = f r"
proof -
  from assms obtain t c us vs xs r1 r2 where ts: "ts = (id_of ids H_ANY, t) # (58, c) # us"
      "any_item ids r us = (Some xs, r2)" "rounds (any_item ids) r2 xs vs r1" "hv_crlf ids r1 vs = (Some rest, r')"
    by (auto simp: any_hdr_def sequ_Some many_rounds [OF any_item_consuming])
  from ts(4) obtain w e where w: "run 32 w" "vs = w @ (TOK_CRLF ids, e) # rest" "r' = r1" by (rule hv_crlf_Some)
  from ts(2) obtain u v where u: "run 32 u" "us = u @ (TOK_STRING ids, v) # xs" "r2 = r" by (rule any_item_Some)
  from any_items_Some [OF ts(3)] any_item_stop [OF assms(2) w(1)] w(2) obtain "is"
    where i: "any_items ids is" "xs = is @ vs" "r1 = r2" by auto
  from any_cons [OF u(1) i(1), of v] have "any_items ids (u @ (TOK_STRING ids, v) # is)" .
  from header_any [OF this _ w(1), of t c e] ts(1) u i w show ?thesis by fastforce
qed

lemma header_Some:
  assumes "ids_ok ids" "header_rule ids r ts = (Some rest, r')"
  shows "\<exists>h f. header ids h f \<and> ts = h @ rest \<and> r' = f r"
  using assms host_Some [of ids r ts rest r'] dnt_Some [of ids r ts rest r'] accept_Some [of ids r ts rest r']
    any_Some [of ids r ts rest r']
  by (auto simp: header_rule_by_head split: list.splits if_splits)

section \<open>Requests\<close>

lemma method_hit: "ids_ok ids \<Longrightarrow> method_token ids m f \<Longrightarrow> method_rule ids r (m # ts) = (Some ts, f r)"
  by (auto elim!: method_token.cases simp: method_table_def method_rule_def alt_def ids_apart(1) ids_apart(2))

lemma method_Some:
  "method_rule ids r ts = (Some rest, r') \<Longrightarrow> \<exists>m f. method_token ids m f \<and> ts = m # rest \<and> r' = f r"
  by (fastforce simp: method_rule_def alt_Some method_table_def intro: method_token.intros)

lemma version_hit: "ids_ok ids \<Longrightarrow> version_token ids v g \<Longrightarrow> http_version ids r (v # ts) = (Some ts, g r)"
  by (auto elim!: version_token.cases simp: http_version_def alt_def ids_apart(2))

lemma version_Some:
  "http_version ids r ts = (Some rest, r') \<Longrightarrow> \<exists>v g. version_token ids v g \<and> ts = v # rest \<and> r' = g r"
  by (fastforce simp: http_version_def alt_Some intro: version_token.intros)

lemma headers_hit:
  "headers ids hs f \<Longrightarrow> ids_ok ids \<Longrightarrow>
    rounds (header_rule ids) r (hs @ (TOK_CRLF ids, e) # rest) ((TOK_CRLF ids, e) # rest) (f r)"
proof (induction arbitrary: r rule: headers.induct)
  case headers_nil
  then show ?case by (simp add: rounds_stop header_rule_end)
next
  case (headers_cons h f hs g)
  have "header_rule ids r ((h @ hs) @ (TOK_CRLF ids, e) # rest) = (Some (hs @ (TOK_CRLF ids, e) # rest), f r)"
    using header_hit [OF headers_cons.prems headers_cons.hyps(1)] by simp
  then show ?case by (rule rounds_more) (simp add: headers_cons)
qed

lemma headers_Some:
  "rounds (header_rule ids) r ts ((TOK_CRLF ids, e) # rest) r' \<Longrightarrow> ids_ok ids \<Longrightarrow>
    \<exists>hs f. headers ids hs f \<and> ts = hs @ (TOK_CRLF ids, e) # rest \<and> r' = f r"
proof (induction r ts "(TOK_CRLF ids, e) # rest" r' rule: rounds.induct)
  case (rounds_stop r r')
  then show ?case using headers_nil by (fastforce simp: header_rule_end)
next
  case (rounds_more r ts ts1 r1 r')
  from rounds_more(3) [OF rounds_more.prems] obtain hs g
    where i: "headers ids hs g" "ts1 = hs @ (TOK_CRLF ids, e) # rest" "r' = g r1" by auto
  from header_Some [OF rounds_more.prems rounds_more(1)] obtain h f
    where "header ids h f" "ts = h @ ts1" "r1 = f r" by auto
  with i headers_cons [of ids h f hs g] show ?case by fastforce
qed

lemma header_consuming: "ids_ok ids \<Longrightarrow> consuming (header_rule ids)"
  by (auto simp: consuming_def dest!: header_Some elim!: header.cases)

lemma start_hit:
  assumes ok: "ids_ok ids" and t: "request_tokens ids pre f"
  shows "start ids r (pre @ rest) = (Some rest, f r)"
  using t
proof (cases rule: request_tokens.cases)
  case (request m f v g hs h s u s' e e')
  have "many (header_rule ids) q (hs @ (TOK_CRLF ids, e') # rest) = (Some ((TOK_CRLF ids, e') # rest), h q)" for q
    using many_hit [OF header_consuming [OF ok] headers_hit [OF request(5) ok]] .
  with request show ?thesis
    by (simp add: start_def request_rule_def sequ_def method_hit [OF ok] version_hit [OF ok] ws_def crlf_rule_def)
qed

lemma start_Some:
  assumes ok: "ids_ok ids" and s: "start ids r ts = (Some rest, r')"
  shows "\<exists>pre f. request_tokens ids pre f \<and> ts = pre @ rest \<and> r' = f r"
proof -
  from s obtain us r1 vs r2 e' where parts: "request_rule ids r ts = (Some us, r1)"
      "many (header_rule ids) r1 us = (Some vs, r2)" "vs = (TOK_CRLF ids, e') # rest" "r' = r2"
    by (auto simp: start_def sequ_Some crlf_rule_def)
  then have "rounds (header_rule ids) r1 us ((TOK_CRLF ids, e') # rest) r2"
    by (simp add: many_rounds header_consuming [OF ok])
  from headers_Some [OF this ok] obtain hs h
    where h: "headers ids hs h" "us = hs @ (TOK_CRLF ids, e') # rest" "r2 = h r1" by auto
  from parts(1) obtain xs s u s' ys q1 q2 e where q: "method_rule ids r ts = (Some xs, q1)"
      "xs = (32, s) # (id_of ids URI, u) # (32, s') # ys"
      "http_version ids (set_uri u q1) ys = (Some ((TOK_CRLF ids, e) # us), q2)" "r1 = q2"
    by (auto simp: request_rule_def sequ_Some ws_def crlf_rule_def)
  from method_Some [OF q(1)] obtain m f where m: "method_token ids m f" "ts = m # xs" "q1 = f r" by auto
  from version_Some [OF q(3)] obtain v g
    where v: "version_token ids v g" "ys = v # (TOK_CRLF ids, e) # us" "q2 = g (set_uri u q1)" by auto
  from request [OF m(1) v(1) h(1), of s u s' e e'] show ?thesis
    by (intro exI conjI) (assumption, use q m v h parts in simp_all)
qed

text \<open>
  C15: the rules accept exactly the requests of the grammar: they match a prefix of the tokens
  if, and only if, it is derived by it, and then the request is changed as the derivation says,
  whatever the alternatives that failed on the way have done to it.
\<close>

theorem grammar_accepts:
  assumes "ids_ok ids"
  shows "start ids r ts = (Some rest, r') \<longleftrightarrow> (\<exists>pre f. request_tokens ids pre f \<and> ts = pre @ rest \<and> r' = f r)"
  using start_Some [OF assms] start_hit [OF assms] by blast

text \<open>The numbers the lexer gives by itself go up from the least one, in the order of use.\<close>

fun spirit_auto :: "terminal \<Rightarrow> nat" where
  "spirit_auto M_GET = 65536"
  | "spirit_auto M_OPTIONS = 65537"
  | "spirit_auto M_HEAD = 65538"
  | "spirit_auto M_POST = 65539"
  | "spirit_auto M_PUT = 65540"
  | "spirit_auto M_DELETE = 65541"
  | "spirit_auto M_TRACE = 65542"
  | "spirit_auto M_CONNECT = 65543"
  | "spirit_auto M_ANY = 65544"
  | "spirit_auto URI = 65545"
  | "spirit_auto HTTP_V10 = 65546"
  | "spirit_auto HTTP_V11 = 65547"
  | "spirit_auto H_HOST = 65548"
  | "spirit_auto H_DNT = 65549"
  | "spirit_auto H_ACCEPT_ENCODING = 65550"
  | "spirit_auto H_ANY = 65551"
  | "spirit_auto DNT_ON = 65552"
  | "spirit_auto DNT_OFF = 65553"
  | "spirit_auto AE_GZIP = 65554"
  | "spirit_auto AE_DEFLATE = 65555"
  | "spirit_auto AE_QVALUE = 65556"
  | "spirit_auto AE_OTHER = 65557"
  | "spirit_auto HV_STR = 65558"

definition spirit_ids :: token_ids where
  "spirit_ids = \<lparr>min_token_id = 65536, auto_id = spirit_auto\<rparr>"

lemma spirit_id [simp]: "id_of spirit_ids t = (if t = HV_STR then 65547 else spirit_auto t)"
  by (simp add: id_of_def TOK_STRING_def TOK_CRLF_def spirit_ids_def)

lemma spirit_CRLF [simp]: "TOK_CRLF spirit_ids = 65546"
  by (simp add: TOK_CRLF_def spirit_ids_def)

lemma spirit_STRING [simp]: "TOK_STRING spirit_ids = 65547"
  by (simp add: TOK_STRING_def)

lemma spirit_ids_ok: "ids_ok spirit_ids"
proof -
  have "id_of spirit_ids t = id_of spirit_ids u \<longrightarrow> t = u \<or> {t, u} = {HTTP_V11, HV_STR}" for t u
    by (cases t; cases u) (simp_all add: insert_commute)
  moreover have "id_of spirit_ids t = 65546 \<longrightarrow> t = HTTP_V10" "id_of spirit_ids t \<notin> {32, 44, 58}" for t
    by (cases t; simp)+
  ultimately show ?thesis by (simp add: ids_ok_def del: spirit_id)
qed

definition sample_tokens :: "token list" where
  "sample_tokens = [(65536, bytes_of ''GET''), (32, bytes_of '' ''), (65545, bytes_of ''/''), (32, bytes_of '' ''),
     (65547, bytes_of ''HTTP/1.1''), (65546, [13, 10]),
     (65548, bytes_of ''Host''), (58, bytes_of '':''), (32, bytes_of '' ''), (65547, bytes_of ''2.example.com''), (65546, [13, 10]),
     (65550, bytes_of ''Accept-Encoding:''), (65554, bytes_of ''gzip''), (44, bytes_of '',''), (32, bytes_of '' ''),
     (65555, bytes_of ''deflate''), (65546, [13, 10]), (65546, [13, 10])]"

definition sample_parsed :: HttpRequest where
  "sample_parsed = new_HttpRequest\<lparr>version := HTTP_1_1, meth := GET, uri := bytes_of ''/'',
     host := bytes_of ''2.example.com'', accept_encoding_gzip := True, accept_encoding_deflate := True\<rparr>"

lemmas rule_defs = start_def request_rule_def method_rule_def http_version_def header_rule_def host_hdr_def dnt_hdr_def
  dnt_value_def accept_encoding_hdr_def accept_encoding_value_def accept_item_def any_hdr_def any_item_def
  hv_crlf_def ws_def crlf_rule_def str_rule_def sequ_def alt_def set_method_def set_uri_def set_version_def
  set_host_def set_dnt_def set_gzip_def set_deflate_def

lemma sample_tokens_start: "start spirit_ids new_HttpRequest sample_tokens = (Some [], sample_parsed)"
  by (simp add: rule_defs sample_tokens_def sample_parsed_def many.simps new_HttpRequest_def)

theorem grammar_accepts_witness:
  "\<exists>pre f. request_tokens spirit_ids pre f \<and> sample_tokens = pre @ [] \<and> sample_parsed = f new_HttpRequest"
  using grammar_accepts [OF spirit_ids_ok] sample_tokens_start by blast

section \<open>Two tokens of one number\<close>

text \<open>
  The numbers fixed for the end of a line and for a header's value lie among those the lexer
  gives by itself, and fall on the two versions. So the end of a line passes for version 1.0:
  a request line without a version is accepted, with an empty line behind it.
\<close>

theorem request_without_version:
  assumes "ids_ok ids" "id_of ids HTTP_V10 = TOK_CRLF ids"
  shows "start ids r ((id_of ids M_GET, m) # (32, s) # (id_of ids URI, u) # (32, s') # (TOK_CRLF ids, e) #
      (TOK_CRLF ids, e') # (TOK_CRLF ids, e'') # rest) =
    (Some rest, r\<lparr>meth := GET, uri := u, version := HTTP_1_0\<rparr>)"
proof -
  have "method_token ids (id_of ids M_GET, m) (set_method GET m)"
    by (rule method_known) (simp add: method_table_def)
  moreover have "version_token ids (TOK_CRLF ids, e) (set_version HTTP_1_0 e)"
    using version_10 [of ids e] assms(2) by simp
  ultimately have "request_tokens ids ((id_of ids M_GET, m) # (32, s) # (id_of ids URI, u) # (32, s') #
      (TOK_CRLF ids, e) # (TOK_CRLF ids, e') # [] @ [(TOK_CRLF ids, e'')])
      (\<lambda>r. (\<lambda>r. r) (set_version HTTP_1_0 e (set_uri u (set_method GET m r))))"
    by (rule request) (rule headers_nil)
  from start_hit [OF assms(1) this, of r rest] show ?thesis
    by (simp add: set_version_def set_uri_def set_method_def)
qed

theorem request_without_version_witness:
  "start spirit_ids new_HttpRequest ((id_of spirit_ids M_GET, bytes_of ''GET'') # (32, [32]) #
      (id_of spirit_ids URI, bytes_of ''/'') # (32, [32]) # (TOK_CRLF spirit_ids, [13, 10]) #
      (TOK_CRLF spirit_ids, [13, 10]) # (TOK_CRLF spirit_ids, [13, 10]) # []) =
    (Some [], new_HttpRequest\<lparr>meth := GET, uri := bytes_of ''/'', version := HTTP_1_0\<rparr>)"
  by (rule request_without_version [OF spirit_ids_ok]) simp

section \<open>Lexer and grammar together\<close>

text \<open>
  \<open>tokenize_and_parse\<close>: the grammar draws its tokens from the lexer, and the position in the
  input is left where the lexer has read to. Both the lexer and how far it has read when the
  grammar leaves some tokens are parameters.
\<close>

type_synonym lexer = "bytes \<Rightarrow> token list"

definition tokenize_and_parse :: "token_ids \<Rightarrow> lexer \<Rightarrow> (bytes \<Rightarrow> token list \<Rightarrow> nat) \<Rightarrow> spirit" where
  "tokenize_and_parse ids lexer position input r =
     (case start ids r (lexer input) of
        (None, r') \<Rightarrow> (False, r', 0)
      | (Some rest, r') \<Rightarrow> (True, r', position input rest))"

text \<open>
  What the grammar relies on: a lexer cuts a prefix of its input into tokens that are not empty;
  it has read at least what the grammar has taken, and never past the end.
\<close>

locale token_source =
  fixes lexer :: lexer and pos :: "bytes \<Rightarrow> token list \<Rightarrow> nat"
  assumes cuts_prefix: "prefix (concat (map snd (lexer input))) input"
    and no_empty_token: "t \<in> set (lexer input) \<Longrightarrow> snd t \<noteq> []"
    and reads_taken: "lexer input = pre @ rest \<Longrightarrow> length (concat (map snd pre)) \<le> pos input rest"
    and reads_input: "lexer input = pre @ rest \<Longrightarrow> pos input rest \<le> length input"
begin

lemma parse_takes:
  assumes ok: "ids_ok ids" and parse: "tokenize_and_parse ids lexer pos input r = (True, v, n)"
  shows "0 < n \<and> n \<le> length input \<and>
    (\<exists>pre f. request_tokens ids pre f \<and> v = f r \<and> prefix (concat (map snd pre)) (take n input))"
proof -
  from parse obtain rest where s: "start ids r (lexer input) = (Some rest, v)" "n = pos input rest"
    by (auto simp: tokenize_and_parse_def split: prod.splits option.splits)
  from start_Some [OF ok s(1)] obtain pre f
    where t: "request_tokens ids pre f" "lexer input = pre @ rest" "v = f r" by auto
  let ?c = "concat (map snd pre)"
  have L: "prefix (concat (map snd (lexer input))) input" "\<forall>t \<in> set (lexer input). snd t \<noteq> []"
      "length ?c \<le> n" "n \<le> length input"
    using cuts_prefix no_empty_token reads_taken [OF t(2)] reads_input [OF t(2)] unfolding s(2) by blast+
  then have pre: "prefix (?c @ concat (map snd rest)) input" and "\<forall>t \<in> set pre. snd t \<noteq> []"
    by (simp_all add: t(2))
  moreover from t(1) have "pre \<noteq> []" by (auto elim: request_tokens.cases)
  ultimately have c: "0 < length ?c" by (cases pre) auto
  moreover from pre L(3) have "prefix ?c (take n input)" by (auto simp: prefix_def)
  moreover from c L(3) have "0 < n" by linarith
  ultimately show ?thesis using t(1,3) L(4) by blast
qed

end

end
