(* ===== verification/HttpLexer.thy ===== *)
theory HttpLexer
  imports HttpGrammar
begin

text \<open>
  The lexer of HTTP requests: the states, tokens and transitions of \<open>HeaderLexer\<close> in
  \<open>src/httpd/HttpRequestParser.h\<close>, run as Spirit.Lex documents it: in every state the token of
  the longest match is taken, of several the one that is listed first.
\<close>

section \<open>Patterns\<close>

text \<open>A pattern gives the length of its longest match at the front of the input.\<close>

type_synonym pattern = "bytes \<Rightarrow> nat option"

definition exact :: "bytes \<Rightarrow> pattern" where
  "exact text s = (if prefix text s then Some (length text) else None)"

definition lower :: "byte \<Rightarrow> byte" where
  "lower b = (if 65 \<le> b \<and> b \<le> 90 then b + 32 else b)"

definition nocase :: "string \<Rightarrow> pattern" where
  "nocase text s =
     (if map lower (take (length text) s) = map lower (bytes_of text) then Some (length text) else None)"

definition run_of :: "(byte \<Rightarrow> bool) \<Rightarrow> pattern" where
  "run_of p s = (let n = length (takeWhile p s) in if n = 0 then None else Some n)"

definition one_of :: "(byte \<Rightarrow> bool) \<Rightarrow> pattern" where
  "one_of p s = (case s of [] \<Rightarrow> None | b # _ \<Rightarrow> if p b then Some 1 else None)"

definition is_space :: "byte \<Rightarrow> bool" where
  "is_space b \<longleftrightarrow> b = 32 \<or> 9 \<le> b \<and> b \<le> 13"

definition is_digit :: "byte \<Rightarrow> bool" where
  "is_digit b \<longleftrightarrow> 48 \<le> b \<and> b \<le> 57"

definition is_alpha :: "byte \<Rightarrow> bool" where
  "is_alpha b \<longleftrightarrow> 65 \<le> b \<and> b \<le> 90 \<or> 97 \<le> b \<and> b \<le> 122"

definition is_name :: "byte \<Rightarrow> bool" where
  "is_name b \<longleftrightarrow> is_alpha b \<or> is_digit b \<or> b = 95 \<or> b = 45"

definition solid :: pattern where
  "solid = run_of (\<lambda>b. \<not> is_space b)"

definition blank :: pattern where
  "blank = one_of (\<lambda>b. b = 32 \<or> b = 9)"

definition qvalue :: pattern where
  "qvalue s =
     (case s of
        a # b # c # d # e # f # _ \<Rightarrow>
          if a = 59 \<and> b = 113 \<and> c = 61 \<and> is_digit d \<and> e = 46 \<and> is_digit f then Some 6 else None
      | _ \<Rightarrow> None)"

section \<open>States and tokens\<close>

datatype lex_state = ST_INITIAL | ST_URI | ST_HTTP_VERSION | ST_HEADER_NAME | ST_HEADER_CONTENT
  | ST_HEADER_DNT | ST_ACCEPT_ENCODING

text \<open>The tokens of a state with their numbers and patterns, and the state that follows if it changes.\<close>

type_synonym lex_rule = "nat \<times> pattern \<times> lex_state option"

abbreviation eol :: pattern where
  "eol \<equiv> exact [13, 10]"

text \<open>The patterns of the tokens.\<close>

fun token_pattern :: "terminal \<Rightarrow> pattern" where
  "token_pattern M_GET = nocase ''GET''"
| "token_pattern M_OPTIONS = nocase ''OPTIONS''"
| "token_pattern M_HEAD = nocase ''HEAD''"
| "token_pattern M_POST = nocase ''POST''"
| "token_pattern M_PUT = nocase ''PUT''"
| "token_pattern M_DELETE = nocase ''DELETE''"
| "token_pattern M_TRACE = nocase ''TRACE''"
| "token_pattern M_CONNECT = nocase ''CONNECT''"
| "token_pattern M_ANY = solid"
| "token_pattern HTTP_V10 = nocase ''HTTP/1.0''"
| "token_pattern HTTP_V11 = nocase ''HTTP/1.1''"
| "token_pattern H_HOST = nocase ''Host''"
| "token_pattern H_DNT = nocase ''Dnt:''"
| "token_pattern H_ACCEPT_ENCODING = nocase ''Accept-Encoding:''"
| "token_pattern H_ANY = run_of is_name"
| "token_pattern DNT_ON = exact [49]"
| "token_pattern DNT_OFF = exact [48]"
| "token_pattern AE_GZIP = nocase ''gzip''"
| "token_pattern AE_DEFLATE = nocase ''deflate''"
| "token_pattern AE_OTHER = one_of is_alpha"
| "token_pattern AE_QVALUE = qvalue"
| "token_pattern URI = solid"
| "token_pattern HV_STR = solid"

abbreviation tok :: "token_ids \<Rightarrow> terminal \<Rightarrow> lex_state option \<Rightarrow> lex_rule" where
  "tok ids t nx \<equiv> (id_of ids t, token_pattern t, nx)"

fun lex_rules :: "token_ids \<Rightarrow> lex_state \<Rightarrow> lex_rule list" where
  "lex_rules ids ST_INITIAL =
     [tok ids M_GET None, tok ids M_OPTIONS None,
      tok ids M_HEAD None, tok ids M_POST None,
      tok ids M_PUT None, tok ids M_DELETE None,
      tok ids M_TRACE None, tok ids M_CONNECT None,
      tok ids M_ANY None, (32, exact [32], Some ST_URI)]"
| "lex_rules ids ST_URI = [tok ids URI None, (32, exact [32], Some ST_HTTP_VERSION)]"
| "lex_rules ids ST_HTTP_VERSION =
     [tok ids HTTP_V10 None, tok ids HTTP_V11 None,
      (TOK_CRLF ids, eol, Some ST_HEADER_NAME)]"
| "lex_rules ids ST_HEADER_NAME =
     [(TOK_CRLF ids, eol, None), tok ids H_HOST None,
      tok ids H_DNT (Some ST_HEADER_DNT),
      tok ids H_ACCEPT_ENCODING (Some ST_ACCEPT_ENCODING),
      tok ids H_ANY None, (58, exact [58], Some ST_HEADER_CONTENT)]"
| "lex_rules ids ST_HEADER_CONTENT =
     [(32, exact [13, 10, 32], None), (32, blank, None), tok ids HV_STR None,
      (TOK_CRLF ids, eol, Some ST_HEADER_NAME)]"
| "lex_rules ids ST_HEADER_DNT =
     [(32, blank, None), tok ids DNT_ON None, tok ids DNT_OFF None,
      (TOK_CRLF ids, eol, Some ST_HEADER_NAME)]"
| "lex_rules ids ST_ACCEPT_ENCODING =
     [(32, blank, None), (44, exact [44], None), tok ids AE_GZIP None,
      tok ids AE_DEFLATE None, (TOK_CRLF ids, eol, Some ST_HEADER_NAME),
      tok ids AE_QVALUE None, tok ids AE_OTHER None]"

section \<open>Running the lexer\<close>

fun longest :: "lex_rule list \<Rightarrow> bytes \<Rightarrow> (nat \<times> nat \<times> lex_state option) option" where
  "longest [] s = None"
| "longest ((i, p, nx) # rs) s =
     (case p s of
        None \<Rightarrow> longest rs s
      | Some n \<Rightarrow> (case longest rs s of
            None \<Rightarrow> Some (n, i, nx)
          | Some (m, j, ny) \<Rightarrow> if n < m then Some (m, j, ny) else Some (n, i, nx)))"

definition follow :: "lex_state \<Rightarrow> lex_state option \<Rightarrow> lex_state" where
  "follow st nx = (case nx of None \<Rightarrow> st | Some st' \<Rightarrow> st')"

text \<open>The tokens of an input. They end where nothing matches.\<close>

function tokenize :: "token_ids \<Rightarrow> lex_state \<Rightarrow> bytes \<Rightarrow> token list" where
  "tokenize ids st s =
     (case longest (lex_rules ids st) s of
        None \<Rightarrow> []
      | Some (n, i, nx) \<Rightarrow>
          if n = 0 \<or> s = [] then [] else (i, take n s) # tokenize ids (follow st nx) (drop n s))"
  by pat_completeness auto
termination by (relation "measure (\<lambda>(ids, st, s). length s)") auto

declare tokenize.simps [simp del]

lemma tokenize_Nil [simp]: "tokenize ids st [] = []"
  by (subst tokenize.simps) (simp split: option.split)

definition HeaderLexer :: "token_ids \<Rightarrow> lexer" where
  "HeaderLexer ids = tokenize ids ST_INITIAL"

lemma tokenize_texts:
  "prefix (concat (map snd (tokenize ids st s))) s \<and> (\<forall>t \<in> set (tokenize ids st s). snd t \<noteq> [])"
proof (induction ids st s rule: tokenize.induct)
  case (1 ids st s)
  show ?case
  proof (cases "longest (lex_rules ids st) s")
    case None
    then show ?thesis by (simp add: tokenize.simps)
  next
    case (Some hit)
    obtain n i nx where hit: "hit = (n, i, nx)" by (cases hit)
    show ?thesis
    proof (cases "n = 0 \<or> s = []")
      case True
      with Some hit show ?thesis by (auto simp: tokenize.simps)
    next
      case False
      let ?rest = "tokenize ids (follow st nx) (drop n s)"
      from False Some hit have step: "tokenize ids st s = (i, take n s) # ?rest"
        by (subst tokenize.simps) simp
      from 1 [OF Some hit [symmetric] refl False] obtain more where "drop n s = concat (map snd ?rest) @ more"
        and rest: "\<forall>t \<in> set ?rest. snd t \<noteq> []" by (auto simp: prefix_def)
      then have "s = (take n s @ concat (map snd ?rest)) @ more" by (metis append_assoc append_take_drop_id)
      then have "prefix (take n s @ concat (map snd ?rest)) s" by (rule prefixI)
      with False rest show ?thesis by (simp add: step)
    qed
  qed
qed

text \<open>
  What the grammar relies on holds for the program's own lexer, where the position is the end of
  the text of the tokens that the grammar has taken.
\<close>

definition text_taken :: "token_ids \<Rightarrow> bytes \<Rightarrow> token list \<Rightarrow> nat" where
  "text_taken ids input rest = length (concat (map snd (HeaderLexer ids input))) - length (concat (map snd rest))"

lemma HeaderLexer_fits: "length (concat (map snd (HeaderLexer ids input))) \<le> length input"
  using tokenize_texts [of ids ST_INITIAL input] prefix_length_le unfolding HeaderLexer_def by blast

interpretation own_lexer: token_source "HeaderLexer ids" "text_taken ids" for ids
proof unfold_locales
  fix input t pre rest
  show "prefix (concat (map snd (HeaderLexer ids input))) input"
    using tokenize_texts [of ids ST_INITIAL input] by (simp add: HeaderLexer_def)
  show "t \<in> set (HeaderLexer ids input) \<Longrightarrow> snd t \<noteq> []"
    using tokenize_texts [of ids ST_INITIAL input] by (simp add: HeaderLexer_def)
  show "HeaderLexer ids input = pre @ rest \<Longrightarrow> length (concat (map snd pre)) \<le> text_taken ids input rest"
    by (simp add: text_taken_def)
  show "HeaderLexer ids input = pre @ rest \<Longrightarrow> text_taken ids input rest \<le> length input"
    using HeaderLexer_fits [of ids input] by (simp add: text_taken_def)
qed

lemma tokenize_step:
  assumes "longest (lex_rules ids st) (t @ s) = Some (length t, i, nx)" "t \<noteq> []"
  shows "tokenize ids st (t @ s) = (i, t) # tokenize ids (follow st nx) s"
  using assms by (subst tokenize.simps) simp

section \<open>Requests as a client writes them\<close>

datatype coding = Gzip | Deflate | Brotli

datatype client_header = Host_header bytes | Dnt_header bool | Accept_header "coding list" | Other_header bytes "bytes list"

definition eol_text :: bytes where
  "eol_text = [13, 10]"

fun coding_text :: "coding \<Rightarrow> bytes" where
  "coding_text Gzip = bytes_of ''gzip''"
| "coding_text Deflate = bytes_of ''deflate''"
| "coding_text Brotli = bytes_of ''br''"

fun codings_text :: "coding list \<Rightarrow> bytes" where
  "codings_text [] = []"
| "codings_text [c] = 32 # coding_text c"
| "codings_text (c # cs) = 32 # coding_text c @ 44 # codings_text cs"

fun header_text :: "client_header \<Rightarrow> bytes" where
  "header_text (Host_header h) = bytes_of ''Host: '' @ h @ eol_text"
| "header_text (Dnt_header on) = bytes_of ''DNT: '' @ [if on then 49 else 48] @ eol_text"
| "header_text (Accept_header cs) =
     bytes_of ''Accept-Encoding:'' @ codings_text cs @ eol_text"
| "header_text (Other_header name vs) = name @ [58] @ concat (map (\<lambda>w. 32 # w) vs) @ eol_text"

definition request_text :: "Method \<Rightarrow> bytes \<Rightarrow> Version \<Rightarrow> client_header list \<Rightarrow> bytes" where
  "request_text m u v hs = method_names ! method_index m @ [32] @ u @ [32] @ version_names ! version_index v @ eol_text @
     concat (map header_text hs) @ eol_text"

text \<open>A text without white space; a name of a header that has no rule of its own.\<close>

definition solid_text :: "bytes \<Rightarrow> bool" where
  "solid_text t \<longleftrightarrow> t \<noteq> [] \<and> (\<forall>b \<in> set t. \<not> is_space b)"

definition other_name :: "bytes \<Rightarrow> bool" where
  "other_name t \<longleftrightarrow> t \<noteq> [] \<and> (\<forall>b \<in> set t. is_name b) \<and>
     map lower t \<notin> {bytes_of ''host'', bytes_of ''dnt'', bytes_of ''accept-encoding''}"

fun good_header :: "client_header \<Rightarrow> bool" where
  "good_header (Host_header h) = solid_text h"
| "good_header (Dnt_header on) = True"
| "good_header (Accept_header cs) = True"
| "good_header (Other_header name vs) = (other_name name \<and> vs \<noteq> [] \<and> list_all solid_text vs)"

text \<open>What a header means for the request; the last one of a kind counts, and nothing switches off.\<close>

fun coding_effect :: "coding \<Rightarrow> effect" where
  "coding_effect Gzip r = r\<lparr>accept_encoding_gzip := True\<rparr>"
| "coding_effect Deflate r = r\<lparr>accept_encoding_deflate := True\<rparr>"
| "coding_effect Brotli r = r"

fun header_effect :: "client_header \<Rightarrow> effect" where
  "header_effect (Host_header h) r = r\<lparr>host := h\<rparr>"
| "header_effect (Dnt_header on) r = (if on then r\<lparr>do_not_track := True\<rparr> else r)"
| "header_effect (Accept_header cs) r = fold coding_effect cs r"
| "header_effect (Other_header name vs) r = r"

section \<open>Their tokens\<close>

fun coding_tokens :: "token_ids \<Rightarrow> coding \<Rightarrow> token list" where
  "coding_tokens ids Gzip = [(id_of ids AE_GZIP, bytes_of ''gzip'')]"
| "coding_tokens ids Deflate = [(id_of ids AE_DEFLATE, bytes_of ''deflate'')]"
| "coding_tokens ids Brotli = [(id_of ids AE_OTHER, bytes_of ''b''), (id_of ids AE_OTHER, bytes_of ''r'')]"

fun codings_tokens :: "token_ids \<Rightarrow> coding list \<Rightarrow> token list" where
  "codings_tokens ids [] = []"
| "codings_tokens ids [c] = (32, [32]) # coding_tokens ids c"
| "codings_tokens ids (c # cs) = (32, [32]) # coding_tokens ids c @ (44, [44]) # codings_tokens ids cs"

fun header_tokens :: "token_ids \<Rightarrow> client_header \<Rightarrow> token list" where
  "header_tokens ids (Host_header h) =
     [(id_of ids H_HOST, bytes_of ''Host''), (58, [58]), (32, [32]), (TOK_STRING ids, h), (TOK_CRLF ids, eol_text)]"
| "header_tokens ids (Dnt_header on) =
     [(id_of ids H_DNT, bytes_of ''DNT:''), (32, [32]),
      (if on then (id_of ids DNT_ON, [49]) else (id_of ids DNT_OFF, [48])), (TOK_CRLF ids, eol_text)]"
| "header_tokens ids (Accept_header cs) = (id_of ids H_ACCEPT_ENCODING, bytes_of ''Accept-Encoding:'') #
     codings_tokens ids cs @ [(TOK_CRLF ids, eol_text)]"
| "header_tokens ids (Other_header name vs) = (id_of ids H_ANY, name) # (58, [58]) #
     concat (map (\<lambda>w. [(32, [32]), (TOK_STRING ids, w)]) vs) @ [(TOK_CRLF ids, eol_text)]"

lemma run_of_Some [simp]:
  "t \<noteq> [] \<Longrightarrow> \<forall>b \<in> set t. p b \<Longrightarrow> s \<noteq> [] \<Longrightarrow> \<not> p (hd s) \<Longrightarrow> run_of p (t @ s) = Some (length t)"
  by (cases s) (auto simp: run_of_def takeWhile_append2 takeWhile_append)

lemma run_of_Cons [simp]: "\<not> p b \<Longrightarrow> run_of p (b # s) = None" "run_of p [] = None"
  by (simp_all add: run_of_def)

lemma name_bytes: "is_name b \<Longrightarrow> b \<noteq> 13 \<and> b \<noteq> 58 \<and> \<not> is_space b"
  by (auto simp: is_name_def is_alpha_def is_digit_def is_space_def word_le_nat_alt)

lemma lower_text: "map lower (bytes_of ''Host'') = bytes_of ''host''" "map lower (bytes_of ''Dnt:'') = bytes_of ''dnt:''"
  "map lower (bytes_of ''Accept-Encoding:'') = bytes_of ''accept-encoding:''"
  by code_simp+

text \<open>One state after the other. What follows a header does not begin with a blank.\<close>

lemma tokens_of_method:
  assumes "m \<noteq> METHOD_UNKNOWN"
  obtains k where "(k, m) \<in> set method_table"
    "\<And>s. tokenize ids ST_INITIAL (method_names ! method_index m @ [32] @ s) =
       (id_of ids k, method_names ! method_index m) # (32, [32]) # tokenize ids ST_URI s"
proof -
  have sp: "tokenize ids ST_INITIAL ([32] @ s) = (32, [32]) # tokenize ids ST_URI s" for s
    by (subst tokenize_step [where nx = "Some ST_URI" and i = 32])
      (simp_all add: nocase_def exact_def solid_def is_space_def bytes_of_def lower_def follow_def)
  have "\<exists>k. (k, m) \<in> set method_table \<and> (\<forall>s. longest (lex_rules ids ST_INITIAL) (method_names ! method_index m @ [32] @ s) =
      Some (length (method_names ! method_index m), id_of ids k, None)) \<and> method_names ! method_index m \<noteq> []"
    using assms
    by (cases m) (simp_all add: method_table_def method_names_def nocase_def exact_def solid_def run_of_def is_space_def bytes_of_def lower_def)
  then obtain k where k: "(k, m) \<in> set method_table" "\<And>s. longest (lex_rules ids ST_INITIAL) (method_names ! method_index m @ [32] @ s) =
      Some (length (method_names ! method_index m), id_of ids k, None)" "method_names ! method_index m \<noteq> []" by blast
  from tokenize_step [OF k(2,3)] sp that [OF k(1)] show thesis by (simp add: follow_def)
qed

lemma tokens_of_uri:
  assumes "solid_text u"
  shows "tokenize ids ST_URI (u @ [32] @ s) = (id_of ids URI, u) # (32, [32]) # tokenize ids ST_HTTP_VERSION s"
proof -
  from assms obtain b u' where u: "u = b # u'" "\<not> is_space b" by (cases u) (auto simp: solid_text_def)
  have "longest (lex_rules ids ST_URI) (u @ [32] @ s) = Some (length u, id_of ids URI, None)"
    using assms u run_of_Some [of u "\<lambda>b. \<not> is_space b" "[32] @ s"]
    by (auto simp: solid_def exact_def solid_text_def is_space_def)
  moreover have "tokenize ids ST_URI ([32] @ s) = (32, [32]) # tokenize ids ST_HTTP_VERSION s"
    by (subst tokenize_step [where nx = "Some ST_HTTP_VERSION" and i = 32])
      (simp_all add: exact_def solid_def is_space_def follow_def)
  ultimately show ?thesis using tokenize_step [of ids ST_URI u "[32] @ s"] u(1) by (simp add: follow_def)
qed

definition version_terminal :: "Version \<Rightarrow> terminal" where
  "version_terminal v = (if v = HTTP_1_0 then HTTP_V10 else HTTP_V11)"

lemma tokens_of_version:
  assumes "v \<noteq> VERSION_UNKNOWN"
  shows "tokenize ids ST_HTTP_VERSION (version_names ! version_index v @ eol_text @ s) =
      (id_of ids (version_terminal v), version_names ! version_index v) # (TOK_CRLF ids, eol_text) # tokenize ids ST_HEADER_NAME s"
    and "version_token ids (id_of ids (version_terminal v), t) (set_version v t)"
proof -
  have "tokenize ids ST_HTTP_VERSION (eol_text @ s) = (TOK_CRLF ids, eol_text) # tokenize ids ST_HEADER_NAME s"
    by (subst tokenize_step [where nx = "Some ST_HEADER_NAME" and i = "TOK_CRLF ids"])
      (simp_all add: nocase_def exact_def bytes_of_def lower_def follow_def eol_text_def)
  moreover have "tokenize ids ST_HTTP_VERSION (version_names ! version_index v @ eol_text @ s) =
      (id_of ids (version_terminal v), version_names ! version_index v) # tokenize ids ST_HTTP_VERSION (eol_text @ s)"
    using assms
    by (cases v; subst tokenize_step [where nx = None and i = "id_of ids (version_terminal v)"])
      (simp_all add: version_names_def version_terminal_def nocase_def exact_def bytes_of_def lower_def follow_def eol_text_def)
  ultimately show "tokenize ids ST_HTTP_VERSION (version_names ! version_index v @ eol_text @ s) =
      (id_of ids (version_terminal v), version_names ! version_index v) # (TOK_CRLF ids, eol_text) # tokenize ids ST_HEADER_NAME s"
    by simp
  show "version_token ids (id_of ids (version_terminal v), t) (set_version v t)"
    using assms version_10 [of ids t] version_11 [of ids t] by (cases v) (simp_all add: version_terminal_def)
qed

definition no_blank :: "bytes \<Rightarrow> bool" where
  "no_blank s \<longleftrightarrow> s = [] \<or> hd s \<noteq> 32"

lemma tokens_of_value_end:
  assumes "no_blank s"
  shows "tokenize ids ST_HEADER_CONTENT (eol_text @ s) = (TOK_CRLF ids, eol_text) # tokenize ids ST_HEADER_NAME s"
proof (subst tokenize_step [where nx = "Some ST_HEADER_NAME" and i = "TOK_CRLF ids"])
  show "longest (lex_rules ids ST_HEADER_CONTENT) (eol_text @ s) = Some (length eol_text, TOK_CRLF ids, Some ST_HEADER_NAME)"
    using assms by (cases s) (simp_all add: exact_def blank_def one_of_def solid_def is_space_def eol_text_def no_blank_def)
qed (simp_all add: follow_def eol_text_def)

lemma tokens_of_word:
  assumes "solid_text w"
  shows "tokenize ids ST_HEADER_CONTENT (32 # w @ eol_text @ s) =
      (32, [32]) # (TOK_STRING ids, w) # tokenize ids ST_HEADER_CONTENT (eol_text @ s)"
    and "tokenize ids ST_HEADER_CONTENT (32 # w @ 32 # s) =
      (32, [32]) # (TOK_STRING ids, w) # tokenize ids ST_HEADER_CONTENT (32 # s)"
proof -
  from assms obtain b w' where w: "w = b # w'" "\<not> is_space b" by (cases w) (auto simp: solid_text_def)
  have sp: "tokenize ids ST_HEADER_CONTENT ([32] @ w @ t) = (32, [32]) # tokenize ids ST_HEADER_CONTENT (w @ t)" for t
    by (subst tokenize_step [where nx = None and i = 32])
      (simp_all add: exact_def blank_def one_of_def solid_def is_space_def follow_def)
  have "tokenize ids ST_HEADER_CONTENT (w @ t) = (TOK_STRING ids, w) # tokenize ids ST_HEADER_CONTENT t"
    if "t \<noteq> []" "is_space (hd t)" for t
  proof -
    have "longest (lex_rules ids ST_HEADER_CONTENT) (w @ t) = Some (length w, TOK_STRING ids, None)"
      using assms w run_of_Some [of w "\<lambda>b. \<not> is_space b" t] that
      by (auto simp: solid_def exact_def solid_text_def is_space_def blank_def one_of_def)
    with tokenize_step [of ids ST_HEADER_CONTENT w t] w(1) show ?thesis by (simp add: follow_def)
  qed
  from this [of "eol_text @ s"] this [of "32 # s"] sp [of "eol_text @ s"] sp [of "32 # s"]
  show "tokenize ids ST_HEADER_CONTENT (32 # w @ eol_text @ s) =
      (32, [32]) # (TOK_STRING ids, w) # tokenize ids ST_HEADER_CONTENT (eol_text @ s)"
    "tokenize ids ST_HEADER_CONTENT (32 # w @ 32 # s) =
      (32, [32]) # (TOK_STRING ids, w) # tokenize ids ST_HEADER_CONTENT (32 # s)"
    by (simp_all add: is_space_def eol_text_def)
qed

lemma tokens_of_words:
  "list_all solid_text vs \<Longrightarrow> no_blank s \<Longrightarrow>
    tokenize ids ST_HEADER_CONTENT (concat (map (\<lambda>w. 32 # w) vs) @ eol_text @ s) =
    concat (map (\<lambda>w. [(32, [32]), (TOK_STRING ids, w)]) vs) @ (TOK_CRLF ids, eol_text) # tokenize ids ST_HEADER_NAME s"
proof (induction vs)
  case Nil
  then show ?case by (simp add: tokens_of_value_end)
next
  case (Cons w vs)
  then show ?case by (cases vs) (simp_all add: tokens_of_word)
qed

lemma tokens_of_colon:
  "tokenize ids ST_HEADER_NAME (58 # s) = (58, [58]) # tokenize ids ST_HEADER_CONTENT s"
  using tokenize_step [of ids ST_HEADER_NAME "[58]" s 58 "Some ST_HEADER_CONTENT"]
  by (simp add: nocase_def exact_def bytes_of_def lower_def follow_def is_name_def is_alpha_def is_digit_def)

lemma tokens_of_host:
  assumes "solid_text h" "no_blank s"
  shows "tokenize ids ST_HEADER_NAME (header_text (Host_header h) @ s) =
    header_tokens ids (Host_header h) @ tokenize ids ST_HEADER_NAME s"
proof -
  have "tokenize ids ST_HEADER_NAME (bytes_of ''Host'' @ 58 # t) =
      (id_of ids H_HOST, bytes_of ''Host'') # tokenize ids ST_HEADER_NAME (58 # t)" for t
    by (subst tokenize_step [where nx = None and i = "id_of ids H_HOST"])
      (simp_all add: nocase_def exact_def bytes_of_def lower_def follow_def run_of_def is_name_def is_alpha_def is_digit_def)
  from this [of "32 # h @ eol_text @ s"] tokens_of_words [of "[h]" s ids] assms
  show ?thesis by (simp add: tokens_of_colon) (simp add: bytes_of_def)
qed

lemma tokens_of_dnt:
  "tokenize ids ST_HEADER_NAME (header_text (Dnt_header on) @ s) =
    header_tokens ids (Dnt_header on) @ tokenize ids ST_HEADER_NAME s"
proof -
  have "tokenize ids ST_HEADER_NAME (bytes_of ''DNT:'' @ t) =
      (id_of ids H_DNT, bytes_of ''DNT:'') # tokenize ids ST_HEADER_DNT t" for t
    by (subst tokenize_step [where nx = "Some ST_HEADER_DNT" and i = "id_of ids H_DNT"])
      (simp_all add: nocase_def exact_def bytes_of_def lower_def follow_def run_of_def is_name_def is_alpha_def is_digit_def)
  moreover have "tokenize ids ST_HEADER_DNT (32 # t) = (32, [32]) # tokenize ids ST_HEADER_DNT t" for t
    using tokenize_step [of ids ST_HEADER_DNT "[32]" t 32 None] by (simp add: exact_def blank_def one_of_def follow_def)
  moreover have "tokenize ids ST_HEADER_DNT ((if on then 49 else 48) # t) =
      (if on then (id_of ids DNT_ON, [49]) else (id_of ids DNT_OFF, [48])) # tokenize ids ST_HEADER_DNT t" for t
    using tokenize_step [of ids ST_HEADER_DNT "[49]" t "id_of ids DNT_ON" None]
      tokenize_step [of ids ST_HEADER_DNT "[48]" t "id_of ids DNT_OFF" None]
    by (simp add: exact_def blank_def one_of_def follow_def)
  moreover have "tokenize ids ST_HEADER_DNT (eol_text @ t) = (TOK_CRLF ids, eol_text) # tokenize ids ST_HEADER_NAME t" for t
    using tokenize_step [of ids ST_HEADER_DNT eol_text t "TOK_CRLF ids" "Some ST_HEADER_NAME"]
    by (simp add: exact_def blank_def one_of_def follow_def eol_text_def)
  ultimately show ?thesis
    by (simp add: bytes_of_def)
qed

lemma qvalue_other: "b \<noteq> 59 \<Longrightarrow> qvalue (b # s) = None"
  by (auto simp: qvalue_def split: list.splits)

lemma tokens_of_accept:
  "tokenize ids ST_HEADER_NAME (header_text (Accept_header cs) @ s) =
    header_tokens ids (Accept_header cs) @ tokenize ids ST_HEADER_NAME s"
proof -
  let ?st = "tokenize ids ST_ACCEPT_ENCODING"
  note rules = exact_def blank_def one_of_def nocase_def qvalue_other lower_def bytes_of_def is_alpha_def follow_def eol_text_def
  have sp: "?st (32 # t) = (32, [32]) # ?st t" for t
    using tokenize_step [of ids ST_ACCEPT_ENCODING "[32]" t 32 None] by (simp add: rules)
  have comma: "?st (44 # t) = (44, [44]) # ?st t" for t
    using tokenize_step [of ids ST_ACCEPT_ENCODING "[44]" t 44 None] by (simp add: rules)
  have br: "?st (98 # 114 # t) = (id_of ids AE_OTHER, [98]) # (id_of ids AE_OTHER, [114]) # ?st t" for t
    using tokenize_step [of ids ST_ACCEPT_ENCODING "[98]" "114 # t" "id_of ids AE_OTHER" None]
      tokenize_step [of ids ST_ACCEPT_ENCODING "[114]" "t" "id_of ids AE_OTHER" None]
    by (simp add: rules)
  have coding: "?st (coding_text c @ t) = coding_tokens ids c @ ?st t" for c t
    using tokenize_step [of ids ST_ACCEPT_ENCODING "bytes_of ''gzip''" t "id_of ids AE_GZIP" None]
      tokenize_step [of ids ST_ACCEPT_ENCODING "bytes_of ''deflate''" t "id_of ids AE_DEFLATE" None] br
    by (cases c) (simp_all add: rules)
  have "?st (eol_text @ s) = (TOK_CRLF ids, eol_text) # tokenize ids ST_HEADER_NAME s"
    using tokenize_step [of ids ST_ACCEPT_ENCODING eol_text s "TOK_CRLF ids" "Some ST_HEADER_NAME"] by (simp add: rules)
  then have "?st (codings_text cs @ eol_text @ s) =
      codings_tokens ids cs @ (TOK_CRLF ids, eol_text) # tokenize ids ST_HEADER_NAME s"
    by (induction cs rule: codings_text.induct) (simp_all add: sp comma coding)
  moreover have "tokenize ids ST_HEADER_NAME (bytes_of ''Accept-Encoding:'' @ t) =
      (id_of ids H_ACCEPT_ENCODING, bytes_of ''Accept-Encoding:'') # ?st t" for t
    by (subst tokenize_step [where nx = "Some ST_ACCEPT_ENCODING" and i = "id_of ids H_ACCEPT_ENCODING"])
      (simp_all add: rules run_of_def is_name_def is_digit_def)
  ultimately show ?thesis by simp
qed

text \<open>A name of its own is no special token: the longest match is the whole name.\<close>

lemma lower_colon: "lower b = 58 \<longleftrightarrow> b = 58"
proof -
  have "b = 58 - 32" if "b + 32 = 58" using that by (simp add: eq_diff_eq)
  then show ?thesis by (auto simp: lower_def)
qed

lemma first_colon:
  assumes "58 \<notin> set name" "58 \<notin> set x" "map lower (take (Suc (length x)) (name @ 58 # t)) = x @ [58]"
  shows "map lower name = x"
proof -
  let ?n = "length name"
  have short: "?n \<le> length x"
  proof (rule ccontr)
    assume "\<not> ?n \<le> length x"
    then have "map lower (take (Suc (length x)) name) = x @ [58]" using assms(3) by simp
    then have "58 \<in> set (map lower name)" by (metis in_set_conv_decomp in_set_takeD take_map)
    with assms(1) lower_colon show False by auto
  qed
  then have "(x @ [58]) ! ?n = map lower (take (Suc (length x)) (name @ 58 # t)) ! ?n" using assms(3) by simp
  also have "\<dots> = 58" using short by (simp add: nth_append lower_colon)
  finally have "?n = length x" using short assms(2) by (metis append_eq_conv_conj le_neq_implies_less nth_append nth_mem)
  with assms(3) show ?thesis by simp
qed

lemma nocase_colon:
  assumes "58 \<notin> set name" "58 \<notin> set x" "map lower (bytes_of text) = x @ [58]" "map lower name \<noteq> x"
  shows "nocase text (name @ 58 # t) = None"
proof -
  from arg_cong [OF assms(3), of length] have "length text = Suc (length x)" by (simp add: bytes_of_def)
  with first_colon [OF assms(1,2), of t] assms(3,4) show ?thesis by (auto simp: nocase_def)
qed

lemma nocase_other:
  assumes "58 \<notin> set name" "58 \<notin> set (map lower (bytes_of text))" "map lower name \<noteq> map lower (bytes_of text)"
    and "nocase text (name @ 58 # t) = Some n"
  shows "n < length name"
proof (rule ccontr)
  assume "\<not> n < length name"
  moreover from assms(4) have m: "n = length text" "map lower (take n (name @ 58 # t)) = map lower (bytes_of text)"
    by (auto simp: nocase_def split: if_splits)
  moreover have len: "length (bytes_of text) = length text" by (simp add: bytes_of_def)
  ultimately consider "n = length name" | "length name < n" by linarith
  then show False
  proof cases
    case 1
    with m assms(3) show False by simp
  next
    case 2
    then have "58 \<in> set (map lower (take n (name @ 58 # t)))"
      by (simp add: take_Cons' lower_colon)
    with m assms(2) show False by simp
  qed
qed

lemma tokens_of_name:
  assumes "other_name name"
  shows "tokenize ids ST_HEADER_NAME (name @ 58 # s) = (id_of ids H_ANY, name) # tokenize ids ST_HEADER_NAME (58 # s)"
proof -
  from assms have nn: "name \<noteq> []" "\<forall>b \<in> set name. is_name b" by (simp_all add: other_name_def)
  then have colon: "58 \<notin> set name" and "hd name \<noteq> 13" using name_bytes by (blast, metis hd_in_set)
  then have e: "exact [13, 10] (name @ 58 # s) = None" "exact [58] (name @ 58 # s) = None"
    using nn(1) by (cases name; auto simp: exact_def)+
  have low: "map lower (bytes_of ''Host'') = bytes_of ''host''" "58 \<notin> set (bytes_of ''host'')"
    "map lower (bytes_of ''Dnt:'') = bytes_of ''dnt'' @ [58]" "58 \<notin> set (bytes_of ''dnt'')"
    "map lower (bytes_of ''Accept-Encoding:'') = bytes_of ''accept-encoding'' @ [58]" "58 \<notin> set (bytes_of ''accept-encoding'')"
    by code_simp+
  have h: "n < length name" if "nocase ''Host'' (name @ 58 # s) = Some n" for n
    using nocase_other [OF colon _ _ that] assms low by (auto simp: other_name_def)
  have d: "nocase ''Dnt:'' (name @ 58 # s) = None"
    using assms by (intro nocase_colon [OF colon low(4,3)]) (simp add: other_name_def)
  have a: "nocase ''Accept-Encoding:'' (name @ 58 # s) = None"
    using assms by (intro nocase_colon [OF colon low(6,5)]) (simp add: other_name_def)
  have "run_of is_name (name @ 58 # s) = Some (length name)"
    using nn name_bytes [of 58] by (intro run_of_Some) auto
  with e h d a have "longest (lex_rules ids ST_HEADER_NAME) (name @ 58 # s) = Some (length name, id_of ids H_ANY, None)"
    by (auto split: option.split)
  from tokenize_step [OF this nn(1)] show ?thesis by (simp add: follow_def)
qed

lemma tokens_of_header:
  assumes "good_header h" "no_blank s"
  shows "tokenize ids ST_HEADER_NAME (header_text h @ s) = header_tokens ids h @ tokenize ids ST_HEADER_NAME s"
proof (cases h)
  case (Host_header x)
  with assms show ?thesis using tokens_of_host by simp
next
  case (Dnt_header on)
  show ?thesis unfolding Dnt_header by (rule tokens_of_dnt)
next
  case (Accept_header cs)
  show ?thesis unfolding Accept_header by (rule tokens_of_accept)
next
  case (Other_header name vs)
  with assms tokens_of_words [of vs s ids] show ?thesis by (simp add: tokens_of_name tokens_of_colon)
qed

lemma header_text_start: "good_header h \<Longrightarrow> no_blank (header_text h @ s)"
proof (cases h)
  case (Other_header name vs)
  moreover assume "good_header h"
  ultimately have "is_name (hd name)" "name \<noteq> []" by (auto simp: other_name_def)
  moreover have "\<not> is_name 32" by (simp add: is_name_def is_alpha_def is_digit_def)
  ultimately show ?thesis using Other_header by (auto simp: no_blank_def)
qed (simp_all add: no_blank_def bytes_of_def)

lemma headers_start: "list_all good_header hs \<Longrightarrow> no_blank (concat (map header_text hs) @ eol_text @ s)"
proof (cases hs)
  case (Cons h hs')
  moreover assume "list_all good_header hs"
  ultimately show ?thesis using header_text_start [of h "concat (map header_text hs') @ eol_text @ s"] by simp
qed (simp add: no_blank_def eol_text_def)

lemma tokens_of_headers:
  "list_all good_header hs \<Longrightarrow> tokenize ids ST_HEADER_NAME (concat (map header_text hs) @ eol_text @ s) =
    concat (map (header_tokens ids) hs) @ (TOK_CRLF ids, eol_text) # tokenize ids ST_HEADER_NAME s"
proof (induction hs)
  case Nil
  have "tokenize ids ST_HEADER_NAME (eol_text @ s) = (TOK_CRLF ids, eol_text) # tokenize ids ST_HEADER_NAME s"
    using tokenize_step [of ids ST_HEADER_NAME eol_text s "TOK_CRLF ids" None]
    by (simp add: nocase_def exact_def bytes_of_def lower_def follow_def eol_text_def is_name_def is_alpha_def is_digit_def)
  then show ?case by simp
next
  case (Cons h hs)
  then show ?case using tokens_of_header [of h "concat (map header_text hs) @ eol_text @ s" ids] headers_start by simp
qed

section \<open>What the server understands\<close>

lemma run_simps [simp]: "run i []" "run i (t # ts) \<longleftrightarrow> fst t = i \<and> run i ts"
  by (auto simp: run_def)

lemma coding_items:
  assumes "accept_items ids is f" "run 44 cs"
  shows "\<exists>g. accept_items ids ((32, [32]) # coding_tokens ids c @ cs @ is) g \<and> (\<forall>r. g r = f (coding_effect c r))"
proof -
  have w: "run 32 [(32, [32])]" by simp
  show ?thesis
  proof (cases c)
    case Gzip
    with items_cons [OF w coding_gzip _ assms(2,1), where qs = "[]"] show ?thesis by (auto simp: set_gzip_def intro!: exI)
  next
    case Deflate
    with items_cons [OF w coding_deflate _ assms(2,1), where qs = "[]"] show ?thesis
      by (auto simp: set_deflate_def intro!: exI)
  next
    case Brotli
    have "accept_items ids ((id_of ids AE_OTHER, bytes_of ''r'') # cs @ is) (\<lambda>r. f r)"
      using items_cons [OF _ coding_other _ assms(2,1), where w = "[]" and qs = "[]"] by simp
    from items_cons [OF w coding_other _ _ this, where qs = "[]" and cs = "[]"] Brotli
    show ?thesis by (auto intro!: exI)
  qed
qed

lemma coding_list_items:
  "\<exists>f. accept_items ids (codings_tokens ids cs) f \<and> (\<forall>r. f r = fold coding_effect cs r)"
proof (induction cs rule: codings_text.induct)
  case 1
  show ?case using items_nil by fastforce
next
  case (2 c)
  from coding_items [OF items_nil, of "[]" ids c] show ?case by auto
next
  case (3 c d cs)
  then obtain f where f: "accept_items ids (codings_tokens ids (d # cs)) f" "\<forall>r. f r = fold coding_effect (d # cs) r" by blast
  from coding_items [OF f(1), of "[(44, [44])]" c] f(2) show ?case by auto
qed

lemma word_items:
  "any_items ids (concat (map (\<lambda>w. [(32, [32]), (TOK_STRING ids, w)]) vs))"
proof (induction vs)
  case Nil
  show ?case using any_nil by simp
next
  case (Cons w vs)
  from any_cons [of "[(32, [32])]", OF _ this] show ?case by simp
qed

lemma header_derived:
  assumes "good_header h"
  shows "\<exists>f. header ids (header_tokens ids h) f \<and> (\<forall>r. f r = header_effect h r)"
proof (cases h)
  case (Host_header x)
  from header_host [of "[(32, [32])]" "[]"] show ?thesis unfolding Host_header by (fastforce simp: set_host_def)
next
  case (Dnt_header on)
  from header_dnt_on [of "[(32, [32])]" "[]"] header_dnt_off [of "[(32, [32])]" "[]"]
  show ?thesis unfolding Dnt_header by (cases on) (fastforce simp: set_dnt_def)+
next
  case (Accept_header cs)
  obtain f where "accept_items ids (codings_tokens ids cs) f" "\<forall>r. f r = fold coding_effect cs r" using coding_list_items by blast
  with header_accept [OF this(1), of "[]"] show ?thesis unfolding Accept_header by fastforce
next
  case (Other_header name vs)
  with assms obtain v vs' where "vs = v # vs'" by (cases vs) auto
  with header_any [OF word_items [of ids vs], of "[]" name "[58]" eol_text] show ?thesis
    unfolding Other_header by fastforce
qed

lemma headers_derived:
  "list_all good_header hs \<Longrightarrow>
    \<exists>f. headers ids (concat (map (header_tokens ids) hs)) f \<and> (\<forall>r. f r = fold header_effect hs r)"
proof (induction hs)
  case Nil
  show ?case using headers_nil by fastforce
next
  case (Cons h hs)
  then obtain f g where "header ids (header_tokens ids h) f" "\<forall>r. f r = header_effect h r"
    "headers ids (concat (map (header_tokens ids) hs)) g" "\<forall>r. g r = fold header_effect hs r"
    using header_derived [of h ids] by auto
  with headers_cons [of ids "header_tokens ids h" f _ g] show ?case by fastforce
qed

lemma header_tokens_text: "concat (map snd (header_tokens ids h)) = header_text h"
proof (cases h)
  case (Accept_header cs)
  have "concat (map snd (coding_tokens ids c)) = coding_text c" for c by (cases c) (simp_all add: bytes_of_def)
  then have "concat (map snd (codings_tokens ids cs)) = codings_text cs"
    by (induction cs rule: codings_text.induct) simp_all
  with Accept_header show ?thesis by simp
next
  case (Other_header name vs)
  then show ?thesis by (induction vs arbitrary: h) simp_all
qed (simp_all add: bytes_of_def)

lemma headers_tokens_text: "concat (map snd (concat (map (header_tokens ids) hs))) = concat (map header_text hs)"
  by (induction hs) (simp_all add: header_tokens_text)

lemma request_lexed:
  assumes "m \<noteq> METHOD_UNKNOWN" "solid_text u" "v \<noteq> VERSION_UNKNOWN" "list_all good_header hs"
  obtains pre f where "HeaderLexer ids (request_text m u v hs @ s) = pre @ tokenize ids ST_HEADER_NAME s"
    "concat (map snd pre) = request_text m u v hs"
    "request_tokens ids pre f" "\<And>r. f r = fold header_effect hs (r\<lparr>meth := m, uri := u, version := v\<rparr>)"
proof -
  from tokens_of_method [OF assms(1)] obtain k where k: "(k, m) \<in> set method_table"
    "\<And>s. tokenize ids ST_INITIAL (method_names ! method_index m @ [32] @ s) =
       (id_of ids k, method_names ! method_index m) # (32, [32]) # tokenize ids ST_URI s" by blast
  obtain h where h: "headers ids (concat (map (header_tokens ids) hs)) h" "\<forall>r. h r = fold header_effect hs r"
    using headers_derived [OF assms(4)] by blast
  let ?pre = "(id_of ids k, method_names ! method_index m) # (32, [32]) # (id_of ids URI, u) # (32, [32]) #
    (id_of ids (version_terminal v), version_names ! version_index v) # (TOK_CRLF ids, eol_text) #
    concat (map (header_tokens ids) hs) @ [(TOK_CRLF ids, eol_text)]"
  have "HeaderLexer ids (request_text m u v hs @ s) = ?pre @ tokenize ids ST_HEADER_NAME s"
    by (simp add: HeaderLexer_def request_text_def k(2) [unfolded append_Cons append_Nil] tokens_of_headers [OF assms(4)]
        tokens_of_uri [OF assms(2), unfolded append_Cons append_Nil] tokens_of_version(1) [OF assms(3)])
  moreover have "concat (map snd ?pre) = request_text m u v hs"
    by (simp add: request_text_def headers_tokens_text)
  moreover have "request_tokens ids ?pre (\<lambda>r. h (set_version v (version_names ! version_index v) (set_uri u
      (set_method m (method_names ! method_index m) r))))"
    by (rule request [OF method_known [OF k(1)] tokens_of_version(2) [OF assms(3)] h(1)])
  ultimately show thesis
    by (rule that) (simp add: h(2) set_method_def set_uri_def set_version_def)
qed

text \<open>
  C14: what a client writes is what the server understands. A request line with any method the
  program knows, any resource without white space and a known version, followed by headers
  in any order, is lexed and parsed to the request that it means. The headers are those of \<open>good_header\<close>: a host without white space, DNT with 0 or 1,
  Accept-Encoding with any of gzip, deflate and br and no weights, and others with one word or more, with single blanks as clients write them; not every header of HTTP is
  understood. The tokens taken are those of the request up to
  its empty line, and those of what follows are left to the next request; where Spirit leaves its position at the end of
  the tokens taken, the length of the request is that of its text.
\<close>

theorem written_request_parses:
  assumes "ids_ok ids" "m \<noteq> METHOD_UNKNOWN" "solid_text u" "v \<noteq> VERSION_UNKNOWN" "list_all good_header hs"
  shows "let input = request_text m u v hs @ s; rest = tokenize ids ST_HEADER_NAME s;
      parsed = fold header_effect hs (new_HttpRequest\<lparr>meth := m, uri := u, version := v\<rparr>) in
    ParseHttpRequest (tokenize_and_parse ids (HeaderLexer ids) pos) input grammar_req req =
      (True, parsed\<lparr>request_length := of_nat (pos input rest)\<rparr>, parsed) \<and>
    (\<exists>pre. HeaderLexer ids input = pre @ rest \<and> concat (map snd pre) = request_text m u v hs) \<and>
    text_taken ids input rest = length (request_text m u v hs)"
proof -
  let ?input = "request_text m u v hs @ s"
  from request_lexed [OF assms(2-5), of ids s] obtain pre f
    where p: "HeaderLexer ids ?input = pre @ tokenize ids ST_HEADER_NAME s" "concat (map snd pre) = request_text m u v hs"
      "request_tokens ids pre f" "\<And>r. f r = fold header_effect hs (r\<lparr>meth := m, uri := u, version := v\<rparr>)" by blast
  from start_hit [OF assms(1) p(3)] p(1,2,4) show ?thesis
    by (simp add: Let_def ParseHttpRequest_def Parse_def tokenize_and_parse_def text_taken_def)
qed

definition sample_headers :: "client_header list" where
  "sample_headers = [Host_header (bytes_of ''2.example.com''), Other_header (bytes_of ''User-Agent'')
     [bytes_of ''curl/7.1'', bytes_of ''(x)''], Accept_header [Gzip, Brotli], Dnt_header True]"

theorem written_request_parses_witness:
  "ParseHttpRequest (tokenize_and_parse spirit_ids (HeaderLexer spirit_ids) (text_taken spirit_ids))
       (request_text HEAD (bytes_of ''/'') HTTP_1_1 sample_headers @ bytes_of ''GET'') new_HttpRequest new_HttpRequest =
     (True, new_HttpRequest\<lparr>meth := HEAD, uri := bytes_of ''/'', version := HTTP_1_1, host := bytes_of ''2.example.com'',
       accept_encoding_gzip := True, do_not_track := True,
       request_length := of_nat (length (request_text HEAD (bytes_of ''/'') HTTP_1_1 sample_headers))\<rparr>, new_HttpRequest\<lparr>meth := HEAD, uri := bytes_of ''/'', version := HTTP_1_1, host := bytes_of ''2.example.com'',
       accept_encoding_gzip := True, do_not_track := True\<rparr>)"
proof -
  have "solid_text (bytes_of ''/'')" "list_all good_header sample_headers" by code_simp+
  moreover have "fold header_effect sample_headers (new_HttpRequest\<lparr>meth := HEAD, uri := bytes_of ''/'', version := HTTP_1_1\<rparr>) =
      new_HttpRequest\<lparr>meth := HEAD, uri := bytes_of ''/'', version := HTTP_1_1, host := bytes_of ''2.example.com'',
       accept_encoding_gzip := True, do_not_track := True\<rparr>"
    by (simp add: sample_headers_def new_HttpRequest_def)
  ultimately show ?thesis
    using written_request_parses [OF spirit_ids_ok, of HEAD "bytes_of ''/''" HTTP_1_1 sample_headers
        "bytes_of ''GET''" "text_taken spirit_ids" new_HttpRequest new_HttpRequest]
    unfolding Let_def by simp
qed

section \<open>A request without a line break\<close>

lemma tokens_of_version_10:
  "tokenize ids ST_HTTP_VERSION (bytes_of ''HTTP/1.0'' @ s) = (id_of ids HTTP_V10, bytes_of ''HTTP/1.0'') # tokenize ids ST_HTTP_VERSION s"
  by (subst tokenize_step [where nx = None and i = "id_of ids HTTP_V10"])
    (simp_all add: nocase_def exact_def bytes_of_def lower_def follow_def)

definition run_together :: "Method \<Rightarrow> bytes \<Rightarrow> bytes" where
  "run_together m u = method_names ! method_index m @ [32] @ u @ [32] @
     bytes_of ''HTTP/1.0'' @ bytes_of ''HTTP/1.0'' @ bytes_of ''HTTP/1.0''"

text \<open>
  C40: the numbers fixed for the end of a line and for a header's value lie among those the lexer
  gives by itself, and fall on the two versions. So the version passes for the end of a line: a
  text with no line break at all, whatever follows it, is a complete request.
\<close>

theorem version_ends_line:
  assumes "ids_ok ids" "id_of ids HTTP_V10 = TOK_CRLF ids" "m \<noteq> METHOD_UNKNOWN" "solid_text u"
  shows "let parsed = new_HttpRequest\<lparr>meth := m, uri := u, version := HTTP_1_0\<rparr>; input = run_together m u @ s;
      rest = tokenize ids ST_HTTP_VERSION s in
    13 \<notin> set (run_together m u) \<and> 10 \<notin> set (run_together m u) \<and>
    ParseHttpRequest (tokenize_and_parse ids (HeaderLexer ids) pos) input grammar_req req =
      (True, parsed\<lparr>request_length := of_nat (pos input rest)\<rparr>, parsed)"
proof -
  from tokens_of_method [OF assms(3)] obtain k where k: "(k, m) \<in> set method_table"
    "\<And>s. tokenize ids ST_INITIAL (method_names ! method_index m @ [32] @ s) =
       (id_of ids k, method_names ! method_index m) # (32, [32]) # tokenize ids ST_URI s" by blast
  let ?v = "bytes_of ''HTTP/1.0''"
  let ?pre = "(id_of ids k, method_names ! method_index m) # (32, [32]) # (id_of ids URI, u) # (32, [32]) #
    (TOK_CRLF ids, ?v) # (TOK_CRLF ids, ?v) # [] @ [(TOK_CRLF ids, ?v)]"
  have "HeaderLexer ids (run_together m u @ s) = ?pre @ tokenize ids ST_HTTP_VERSION s"
    by (simp add: HeaderLexer_def run_together_def k(2) [unfolded append_Cons append_Nil]
        tokens_of_uri [OF assms(4), unfolded append_Cons append_Nil] tokens_of_version_10 assms(2))
  moreover have "version_token ids (TOK_CRLF ids, ?v) (set_version HTTP_1_0 ?v)" using version_10 [of ids ?v] assms(2) by simp
  then have "request_tokens ids ?pre (\<lambda>r. (\<lambda>r. r) (set_version HTTP_1_0 ?v (set_uri u (set_method m (method_names ! method_index m) r))))"
    by (rule request [OF method_known [OF k(1)] _ headers_nil])
  note start_hit [OF assms(1) this]
  moreover have "13 \<notin> set (run_together m u)" "10 \<notin> set (run_together m u)"
    using assms(3,4) by (cases m; auto simp: run_together_def solid_text_def is_space_def method_names_def bytes_of_def)+
  ultimately show ?thesis
    by (simp add: Let_def ParseHttpRequest_def Parse_def tokenize_and_parse_def set_version_def set_uri_def set_method_def)
qed

theorem version_ends_line_witness:
  "\<exists>r. ParseHttpRequest (tokenize_and_parse spirit_ids (HeaderLexer spirit_ids) (\<lambda>input rest. length input))
      (bytes_of ''GET / HTTP/1.0HTTP/1.0HTTP/1.0'') new_HttpRequest new_HttpRequest =
     (True, r, new_HttpRequest\<lparr>meth := GET, uri := bytes_of ''/'', version := HTTP_1_0\<rparr>)"
proof -
  have "solid_text (bytes_of ''/'')" by code_simp
  moreover have "run_together GET (bytes_of ''/'') @ [] = bytes_of ''GET / HTTP/1.0HTTP/1.0HTTP/1.0''" by code_simp
  ultimately show ?thesis
    using version_ends_line [OF spirit_ids_ok, of GET "bytes_of ''/''" "[]" "\<lambda>input rest. length input" new_HttpRequest new_HttpRequest]
    unfolding Let_def by simp
qed

end
