(* ===== verification/HttpService.thy ===== *)
theory HttpService
  imports HttpConn HttpLexer
begin

text \<open>
  The parser of the connections put together: the loop of a connection with the grammar and a
  lexer in the place of the parser's parameter. The sample at the end runs the program's own lexer.
\<close>

lemma grammar_parser_ok:
  assumes "he_spirit env = tokenize_and_parse ids lexer pos" "ids_ok ids" "token_source lexer pos"
  shows "parser_ok env"
  unfolding parser_ok_def assms(1) using token_source.parse_takes [OF assms(3,2)] by blast

text \<open>A request and the bytes it was taken from, by the grammar.\<close>

definition derived_from :: "token_ids \<Rightarrow> bytes \<Rightarrow> HttpRequest \<Rightarrow> bool" where
  "derived_from ids raw req \<longleftrightarrow> (\<exists>pre f. request_tokens ids pre f \<and> prefix (concat (map snd pre)) raw \<and>
     req = (f new_HttpRequest)\<lparr>request_length := of_nat (length raw)\<rparr>)"

lemma parsed_derived:
  assumes "he_spirit env = tokenize_and_parse ids lexer pos" "ids_ok ids" "token_source lexer pos"
    and "parsed_as env raw req"
  shows "derived_from ids raw req"
proof -
  from assms(4,1) obtain more v
    where p: "tokenize_and_parse ids lexer pos (raw @ more) new_HttpRequest = (True, v, length raw)"
      "req = v\<lparr>request_length := of_nat (length raw)\<rparr>" by (auto simp: parsed_as_def)
  from token_source.parse_takes [OF assms(3,2) p(1)] p(2) show ?thesis by (auto simp: derived_from_def)
qed

text \<open>
  C8: what a connection serves is what the grammar derives. Whatever the lexer, as long as it cuts
  its input into tokens that are not empty, and whatever the sizes of the reads: the bytes
  received are the requests done with, one after the other, and what is still in the buffer;
  and each of these requests is the one the grammar derives from the beginning of its bytes.
\<close>

theorem served_requests_derived:
  assumes "conn_run env key es c" "he_spirit env = tokenize_and_parse ids lexer pos"
    and "ids_ok ids" "token_source lexer pos"
  shows "received es = concat (map fst (handled es)) @ received_data c \<and>
    (\<forall>(raw, req) \<in> set (handled es). raw \<noteq> [] \<and> derived_from ids raw req)"
  using conn_run_ok [OF assms(1) grammar_parser_ok [OF assms(2-4)]] parsed_derived [OF assms(2-4)] by fast

section \<open>A sample run\<close>

definition sample_sent :: "client_header list" where
  "sample_sent = [Host_header (bytes_of ''2.example.com''), Accept_header [Gzip, Deflate]]"

definition sample_text :: bytes where
  "sample_text = request_text GET (bytes_of ''/'') HTTP_1_1 sample_sent"

definition sample_service_env :: http_env where
  "sample_service_env = sample_http_env
     \<lparr>he_spirit := tokenize_and_parse spirit_ids (HeaderLexer spirit_ids) (text_taken spirit_ids)\<rparr>"

lemma sample_text_parsed:
  "he_spirit sample_service_env sample_text new_HttpRequest = (True, sample_parsed, length sample_text)"
proof -
  have good: "solid_text (bytes_of ''/'')" "list_all good_header sample_sent" by code_simp+
  from request_lexed [OF _ good(1) _ good(2), of GET HTTP_1_1 spirit_ids "[]"] obtain pre f
    where p: "HeaderLexer spirit_ids sample_text = pre" "concat (map snd pre) = sample_text" "request_tokens spirit_ids pre f"
      "\<And>r. f r = fold header_effect sample_sent (r\<lparr>meth := GET, uri := bytes_of ''/'', version := HTTP_1_1\<rparr>)"
    by (auto simp: sample_text_def)
  from start_hit [OF spirit_ids_ok p(3), of new_HttpRequest "[]"] p(1,2) show ?thesis
    by (simp add: sample_service_env_def tokenize_and_parse_def text_taken_def p(4))
      (simp add: sample_sent_def sample_parsed_def new_HttpRequest_def)
qed

text \<open>The request is received in one read, and its reply is written.\<close>

definition sample_filled_in :: connection where
  "sample_filled_in = count_stats (\<lambda>s. s\<lparr>bytes_received := bytes_received s + of_nat (length sample_text)\<rparr>)
     (sample_start\<lparr>cn_buffer := put_at (cn_buffer sample_start) 0 sample_text, cn_request_bytes := length sample_text\<rparr>)"

definition sample_served :: connection where
  "sample_served = process sample_service_env 1 1 1 sample_filled_in"

lemma sample_filled_in_data: "received_data sample_filled_in = sample_text"
  by (simp add: sample_filled_in_def received_data_def put_at_def)

lemma sample_text_length: "length sample_text = 71" "unat (of_nat (length sample_text) :: u32) = length sample_text"
proof -
  show "length sample_text = 71" by code_simp
  then show "unat (of_nat (length sample_text) :: u32) = length sample_text" by simp
qed

lemma sample_text_fits: "sample_text \<noteq> []" "length sample_text \<le> request_buffer_size"
  using sample_text_length by (auto simp: request_buffer_size_def)

lemma sample_served_on_read: "on_read sample_service_env 1 1 1 (Some sample_text) sample_start = sample_served"
  by (simp add: on_read_def sample_served_def sample_filled_in_def sample_start sample_open)

lemmas sample_frame = process_parsed_frame [of sample_service_env sample_filled_in sample_parsed "length sample_text" 1 1 1,
    unfolded sample_filled_in_data, OF sample_text_parsed, folded sample_served_def]

lemma sample_served_request:
  "take (unat (request_length (cn_req sample_served))) (received_data sample_served) = sample_text"
  using sample_frame(1,2) sample_text_length by simp

lemma sample_serves:
  "cn_pc sample_served = Writing \<and> \<not> cr_close_on_reply (cn_reply sample_served) \<and> is_open 1 sample_served"
proof -
  have "GetHost sample_lex sample_config sample_data (bytes_of ''2.example.com'') = Inr (Default, 2)" by code_simp
  then have "GetHost (he_lexcast sample_service_env) (he_config sample_service_env)
      (cn_data sample_filled_in) (host sample_parsed) = Inr (Default, 2)"
    by (simp add: sample_service_env_def sample_http_env_def sample_filled_in_def sample_start sample_parsed_def
        sample_connection_def new_connection_def)
  moreover have "date_ok (re_date (he_reply sample_service_env) 1)"
    using sample_date_ok by (simp add: sample_service_env_def sample_http_env_def)
  moreover have "served sample_parsed" by (simp add: served_def sample_parsed_def new_HttpRequest_def) code_simp
  moreover have "version sample_parsed = HTTP_1_1" by (simp add: sample_parsed_def new_HttpRequest_def)
  ultimately have "cn_pc sample_served = Writing \<and> \<not> cr_close_on_reply (cn_reply sample_served)"
    using request_answer [of sample_service_env sample_filled_in sample_parsed "length sample_text" 2 1 1 1]
      sample_text_parsed sample_filled_in_data
    by (auto simp: sample_served_def Let_def split: prod.splits)
  then show ?thesis
    using sample_frame(3) sample_open(1)
    by (simp add: sample_filled_in_def sample_start is_open_def count_stats_def)
qed

lemma sample_served_run: "conn_run sample_service_env 1
    ([Received sample_text] @ [Handled sample_text (sample_parsed\<lparr>request_length := of_nat (length sample_text)\<rparr>)])
    (on_written sample_service_env 1 1 1 True sample_served)"
proof -
  let ?req = "sample_parsed\<lparr>request_length := of_nat (length sample_text)\<rparr>"
  have "conn_run sample_service_env 1 [] sample_start"
    using conn_start [of "replicate request_buffer_size 0" sample_service_env 1 5 5 "[]" new_HttpRequest sample_data sample_mgr]
    by (simp add: sample_start_def sample_connection_def [symmetric] next_round_def sample_open)
  moreover have "conn_step sample_service_env 1 sample_start [Received sample_text] sample_served"
    using step_read [of sample_start sample_text sample_service_env 1 1 1] sample_text_fits
    by (simp add: sample_served_on_read) (simp add: sample_start sample_open)
  ultimately have "conn_run sample_service_env 1 [Received sample_text] sample_served"
    by (metis append_Nil conn_next)
  moreover have "conn_step sample_service_env 1 sample_served [Handled sample_text ?req]
      (on_written sample_service_env 1 1 1 True sample_served)"
    using step_written [of sample_served sample_service_env 1 True 1 1] sample_serves
    by (simp add: kept_open_def sample_frame(1,2) sample_text_length)
  ultimately show ?thesis by (rule conn_next)
qed

theorem served_requests_derived_witness:
  "derived_from spirit_ids sample_text (sample_parsed\<lparr>request_length := of_nat (length sample_text)\<rparr>)"
  using served_requests_derived [OF sample_served_run _ spirit_ids_ok own_lexer.token_source_axioms]
  by (simp add: sample_service_env_def)

end
