(* ===== verification/HttpPipeline.thy ===== *)
theory HttpPipeline
  imports HttpService
begin

text \<open>
  Requests that a client pipelines: the loop of a connection, the parser with the program's own
  lexer, the resolution of the host and the reply put together. What the client sends in one go
  is answered request by request, and the client reads all the answers.
\<close>

section \<open>The client's side\<close>

text \<open>A request for the root page by the method and headers it is sent with.\<close>

type_synonym sent_request = "Method \<times> client_header list"

fun sent_text :: "sent_request \<Rightarrow> bytes" where
  "sent_text (m, hs) = request_text m (bytes_of ''/'') HTTP_1_1 hs"

fun meant :: "sent_request \<Rightarrow> HttpRequest" where
  "meant (m, hs) = fold header_effect hs (new_HttpRequest\<lparr>meth := m, uri := bytes_of ''/'', version := HTTP_1_1\<rparr>)"

fun good_request :: "sent_request \<Rightarrow> bool" where
  "good_request (m, hs) \<longleftrightarrow> m \<in> {GET, HEAD} \<and> list_all good_header hs"

text \<open>The status lines and bodies a client reads, when it knows the methods it has sent.\<close>

fun read_replies :: "bool list \<Rightarrow> bytes \<Rightarrow> (bytes \<times> bytes) list option" where
  "read_replies [] s = (if s = [] then Some [] else None)"
| "read_replies (h # hs) s =
     (case read_reply h s of
        Some (l # ls, body, rest) \<Rightarrow> map_option (Cons (l, body)) (read_replies hs rest)
      | _ \<Rightarrow> None)"

text \<open>What it should read: the pages of the default hosts, counted one by one.\<close>

fun expected_replies :: "http_env \<Rightarrow> host_data \<Rightarrow> (sent_request \<times> nat) list \<Rightarrow> (bytes \<times> bytes) list \<times> host_data" where
  "expected_replies env data [] = ([], data)"
| "expected_replies env data ((q, ix) # qs) =
     (let (code, message, body, data') = default_answer env ix data (meant q);
          (more, data'') = expected_replies env data' qs
      in ((status_line code message (meant q), if meth (meant q) = HEAD then [] else body) # more, data''))"

section \<open>The server's side\<close>

text \<open>The replies of a number of rounds, each of which is written without an error.\<close>

fun write_replies :: "http_env \<Rightarrow> u64 \<Rightarrow> int \<Rightarrow> nat \<Rightarrow> connection \<Rightarrow> bytes \<times> connection" where
  "write_replies env key now 0 c = ([], c)"
| "write_replies env key now (Suc n) c =
     (let (more, c') = write_replies env key now n (on_written env key now now True c)
      in (concat (cr_buffers (cn_reply c)) @ more, c'))"

lemma meant_fields:
  "meth (meant (m, hs)) = m" "uri (meant (m, hs)) = bytes_of ''/''" "version (meant (m, hs)) = HTTP_1_1"
proof -
  have c: "meth (coding_effect x r) = meth r" "uri (coding_effect x r) = uri r" "version (coding_effect x r) = version r"
    for x and r :: HttpRequest by (cases x; simp)+
  have cs: "meth (fold coding_effect xs r) = meth r" "uri (fold coding_effect xs r) = uri r"
    "version (fold coding_effect xs r) = version r" for xs and r :: HttpRequest
    by (induction xs arbitrary: r) (simp_all add: c)
  have h: "meth (header_effect x r) = meth r" "uri (header_effect x r) = uri r" "version (header_effect x r) = version r"
    for x and r :: HttpRequest by (cases x; simp add: cs)+
  have "meth (fold header_effect hs r) = meth r" "uri (fold header_effect hs r) = uri r"
    "version (fold header_effect hs r) = version r" for r :: HttpRequest
    by (induction hs arbitrary: r) (simp_all add: h)
  then show "meth (meant (m, hs)) = m" "uri (meant (m, hs)) = bytes_of ''/''" "version (meant (m, hs)) = HTTP_1_1"
    by simp_all
qed

lemma meant_served: "good_request q \<Longrightarrow> served (meant q) \<and> version (meant q) = HTTP_1_1"
proof (cases q)
  case (Pair m hs)
  moreover have "real_path (bytes_of ''/'') = bytes_of ''/''" by code_simp
  moreover assume "good_request q"
  ultimately show ?thesis by (auto simp: served_def meant_fields simp del: meant.simps)
qed

lemma written_parsed:
  assumes "he_spirit env = tokenize_and_parse ids (HeaderLexer ids) (text_taken ids)" "ids_ok ids"
    and "good_request q"
  shows "he_spirit env (sent_text q @ s) new_HttpRequest = (True, meant q, length (sent_text q))"
proof -
  obtain m hs where q: "q = (m, hs)" by (cases q)
  with assms(3) have good: "m \<noteq> METHOD_UNKNOWN" "list_all good_header hs" by auto
  have u: "solid_text (bytes_of ''/'')" by code_simp
  have ver: "HTTP_1_1 \<noteq> VERSION_UNKNOWN" by simp
  obtain pre f where p: "HeaderLexer ids (sent_text q @ s) = pre @ tokenize ids ST_HEADER_NAME s"
      "concat (map snd pre) = sent_text q" "request_tokens ids pre f"
      "\<And>r. f r = fold header_effect hs (r\<lparr>meth := m, uri := bytes_of ''/'', version := HTTP_1_1\<rparr>)"
    using request_lexed [OF good(1) u ver good(2), of ids s] unfolding q sent_text.simps by blast
  have "text_taken ids (sent_text q @ s) (tokenize ids ST_HEADER_NAME s) = length (sent_text q)"
    by (simp add: text_taken_def p(1,2))
  with start_hit [OF assms(2) p(3), of new_HttpRequest "tokenize ids ST_HEADER_NAME s"] p(1,4) show ?thesis
    by (simp add: assms(1) tokenize_and_parse_def q)
qed

text \<open>A request of a default host, by its resolution. Hits do not change it.\<close>

definition addressed :: "http_env \<Rightarrow> host_data \<Rightarrow> sent_request \<times> nat \<Rightarrow> bool" where
  "addressed env data p \<longleftrightarrow> good_request (fst p) \<and>
     GetHost (he_lexcast env) (he_config env) data (host (meant (fst p))) = Inr (Default, snd p)"

lemma template_hit: "host_template (data[j := (data ! j)\<lparr>hostbits := h\<rparr>] ! k) = host_template (data ! k)"
  by (cases "j < length data") (auto simp: nth_list_update list_update_beyond)

lemma GetHost_hit: "GetHost lexcast config (data[j := (data ! j)\<lparr>hostbits := h\<rparr>]) name = GetHost lexcast config data name"
  unfolding GetHost_def template_hit ..

lemma default_answer_hit:
  assumes "good_request q" "default_answer env ix data (meant q) = (code, message, body, data')"
  shows "addressed env data' p = addressed env data p"
  using assms meant_served [OF assms(1)] by (auto simp: default_answer_def addressed_def GetHost_hit Let_def)

lemma default_answer_length: "default_answer env ix data (v\<lparr>request_length := n\<rparr>) = default_answer env ix data v"
  by (simp add: default_answer_def served_def encoded_def Let_def)

lemma status_line_length: "status_line code m (v\<lparr>request_length := n\<rparr>) = status_line code m v"
  by (simp add: status_line_def GetHttpVersionName_def)

lemma sent_text_Nil [simp]: "sent_text q \<noteq> []"
  by (cases q) (simp add: request_text_def)

lemma leave_need_more: "cn_need_more (leave key c) = cn_need_more c"
  by (simp add: leave_def Close_def Let_def)

lemma answer_need_more: "cn_need_more (answer_request env key now1 now2 c) = cn_need_more c"
  by (auto simp: answer_request_def leave_need_more Let_def
      split: sum.splits vhost_exn.splits host_exn.splits prod.splits)

lemma process_need_more: "cn_need_more (process env key now1 now2 c)"
proof -
  let ?c0 = "c\<lparr>cn_request_state := UNSET, cn_need_more := True\<rparr>"
  obtain result c1 where p: "ParseRequest env ?c0 = (result, c1)" by (cases "ParseRequest env ?c0")
  then have "cn_need_more c1" by (auto simp: ParseRequest_def Let_def split: prod.splits if_splits)
  then show ?thesis
    by (cases result) (simp_all add: process_def p answer_need_more leave_need_more Let_def)
qed

text \<open>The requests that the buffer holds, the first of which has not been parsed.\<close>

definition holding :: "u64 \<Rightarrow> sent_request list \<Rightarrow> connection \<Rightarrow> bool" where
  "holding key qs c \<longleftrightarrow> length (cn_buffer c) = request_buffer_size \<and> cn_request_bytes c \<le> request_buffer_size \<and>
     received_data c = concat (map sent_text qs) \<and> is_open key c"

lemma consumed:
  assumes "holding key (q # qs) c" "unat (request_length (cn_req c)) = length (sent_text q)" "cn_need_more c"
  shows "holding key qs (consume_request c)" "cn_need_more (consume_request c) \<longleftrightarrow> qs = []"
    "cn_data (consume_request c) = cn_data c"
    "qs = [] \<Longrightarrow> cn_request_bytes (consume_request c) = 0"
proof -
  let ?n = "length (sent_text q)"
  from assms(1) have "cn_request_bytes c \<le> length (cn_buffer c)" by (simp add: holding_def)
  then have "length (received_data c) = cn_request_bytes c" by (simp add: received_data_def)
  moreover have "received_data c = sent_text q @ concat (map sent_text qs)" using assms(1) by (simp add: holding_def)
  ultimately have eq: "cn_request_bytes c = ?n + length (concat (map sent_text qs))" by (metis length_append)
  with consume_request_data [of c] assms show "holding key qs (consume_request c)"
    by (auto simp: holding_def consume_request_def is_open_def Let_def)
  have "length (concat (map sent_text qs)) = 0 \<longleftrightarrow> qs = []" by (cases qs) auto
  with eq assms(2,3) show "cn_need_more (consume_request c) \<longleftrightarrow> qs = []"
    "qs = [] \<Longrightarrow> cn_request_bytes (consume_request c) = 0"
    by (auto simp: consume_request_def Let_def)
  show "cn_data (consume_request c) = cn_data c" by (simp add: consume_request_def Let_def)
qed
lemma counted_data [simp]: "cn_data (end_request c) = cn_data c" "cn_data (leave key c) = cn_data c"
  by (simp_all add: end_request_def leave_def Close_def close_socket_def Let_def)

text \<open>One round: the reply to the first request, and what is left to do when it is written.\<close>

lemma round_served:
  assumes "he_spirit env = tokenize_and_parse ids (HeaderLexer ids) (text_taken ids)" "ids_ok ids"
    and "now \<noteq> 0" "date_ok (re_date (he_reply env) now)"
    and "addressed env (cn_data c) (q, ix)" "holding key (q # qs) c"
    and "default_answer env ix (cn_data c) (meant q) = (code, message, body, data')"
  defines "c1 \<equiv> process env key now now c"
  shows "\<exists>ls. read_reply (meth (meant q) = HEAD) (concat (cr_buffers (cn_reply c1)) @ further) =
      Some (status_line code message (meant q) # ls, if meth (meant q) = HEAD then [] else body, further)"
    and "\<exists>d. on_written env key now now True c1 =
        (if qs = [] then d\<lparr>cn_pc := Reading\<rparr> else process env key now now d) \<and>
      holding key qs d \<and> cn_data d = data' \<and> (qs = [] \<longrightarrow> cn_request_bytes d = 0)"
proof -
  let ?n = "length (sent_text q)" and ?v = "meant q"
  from assms(5,6) have good: "good_request q" and rd: "received_data c = sent_text q @ concat (map sent_text qs)"
    and len: "length (cn_buffer c) = request_buffer_size" "cn_request_bytes c \<le> request_buffer_size"
    and op: "is_open key c"
    and host: "GetHost (he_lexcast env) (he_config env) (cn_data c) (host ?v) = Inr (Default, ix)"
    by (simp_all add: addressed_def holding_def)
  have spirit: "he_spirit env (received_data c) new_HttpRequest = (True, ?v, ?n)"
    unfolding rd by (rule written_parsed [OF assms(1,2) good])
  note answer = request_answer [OF spirit host assms(3,4,3,4), of key, folded c1_def, unfolded Let_def,
      unfolded default_answer_length status_line_length assms(7), simplified]
  from answer show "\<exists>ls. read_reply (meth ?v = HEAD) (concat (cr_buffers (cn_reply c1)) @ further) =
      Some (status_line code message ?v # ls, if meth ?v = HEAD then [] else body, further)" by blast
  from answer meant_served [OF good] have st: "cn_pc c1 = Writing" "cn_data c1 = data'" "\<not> cr_close_on_reply (cn_reply c1)"
    by auto
  note frame = process_parsed_frame [OF spirit, of key now now, folded c1_def]
  from process_ok [OF len, of env key now now, folded c1_def]
  have "length (cn_buffer c1) = request_buffer_size" "cn_request_bytes c1 \<le> request_buffer_size" by (simp_all add: conn_ok_def)
  with frame(1,3) st(1) rd op have hold: "holding key (q # qs) c1" by (simp add: holding_def)
  from rd len have "?n \<le> request_buffer_size"
    by (metis dual_order.trans le_add1 length_append length_take min.bounded_iff received_data_def)
  then have "unat (of_nat ?n :: u32) = ?n" by (simp add: unat_of_nat take_bit_eq_mod request_buffer_size_def)
  with frame(2) have n: "unat (request_length (cn_req c1)) = ?n" by simp
  let ?c2 = "count_stats (\<lambda>s. s\<lparr>bytes_sent := bytes_sent s + of_nat (cr_bytes_in_reply (cn_reply c1))\<rparr>) c1"
  let ?d = "end_request (consume_request ?c2)"
  have "holding key (q # qs) ?c2" "unat (request_length (cn_req ?c2)) = ?n" "cn_need_more ?c2"
    using hold n process_need_more by (simp_all add: holding_def received_data_def c1_def)
  note rest = consumed [OF this]
  have h: "holding key qs ?d" using rest(1) by (simp add: holding_def received_data_def)
  moreover have "on_written env key now now True c1 = next_round env key now now ?d"
    using st hold by (simp add: on_written_def holding_def Let_def)
  moreover have "is_open key ?d" using h by (simp add: holding_def)
  ultimately show "\<exists>d. on_written env key now now True c1 =
        (if qs = [] then d\<lparr>cn_pc := Reading\<rparr> else process env key now now d) \<and>
      holding key qs d \<and> cn_data d = data' \<and> (qs = [] \<longrightarrow> cn_request_bytes d = 0)"
    using rest st(2) by (intro exI [of _ ?d]) (auto simp: next_round_def)
qed
lemma rounds_served:
  assumes env: "he_spirit env = tokenize_and_parse ids (HeaderLexer ids) (text_taken ids)" "ids_ok ids"
    "now \<noteq> 0" "date_ok (re_date (he_reply env) now)"
  shows "list_all (addressed env (cn_data c)) qs \<Longrightarrow> qs \<noteq> [] \<Longrightarrow> holding key (map fst qs) c \<Longrightarrow>
    write_replies env key now (length qs) (process env key now now c) = (out, c') \<Longrightarrow>
    read_replies (map (\<lambda>(q, ix). meth (meant q) = HEAD) qs) out = Some (fst (expected_replies env (cn_data c) qs)) \<and>
    cn_data c' = snd (expected_replies env (cn_data c) qs) \<and>
    cn_pc c' = Reading \<and> cn_request_bytes c' = 0 \<and> is_open key c'"
proof (induction qs arbitrary: c out)
  case (Cons p qs)
  obtain q ix where p: "p = (q, ix)" by (cases p)
  obtain code message body data' where a: "default_answer env ix (cn_data c) (meant q) = (code, message, body, data')"
    by (metis prod_cases4)
  let ?c1 = "process env key now now c"
  have here: "addressed env (cn_data c) (q, ix)" "holding key (q # map fst qs) c"
    using Cons.prems(1,3) by (simp_all add: p)
  note served = round_served [OF env here a]
  from served(2) obtain d where d: "on_written env key now now True ?c1 =
        (if map fst qs = [] then d\<lparr>cn_pc := Reading\<rparr> else process env key now now d)"
    "holding key (map fst qs) d" "cn_data d = data'" "map fst qs = [] \<longrightarrow> cn_request_bytes d = 0" by blast
  obtain out' where w: "write_replies env key now (length qs) (on_written env key now now True ?c1) = (out', c')"
    and out: "out = concat (cr_buffers (cn_reply ?c1)) @ out'"
    using Cons.prems(4) by (auto simp: Let_def split: prod.splits)
  have rest: "read_replies (map (\<lambda>(q, ix). meth (meant q) = HEAD) qs) out' = Some (fst (expected_replies env data' qs)) \<and>
      cn_data c' = snd (expected_replies env data' qs) \<and> cn_pc c' = Reading \<and> cn_request_bytes c' = 0 \<and> is_open key c'"
  proof (cases "qs = []")
    case True
    with w d(1) have "c' = d\<lparr>cn_pc := Reading\<rparr>" "out' = []" by simp_all
    with d(2-4) True show ?thesis by (simp add: holding_def is_open_def)
  next
    case False
    have "addressed env data' x = addressed env (cn_data c) x" for x
      using default_answer_hit [OF _ a] here(1) by (simp add: addressed_def)
    then have "addressed env data' = addressed env (cn_data c)" by blast
    with Cons.prems(1) d(3) have "list_all (addressed env (cn_data d)) qs" by simp
    from Cons.IH [OF this False d(2), of out'] w d(1,3) False show ?thesis by simp
  qed
  obtain ls where "read_reply (meth (meant q) = HEAD) out =
      Some (status_line code message (meant q) # ls, if meth (meant q) = HEAD then [] else body, out')"
    using served(1) [of out'] unfolding out by blast
  with rest show ?case by (simp add: p a Let_def split: prod.splits)
qed simp

lemma rounds_of_client:
  assumes "he_spirit env = tokenize_and_parse ids (HeaderLexer ids) (text_taken ids)" "ids_ok ids"
    and "now \<noteq> 0" "date_ok (re_date (he_reply env) now)"
    and "cn_request_bytes c = 0" "length (cn_buffer c) = request_buffer_size" "is_open key c"
    and "qs \<noteq> []" "list_all (addressed env (cn_data c)) qs"
    and "length (concat (map (sent_text \<circ> fst) qs)) \<le> request_buffer_size"
  shows "let (replies, c') = write_replies env key now (length qs)
        (on_read env key now now (Some (concat (map (sent_text \<circ> fst) qs))) c);
      (answers, data') = expected_replies env (cn_data c) qs in
    read_replies (map (\<lambda>(q, ix). meth (meant q) = HEAD) qs) replies = Some answers \<and>
    cn_data c' = data' \<and> cn_pc c' = Reading \<and> cn_request_bytes c' = 0 \<and> is_open key c'"
proof -
  let ?text = "concat (map (sent_text \<circ> fst) qs)"
  let ?c = "count_stats (\<lambda>s. s\<lparr>bytes_received := bytes_received s + of_nat (length ?text)\<rparr>)
     (c\<lparr>cn_buffer := put_at (cn_buffer c) 0 ?text, cn_request_bytes := length ?text\<rparr>)"
  have "holding key (map fst qs) ?c"
    using assms(6,7,10) by (simp add: holding_def received_data_def put_at_def) (simp add: is_open_def count_stats_def)
  moreover have "list_all (addressed env (cn_data ?c)) qs" using assms(9) by simp
  moreover have "on_read env key now now (Some ?text) c = process env key now now ?c"
    using assms(5) by (simp add: on_read_def)
  moreover obtain out c' where "write_replies env key now (length qs) (process env key now now ?c) = (out, c')"
    by (cases "write_replies env key now (length qs) (process env key now now ?c)")
  ultimately show ?thesis
    using rounds_served [OF assms(1-4), of ?c qs key out c'] assms(8) by (simp add: split_beta)
qed

text \<open>
  C5: pipelined requests are all served. A client sends any number of requests in one go, which fit into the buffer together,
  to an open connection with an empty buffer: GET and HEAD requests by HTTP/1.1 for the root page of hosts of the default class, each with headers as
  \<open>good_header\<close> has them, a host, DNT, Accept-Encoding with the codings gzip, deflate and br only, and other headers with words after single blanks. When no
  write fails, then after as many writes as
  there are requests it has read as many replies, in the order of the requests, each the page
  of its host with the hits counted up to there; the connection is still open, its buffer is
  empty and it waits for more. The parser is relied on to stop where the tokens it took end.
\<close>

theorem pipelined_requests_served:
  assumes "he_spirit env = tokenize_and_parse ids (HeaderLexer ids) (text_taken ids)" "ids_ok ids"
    and "now \<noteq> 0" "date_ok (re_date (he_reply env) now)"
    and "cn_request_bytes c = 0" "length (cn_buffer c) = request_buffer_size" "is_open key c"
    and "qs \<noteq> []" "list_all (addressed env (cn_data c)) qs"
    and "length (concat (map (sent_text \<circ> fst) qs)) \<le> request_buffer_size"
  shows "let (replies, c') = write_replies env key now (length qs)
        (on_read env key now now (Some (concat (map (sent_text \<circ> fst) qs))) c);
      (answers, data') = expected_replies env (cn_data c) qs in
    read_replies (map (\<lambda>(q, ix). meth (meant q) = HEAD) qs) replies = Some answers \<and>
    cn_data c' = data' \<and> cn_pc c' = Reading \<and> cn_request_bytes c' = 0 \<and> is_open key c'"
  using assms by (rule rounds_of_client)

section \<open>A sample\<close>

text \<open>A page for one host, its header only, and the page of another host.\<close>

definition sample_pipeline :: "(sent_request \<times> nat) list" where
  "sample_pipeline =
     [((GET, [Host_header (bytes_of ''2.example.com'')]), 2),
      ((HEAD, [Host_header (bytes_of ''2.example.com''), Dnt_header True]), 2),
      ((GET, [Host_header (bytes_of ''0.example.com'')]), 0)]"

theorem pipelined_requests_served_witness:
  "let (replies, c') = write_replies sample_service_env 1 1 3
        (on_read sample_service_env 1 1 1 (Some (concat (map (sent_text \<circ> fst) sample_pipeline))) sample_start);
      (answers, data') = expected_replies sample_service_env (cn_data sample_start) sample_pipeline in
    read_replies (map (\<lambda>(q, ix). meth (meant q) = HEAD) sample_pipeline) replies = Some answers \<and>
    cn_data c' = data' \<and> cn_pc c' = Reading \<and> cn_request_bytes c' = 0 \<and> is_open 1 c'"
proof -
  have env: "he_spirit sample_service_env = tokenize_and_parse spirit_ids (HeaderLexer spirit_ids) (text_taken spirit_ids)"
    "date_ok (re_date (he_reply sample_service_env) 1)"
    using sample_date_ok by (simp_all add: sample_service_env_def sample_http_env_def)
  have hosts: "GetHost sample_lex sample_config sample_data (bytes_of ''2.example.com'') = Inr (Default, 2)"
    "GetHost sample_lex sample_config sample_data (bytes_of ''0.example.com'') = Inr (Default, 0)" by code_simp+
  have "list_all (good_request \<circ> fst) sample_pipeline" by code_simp
  with hosts have "list_all (addressed sample_service_env (cn_data sample_start)) sample_pipeline"
    by (simp add: sample_pipeline_def addressed_def sample_service_env_def sample_http_env_def sample_start
        sample_connection_def new_connection_def new_HttpRequest_def)
  moreover have "length (concat (map (sent_text \<circ> fst) sample_pipeline)) \<le> request_buffer_size" by code_simp
  moreover have "sample_pipeline \<noteq> []" "length sample_pipeline = 3" by (simp_all add: sample_pipeline_def)
  moreover have "is_open 1 sample_start" "cn_request_bytes sample_start = 0"
    "length (cn_buffer sample_start) = request_buffer_size"
    using sample_open by (simp_all add: sample_start is_open_def sample_connection_def new_connection_def)
  ultimately show ?thesis
    using pipelined_requests_served [OF env(1) spirit_ids_ok _ env(2), of sample_start 1 sample_pipeline] by simp
qed
end
