(* ===== verification/HttpStarted.thy ===== *)
theory HttpStarted
  imports Startup HttpPipeline
begin

text \<open>
  From the data file to the client: the bytes of the file as the array of \<open>PackedHostData\<close>
  (\<open>include/Hosts.h\<close>) that \<open>VectorVhostManager\<close> maps it to (\<open>src/daemon/VhostManager.cpp\<close>), and
  the hits of a server that is stopped and started again.
\<close>

section \<open>The data file as the hosts' data\<close>

text \<open>
  The mapped file is read as an array of \<open>PackedHostData\<close>: three bit fields of a word of 32 bits, from its low end
  on a machine with that byte order, from its high end on one with the other.
\<close>

definition word_of_host :: "endian \<Rightarrow> PackedHostData \<Rightarrow> u32" where
  "word_of_host e h = (case e of
     Little \<Rightarrow> ucast (hostbits h) OR push_bit 23 (ucast (host_template h)) OR push_bit 28 (ucast (reserved h))
   | Big \<Rightarrow> push_bit 9 (ucast (hostbits h)) OR push_bit 4 (ucast (host_template h)) OR ucast (reserved h))"

definition host_of_word :: "endian \<Rightarrow> u32 \<Rightarrow> PackedHostData" where
  "host_of_word e w = (case e of
     Little \<Rightarrow> \<lparr>hostbits = ucast w, host_template = ucast (drop_bit 23 w), reserved = ucast (drop_bit 28 w)\<rparr>
   | Big \<Rightarrow> \<lparr>hostbits = ucast (drop_bit 9 w), host_template = ucast (drop_bit 4 w), reserved = ucast w\<rparr>)"

definition bytes_of_word :: "endian \<Rightarrow> u32 \<Rightarrow> bytes" where
  "bytes_of_word e w = (case e of Little \<Rightarrow> rev (htonl_bytes w) | Big \<Rightarrow> htonl_bytes w)"

fun data_of_file :: "endian \<Rightarrow> bytes \<Rightarrow> host_data" where
  "data_of_file e (a # b # c # d # bs) =
     host_of_word e (case e of Little \<Rightarrow> ntohl_bytes d c b a | Big \<Rightarrow> ntohl_bytes a b c d) # data_of_file e bs"
| "data_of_file e _ = []"

text \<open>
  The array and the file are the same memory: a file is what the server leaves when it reads as the array, one word for each site.
  There is always one, which \<open>file_of_data\<close> gives.
\<close>

definition mapped :: "endian \<Rightarrow> bytes \<Rightarrow> host_data \<Rightarrow> bool" where
  "mapped e file data \<longleftrightarrow> length file = length data * 4 \<and> data_of_file e file = data"

definition file_of_data :: "endian \<Rightarrow> host_data \<Rightarrow> bytes" where
  "file_of_data e data = concat (map (\<lambda>h. bytes_of_word e (word_of_host e h)) data)"

lemma host_of_word_of_host: "host_of_word e (word_of_host e h) = h"
proof (cases e)
  case Little
  have "ucast (word_of_host e h) = hostbits h" "ucast (drop_bit 23 (word_of_host e h)) = host_template h"
    "ucast (drop_bit 28 (word_of_host e h)) = reserved h"
    by (rule bit_word_eqI; auto simp: Little word_of_host_def bit_simps dest: bit_imp_le_length)+
  with Little show ?thesis by (simp add: host_of_word_def)
next
  case Big
  have "ucast (drop_bit 9 (word_of_host e h)) = hostbits h" "ucast (drop_bit 4 (word_of_host e h)) = host_template h"
    "ucast (word_of_host e h) = reserved h"
    by (rule bit_word_eqI; auto simp: Big word_of_host_def bit_simps dest: bit_imp_le_length)+
  with Big show ?thesis by (simp add: host_of_word_def)
qed

lemma data_of_file_of_data: "data_of_file e (file_of_data e data) = data"
proof (induction data)
  case (Cons h data)
  have "data_of_file e (bytes_of_word e w @ bs) = host_of_word e w # data_of_file e bs" for w bs
    by (cases e) (simp_all add: bytes_of_word_def htonl_bytes_def ntohl_htonl)
  with Cons show ?case by (simp add: file_of_data_def host_of_word_of_host)
qed (simp add: file_of_data_def)

lemma length_file_of_data: "length (file_of_data e data) = length data * 4"
  by (induction data) (auto simp: file_of_data_def bytes_of_word_def split: endian.split)

lemma mapped_file: "mapped e (file_of_data e data) data"
  by (simp add: mapped_def length_file_of_data data_of_file_of_data)

definition new_host :: PackedHostData where
  "new_host = \<lparr>hostbits = 0, host_template = 0, reserved = 0\<rparr>"

lemma data_of_new_file: "data_of_file e (replicate (n * 4) 0) = replicate n new_host"
proof (induction n)
  case (Suc n)
  have "replicate (Suc n * 4) (0 :: byte) = 0 # 0 # 0 # 0 # replicate (n * 4) 0"
    by (simp add: numeral_eq_Suc)
  with Suc show ?case by (cases e) (simp_all add: host_of_word_def ntohl_bytes_def new_host_def)
qed simp

section \<open>The hits of a server that is stopped and started again\<close>

lemma ParseHttpConfig_recreate:
  "ParseHttpConfig lib pt conf = Inr (http, ips) \<Longrightarrow> recreate_mmap_file http = recreate_mmap_file conf"
  by (auto simp: ParseHttpConfig_def Let_def)

text \<open>The hits that a start finds: those of the file, or none.\<close>

definition hits_found :: "endian \<Rightarrow> bool \<Rightarrow> bytes option \<Rightarrow> nat \<Rightarrow> host_data" where
  "hits_found e recreate file sites = (case file of
     Some old \<Rightarrow> if recreate \<or> length old \<noteq> sites * 4 then replicate sites new_host else data_of_file e old
   | None \<Rightarrow> replicate sites new_host)"

lemma started_data:
  assumes "start_up me incoming conf = Inr r"
  shows "data_of_file e (ru_data r) = hits_found e (cf_recreate_mmap_file conf) (me_file me (data_mmap_file (ru_http_config r)))
    (unat (num_sites (ru_http_config r)))"
proof -
  from start_up_Inr [OF assms] obtain http_pt http_ips where
    r: "ParseHttpConfig (me_ptree me) http_pt (default_config\<lparr>recreate_mmap_file := cf_recreate_mmap_file conf\<rparr>) = Inr (ru_http_config r, http_ips)"
      "ru_data r = open_data (me_file me (data_mmap_file (ru_http_config r))) (ru_http_config r)" by metis
  from ParseHttpConfig_recreate [OF r(1)] have "recreate_mmap_file (ru_http_config r) = cf_recreate_mmap_file conf" by simp
  with r(2) show ?thesis
    by (auto simp: hits_found_def open_data_def PreAllocateMmapFile_def data_of_new_file Let_def split: option.splits)
qed

lemma expected_replies_length: "list_all (addressed env data) qs \<Longrightarrow> length (snd (expected_replies env data qs)) = length data"
proof (induction qs arbitrary: data)
  case (Cons p qs)
  obtain q ix where p: "p = (q, ix)" by (cases p)
  obtain code message body data' where a: "default_answer env ix data (meant q) = (code, message, body, data')"
    by (metis prod_cases4)
  have "addressed env data' x = addressed env data x" for x
    using default_answer_hit [OF _ a] Cons.prems by (simp add: addressed_def p)
  then have "addressed env data' = addressed env data" by blast
  with Cons have "length (snd (expected_replies env data' qs)) = length data'" by simp
  moreover have "length data' = length data" using a by (auto simp: default_answer_def Let_def split: if_splits)
  ultimately show ?case by (simp add: p a Let_def split_beta)
qed simp

text \<open>
  The first client of a server: a connection is made, its coroutine runs up to the first read, which gets all that the client
  sends, and then writes its replies.
\<close>

type_synonym client = "(sent_request \<times> nat) list"

definition first_client :: "http_env \<Rightarrow> u64 \<Rightarrow> int \<Rightarrow> client \<Rightarrow> bytes \<Rightarrow> ConnectionMgr \<Rightarrow> host_data \<Rightarrow> bytes \<times> connection" where
  "first_client env key now qs buffer mgr data =
     write_replies env key now (length qs)
       (on_read env key now now (Some (concat (map (sent_text \<circ> fst) qs)))
         (next_round env key now now (new_connection buffer [] new_HttpRequest data mgr)))"

definition client_ready :: "http_env \<Rightarrow> HttpConfig \<Rightarrow> token_ids \<Rightarrow> u64 \<Rightarrow> int \<Rightarrow> client \<Rightarrow> bytes \<Rightarrow> ConnectionMgr \<Rightarrow> host_data \<Rightarrow> bool" where
  "client_ready env config ids key now qs buffer mgr data \<longleftrightarrow>
     he_config env = config \<and> he_spirit env = tokenize_and_parse ids (HeaderLexer ids) (text_taken ids) \<and> ids_ok ids \<and>
     now \<noteq> 0 \<and> date_ok (re_date (he_reply env) now) \<and> length buffer = request_buffer_size \<and> key \<in> cm_open mgr \<and>
     qs \<noteq> [] \<and> list_all (addressed env data) qs \<and> length (concat (map (sent_text \<circ> fst) qs)) \<le> request_buffer_size"

lemma first_client_served:
  assumes "client_ready env config ids key now qs buffer mgr data"
  shows "let (replies, c) = first_client env key now qs buffer mgr data; (answers, data') = expected_replies env data qs in
    read_replies (map (\<lambda>(q, ix). meth (meant q) = HEAD) qs) replies = Some answers \<and> cn_data c = data' \<and> length data' = length data"
proof -
  let ?c = "next_round env key now now (new_connection buffer [] new_HttpRequest data mgr)"
  have ready: "he_spirit env = tokenize_and_parse ids (HeaderLexer ids) (text_taken ids)" "ids_ok ids" "now \<noteq> 0"
    "date_ok (re_date (he_reply env) now)" "length buffer = request_buffer_size" "key \<in> cm_open mgr" "qs \<noteq> []"
    "list_all (addressed env data) qs" "length (concat (map (sent_text \<circ> fst) qs)) \<le> request_buffer_size"
    using assms by (simp_all add: client_ready_def)
  have c: "?c = (new_connection buffer [] new_HttpRequest data mgr)\<lparr>cn_pc := Reading\<rparr>"
    using ready(6) by (simp add: next_round_def new_connection_def is_open_def)
  then have "cn_request_bytes ?c = 0" "length (cn_buffer ?c) = request_buffer_size" "is_open key ?c" "cn_data ?c = data"
    using ready(5,6) by (simp_all add: new_connection_def is_open_def)
  with rounds_of_client [OF ready(1-4), of ?c key qs] ready(7-9) expected_replies_length [OF ready(8)]
  show ?thesis by (simp add: first_client_def split_beta Let_def)
qed

text \<open>
  C6: hits are kept over a restart. A server starts with the hits of its data file, all zero when there is none, one of another
  size, or a new one is asked for; and serves a first client, with requests for the root page of sites that have the
  default template, by HTTP/1.1 and with headers as \<open>good_header\<close> has them, which arrive in one piece of at most the size of the buffer; the parser is relied on to stop where the tokens it
  took end. Each
  reply shows the hits found at the start and those since. A server that is started on the file which that leaves, with the same number
  of sites and no new file asked for, serves its first client with the hits of the first server counted on.
\<close>

theorem restarted_server_counts_on:
  assumes "start_up me incoming conf = Inr r"
    and "data = hits_found e (cf_recreate_mmap_file conf) (me_file me (data_mmap_file (ru_http_config r))) (unat (num_sites (ru_http_config r)))"
    and "client_ready env (ru_http_config r) ids key now qs buffer mgr data"
    and "mapped e file (cn_data (snd (first_client env key now qs buffer mgr (data_of_file e (ru_data r)))))"
    and "start_up me' incoming' conf' = Inr r'" "\<not> cf_recreate_mmap_file conf'"
    and "me_file me' (data_mmap_file (ru_http_config r')) = Some file" "length file = unat (num_sites (ru_http_config r')) * 4"
    and "(pages, data1) = expected_replies env data qs"
    and "client_ready env' (ru_http_config r') ids' key' now' qs' buffer' mgr' data1"
  shows "read_replies (map (\<lambda>(q, ix). meth (meant q) = HEAD) qs)
        (fst (first_client env key now qs buffer mgr (data_of_file e (ru_data r)))) = Some pages \<and>
    read_replies (map (\<lambda>(q, ix). meth (meant q) = HEAD) qs')
        (fst (first_client env' key' now' qs' buffer' mgr' (data_of_file e (ru_data r')))) = Some (fst (expected_replies env' data1 qs'))"
proof -
  from started_data [OF assms(1), of e] assms(2) have first: "data_of_file e (ru_data r) = data" by simp
  with first_client_served [OF assms(3)] assms(4) have served: "mapped e file data1"
    "read_replies (map (\<lambda>(q, ix). meth (meant q) = HEAD) qs) (fst (first_client env key now qs buffer mgr data)) = Some pages"
    using arg_cong [OF assms(9), of fst] arg_cong [OF assms(9), of snd] by (simp_all add: split_beta Let_def)
  have "data_of_file e (ru_data r') = data1"
    using started_data [OF assms(5), of e] assms(6-8) served(1) by (simp add: hits_found_def mapped_def)
  with first_client_served [OF assms(10)] first served(2) show ?thesis by (simp add: split_beta Let_def)
qed

section \<open>A sample restart\<close>

text \<open>A file with a number of hits for site 2.\<close>

definition kept_data :: "nat \<Rightarrow> host_data" where
  "kept_data n = (replicate 4 new_host)[2 := new_host\<lparr>hostbits := of_nat n\<rparr>]"

definition kept_main :: "nat \<Rightarrow> main_env" where
  "kept_main n = sample_main\<lparr>me_file := (\<lambda>_. Some (file_of_data Little (kept_data n)))\<rparr>"

definition kept_running :: "nat \<Rightarrow> running" where
  "kept_running n = projr (start_up (kept_main n) 0 new_Configuration)"

lemma kept_started:
  assumes "n \<in> {41, 42}"
  shows "start_up (kept_main n) 0 new_Configuration = Inr (kept_running n) \<and> num_sites (ru_http_config (kept_running n)) = 4"
proof -
  have "map_sum id (\<lambda>r. num_sites (ru_http_config r)) (start_up (kept_main 41) 0 new_Configuration) = Inr 4"
    "map_sum id (\<lambda>r. num_sites (ru_http_config r)) (start_up (kept_main 42) 0 new_Configuration) = Inr 4" by code_simp+
  with assms show ?thesis
    by (cases "start_up (kept_main n) 0 new_Configuration") (auto simp: kept_running_def)
qed

lemma kept_hits: "hits_found Little False (Some (file_of_data Little (kept_data n))) 4 = kept_data n"
  using length_file_of_data [of Little "kept_data n"] by (simp add: hits_found_def data_of_file_of_data kept_data_def)

definition kept_env :: "nat \<Rightarrow> http_env" where
  "kept_env n = sample_service_env\<lparr>he_config := ru_http_config (kept_running n)\<rparr>"

definition visit :: sent_request where
  "visit = (GET, [Host_header (bytes_of ''2.example.com'')])"

lemma visit_addressed:
  assumes "n \<in> {41, 42}"
  shows "addressed (kept_env n) (kept_data n) (visit, 2)"
proof -
  have "good_request visit" by code_simp
  moreover have host: "host (meant visit) = bytes_of ''2'' @ dot # bytes_of ''example.com''" by code_simp
  have n: "58 \<notin> set (bytes_of ''2'')" "dot \<notin> set (bytes_of ''2'')" "58 \<notin> set (bytes_of ''example.com'')"
    "sample_lex (bytes_of ''2'') = Some 2" by code_simp+
  have template: "unat (host_template (kept_data n ! unat (2 :: u32))) < length host_factories"
    "host_factories ! unat (host_template (kept_data n ! unat (2 :: u32))) = Default"
    by (simp_all add: kept_data_def new_host_def host_factories_def)
  have "(2 :: u32) < num_sites (ru_http_config (kept_running n))" using kept_started [OF assms] by simp
  from GetHost_by_number [of "bytes_of ''2''" "bytes_of ''example.com''" sample_lex 2 "ru_http_config (kept_running n)" "kept_data n",
      OF n this template(1)] template(2)
  have "GetHost sample_lex (ru_http_config (kept_running n)) (kept_data n) (host (meant visit)) = Inr (Default, 2)"
    by (simp add: host)
  ultimately show ?thesis by (simp add: addressed_def kept_env_def sample_service_env_def sample_http_env_def)
qed

lemma visit_ready:
  assumes "n \<in> {41, 42}"
  shows "client_ready (kept_env n) (ru_http_config (kept_running n)) spirit_ids 1 1 [(visit, 2)] (replicate request_buffer_size 0) sample_mgr (kept_data n)"
proof -
  have "length (sent_text visit) \<le> request_buffer_size" by code_simp
  moreover have "1 \<in> cm_open sample_mgr" by (simp add: sample_mgr_def CreateConnection_def new_mgr_def Let_def)
  ultimately show ?thesis
    using visit_addressed [OF assms] spirit_ids_ok sample_date_ok
    by (simp add: client_ready_def kept_env_def sample_service_env_def sample_http_env_def)
qed

lemma visit_reply: "expected_replies (kept_env n) (kept_data h) [(visit, 2)] =
    ([(status_line 200 (bytes_of ''OK'') (meant visit), page 2 (unat (of_nat h + 1 :: 23 word)) False)],
     kept_data (h + 1))"
proof -
  have "served (meant visit)" "meth (meant visit) = GET" "\<not> accept_encoding_gzip (meant visit)"
    "\<not> accept_encoding_deflate (meant visit)" "\<not> do_not_track (meant visit)" by code_simp+
  moreover have "kept_data h ! 2 = new_host\<lparr>hostbits := of_nat h\<rparr>" by (simp add: kept_data_def)
  moreover have "(kept_data h)[2 := (kept_data h ! 2)\<lparr>hostbits := hostbits (kept_data h ! 2) + 1\<rparr>] = kept_data (h + 1)"
    by (simp add: kept_data_def add.commute)
  ultimately show ?thesis by (simp add: default_answer_def encoded_def Let_def)
qed

theorem restarted_server_counts_on_witness:
  "let buffer = replicate request_buffer_size 0; served = (\<lambda>n. first_client (kept_env n) 1 1 [(visit, 2)] buffer sample_mgr
        (data_of_file Little (ru_data (kept_running n)))) in
    mapped Little (file_of_data Little (kept_data 42)) (cn_data (snd (served 41))) \<and>
    read_replies [False] (fst (served 41)) = Some [(status_line 200 (bytes_of ''OK'') (meant visit), page 2 42 False)] \<and>
    read_replies [False] (fst (served 42)) = Some [(status_line 200 (bytes_of ''OK'') (meant visit), page 2 43 False)]"
proof -
  have keep: "\<not> cf_recreate_mmap_file new_Configuration" by code_simp
  have stored: "me_file (kept_main n) path = Some (file_of_data Little (kept_data n))" for n path by (simp add: kept_main_def)
  have started: "start_up (kept_main 41) 0 new_Configuration = Inr (kept_running 41)" "num_sites (ru_http_config (kept_running 41)) = 4"
    "start_up (kept_main 42) 0 new_Configuration = Inr (kept_running 42)" "num_sites (ru_http_config (kept_running 42)) = 4"
    using kept_started [of 41] kept_started [of 42] by simp_all
  have size: "length (file_of_data Little (kept_data 42)) = unat (num_sites (ru_http_config (kept_running 42))) * 4"
    by (simp add: length_file_of_data kept_data_def started)
  have found: "kept_data 41 = hits_found Little (cf_recreate_mmap_file new_Configuration)
      (me_file (kept_main 41) (data_mmap_file (ru_http_config (kept_running 41)))) (unat (num_sites (ru_http_config (kept_running 41))))"
    using keep kept_hits [of 41] by (simp add: stored started)
  have ready: "client_ready (kept_env 41) (ru_http_config (kept_running 41)) spirit_ids 1 1 [(visit, 2)] (replicate request_buffer_size 0) sample_mgr (kept_data 41)"
    "client_ready (kept_env 42) (ru_http_config (kept_running 42)) spirit_ids 1 1 [(visit, 2)] (replicate request_buffer_size 0) sample_mgr (kept_data 42)"
    by (simp_all add: visit_ready)
  have get: "meth (meant visit) \<noteq> HEAD" by code_simp
  have "cn_data (snd (first_client (kept_env 41) 1 1 [(visit, 2)] (replicate request_buffer_size 0) sample_mgr (kept_data 41))) = kept_data 42"
    using first_client_served [OF ready(1)] by (simp del: expected_replies.simps read_replies.simps add: visit_reply split_beta Let_def)
  then have left: "mapped Little (file_of_data Little (kept_data 42)) (cn_data (snd (first_client (kept_env 41) 1 1 [(visit, 2)]
      (replicate request_buffer_size 0) sample_mgr (data_of_file Little (ru_data (kept_running 41))))))"
    using started_data [OF started(1), of Little] found mapped_file by simp
  have answers: "([(status_line 200 (bytes_of ''OK'') (meant visit), page 2 42 False)], kept_data 42) =
      expected_replies (kept_env 41) (kept_data 41) [(visit, 2)]" by (simp del: expected_replies.simps add: visit_reply)
  from restarted_server_counts_on [OF started(1) found ready(1) left started(3) keep stored size answers ready(2)] left get
  show ?thesis by (simp del: expected_replies.simps read_replies.simps add: visit_reply Let_def)
qed
end
