(* ===== verification/DnsDebug.thy ===== *)
theory DnsDebug
  imports DnsCompress
begin

text \<open>
  Names in the lines of the log: \<open>GetNameFromOffset\<close> of \<open>src/dnsd/Message.h\<close>, which the
  functions that write names call, and the output operator for labels of \<open>src/dnsd/DnsDaemon.cpp\<close>.
\<close>

section \<open>The name at an offset\<close>

text \<open>
  The loop with the offset and the name so far. A pointer ends it with a call on its target, whose name is
  appended. There is no check: a read outside the buffer and a loop without end are \<open>None\<close>.
\<close>

partial_function (option) name_loop :: "bytes \<Rightarrow> u16 \<Rightarrow> bytes \<Rightarrow> bytes option" where
  "name_loop buf label name =
     (let my_offset = ofs14 label
      in if length buf \<le> my_offset then None
         else let len = unat (buf ! my_offset)
         in if len = 0 then Some name
            else let name1 = (if name \<noteq> [] then name @ [dot] else name)
            in if is_pointer (buf ! my_offset) then
                 (if length buf \<le> my_offset + 1 then None
                  else Option.bind (name_loop buf (ntohs_bytes (buf ! my_offset) (buf ! (my_offset + 1)) AND NOT 0xC000) [])
                    (\<lambda>r. Some (name1 @ r)))
               else if len \<le> 64 then
                 (if length buf < my_offset + 1 + len then None
                  else name_loop buf (of_nat my_offset + of_nat len + 1) (name1 @ segment buf (my_offset + 1) len))
               else Some name1)"

definition GetNameFromOffset :: "u16 \<Rightarrow> bytes \<Rightarrow> bytes option" where
  "GetNameFromOffset offset buf = name_loop buf offset []"

text \<open>Labels are printed with a slash between them; \<open>virgin\<close> is the flag of the loop.\<close>

fun print_labels :: "bool \<Rightarrow> bytes list \<Rightarrow> bytes" where
  "print_labels virgin [] = []"
| "print_labels virgin (s # v) = (if virgin then s else 47 # s) @ print_labels False v"

lemma print_labels_slashes: "print_labels False v = concat (map (\<lambda>s. 47 # s) v)"
  by (induction v) simp_all

text \<open>What the loop adds to a name that it has begun.\<close>

definition shown :: "bytes \<Rightarrow> bytes list \<Rightarrow> bytes \<Rightarrow> bool" where
  "shown name fs t \<longleftrightarrow> (\<exists>s \<in> {[], [dot]}.
     t = (if fs = [] then name @ (if name = [] then [] else s) else name @ (if name = [] then [] else [dot]) @ join_dots fs @ s))"

lemma shown_label: "shown (name @ (if name = [] then [] else [dot]) @ f) fs t \<Longrightarrow> f \<noteq> [] \<Longrightarrow> shown name (f # fs) t"
proof (cases "fs = []")
  case True
  then show "shown (name @ (if name = [] then [] else [dot]) @ f) fs t \<Longrightarrow> f \<noteq> [] \<Longrightarrow> ?thesis" by (auto simp: shown_def)
next
  case False
  then show "shown (name @ (if name = [] then [] else [dot]) @ f) fs t \<Longrightarrow> f \<noteq> [] \<Longrightarrow> ?thesis"
    by (auto simp: shown_def join_dots_Cons simp del: join_dots.simps)
qed

lemma shown_pointer: "shown [] fs r \<Longrightarrow> shown name fs (name @ (if name = [] then [] else [dot]) @ r)"
  by (auto simp: shown_def)

lemma name_loop_shown:
  assumes "name_at P buf off fs" "off = ofs14 label" "length buf \<le> 2 ^ 14"
  shows "\<exists>t. name_loop buf label name = Some t \<and> shown name fs t"
  using assms(1,2)
proof (induction arbitrary: label name rule: name_at.induct)
  case (name_root off)
  then show ?case by (subst name_loop.simps) (auto simp: shown_def)
next
  case (name_label off f fs)
  let ?n = "length f"
  from name_label.hyps have n: "unat (buf ! off) = ?n" "0 < ?n" "?n < 64"
    by (auto simp: unat_of_label_length label_size_ok_def)
  have below: "off + 1 + ?n < length buf" using name_label.hyps(7) by (rule name_at_bound)
  have "off + 1 + ?n = ofs14 (of_nat off + of_nat ?n + 1)"
    using ofs14_of_nat [of "off + 1 + ?n"] below assms(3) by (simp add: algebra_simps)
  from name_label.IH [OF this] obtain t where
    t: "name_loop buf (of_nat off + of_nat ?n + 1) (name @ (if name = [] then [] else [dot]) @ f) = Some t"
      "shown (name @ (if name = [] then [] else [dot]) @ f) fs t" by blast
  have "\<not> is_pointer (buf ! off)" using pointer_not_small [of "buf ! off"] n(1,3) by linarith
  then have "name_loop buf label name = Some t"
    using n below name_label.hyps name_label.prems t(1) by (subst name_loop.simps) (auto simp: Let_def)
  with shown_label [OF t(2)] n(2) show ?case by auto
next
  case (name_pointer off fs)
  let ?w = "ntohs_bytes (buf ! off) (buf ! (off + 1))"
  have "ofs14 ?w = ofs14 (?w AND NOT 0xC000)" by (simp add: ofs14_def)
  from name_pointer.IH [OF this] obtain r where r: "name_loop buf (?w AND NOT 0xC000) [] = Some r" "shown [] fs r" by blast
  have "unat (buf ! off) \<noteq> 0" using name_pointer.hyps by (auto simp: is_pointer_def unat_eq_zero)
  then have "name_loop buf label name = Some (name @ (if name = [] then [] else [dot]) @ r)"
    using name_pointer.hyps name_pointer.prems r(1) by (subst name_loop.simps) (auto simp: Let_def)
  with shown_pointer [OF r(2)] show ?case by blast
qed

lemma shown_fragments:
  assumes "shown [] fs t" "\<forall>f \<in> set fs. dot_free f \<and> label_size_ok f"
  shows "ToFraments t = fs"
proof (cases "fs = []")
  case False
  then have "last fs \<noteq> []" using assms(2) by (auto simp: label_size_ok_def)
  with False assms show ?thesis by (auto simp: shown_def ToFraments_join ToFraments_join_trailing)
qed (use assms in \<open>simp add: shown_def\<close>)

text \<open>
  C20: the lines of the log show well-formed names as they are. For a name whose labels have 1 to 63 bytes, written behind a buffer
  where the label table leads to names only, and ending within \<open>2 ^ 14\<close> bytes: what the debugging function reads at the offset of the
  name that has just been written has, split at the dots, the labels that were to be written; and at
  every entry of the table it returns, although it makes no check of its own.
\<close>

theorem log_shows_name:
  assumes "table_ok P buf labels" "good_name (complete_name name zl)"
    and "length buf + length (wire_name (ToFraments (complete_name name zl))) \<le> 2 ^ 14"
  shows "\<exists>buf' labels' t. WriteDomainName buf labels name zl = Inr (buf', labels') \<and>
    GetNameFromOffset (of_nat (length buf) OR 0xC000) buf' = Some t \<and> ToFraments t = ToFraments (complete_name name zl) \<and>
    list_all (\<lambda>l. GetNameFromOffset l buf' \<noteq> None) labels'"
proof -
  let ?fs = "ToFraments (complete_name name zl)"
  have "length (wire_name ?fs) > 0" by (simp add: wire_name_def)
  then have small: "length buf < 2 ^ 14" using assms(3) by linarith
  from WriteDomainName_sound [OF assms(1,2) small] obtain ext labels' Q where
    w: "WriteDomainName buf labels name zl = Inr (buf @ ext, labels')" "length ext \<le> length (wire_name ?fs)"
      "name_at Q (buf @ ext) (length buf) ?fs" "table_ok Q (buf @ ext) labels'" by blast
  have len: "length (buf @ ext) \<le> 2 ^ 14" using w(2) assms(3) by simp
  have off: "length buf = ofs14 (of_nat (length buf) OR 0xC000)" using ofs14_of_nat [OF small] by simp
  from name_loop_shown [OF w(3) off len, of "[]"] obtain t where
    t: "GetNameFromOffset (of_nat (length buf) OR 0xC000) (buf @ ext) = Some t" "shown [] ?fs t"
    by (auto simp: GetNameFromOffset_def)
  have "\<forall>f \<in> set ?fs. dot_free f \<and> label_size_ok f"
    using assms(2) ToFraments_fragments_dot_free by (auto simp: good_name_def)
  with t(2) have "ToFraments t = ?fs" by (rule shown_fragments)
  moreover have "list_all (\<lambda>l. GetNameFromOffset l (buf @ ext) \<noteq> None) labels'"
    unfolding list_all_iff
  proof
    fix l
    assume "l \<in> set labels'"
    with w(4) obtain fs where "name_at Q (buf @ ext) (ofs14 l) fs" by (auto simp: table_ok_def)
    from name_loop_shown [OF this refl len, of "[]"] show "GetNameFromOffset l (buf @ ext) \<noteq> None"
      by (auto simp: GetNameFromOffset_def)
  qed
  ultimately show ?thesis using w(1) t(1) by blast
qed

theorem log_shows_name_witness:
  "\<exists>buf' labels' t. WriteDomainName sample_reply [0xC000] [100, 46, 98, 99] [] = Inr (buf', labels') \<and>
    GetNameFromOffset 0xC006 buf' = Some t \<and> ToFraments t = [[100], [98, 99]] \<and>
    list_all (\<lambda>l. GetNameFromOffset l buf' \<noteq> None) labels'"
proof -
  have "complete_name [100, 46, 98, 99] [] = [100, 46, 98, 99]" by code_simp
  moreover have "ToFraments [100, 46, 98, 99] = [[100], [98, 99]]" by code_simp
  moreover have "of_nat (length sample_reply) OR 0xC000 = (0xC006 :: u16)" by code_simp
  ultimately show ?thesis
    using log_shows_name [OF sample_table_ok, of "[100, 46, 98, 99]" "[]"]
    by (simp add: good_name_def label_size_ok_def wire_name_def wire_label_def sample_reply_def)
qed

end
