(* ===== verification/HttpExpiry.thy ===== *)
theory HttpExpiry
  imports HttpConn
begin

text \<open>
  The end of an idle connection: the housekeeping of the connection manager and the coroutine of a
  connection put together.
\<close>

text \<open>What the coroutine waits for fails, as it does when its socket has been closed.\<close>

definition wait_fails :: "http_env \<Rightarrow> u64 \<Rightarrow> int \<Rightarrow> int \<Rightarrow> connection \<Rightarrow> connection" where
  "wait_fails env key now1 now2 c =
     (case cn_pc c of
        Reading \<Rightarrow> on_read env key now1 now2 None c
      | Writing \<Rightarrow> on_written env key now1 now2 False c
      | WritingBad \<Rightarrow> on_bad_written key c
      | _ \<Rightarrow> c)"

lemma Remove_dead:
  assumes "distinct (keys_of m)" "small_key (ce_key e)" "e \<in> set (cm_dead m)"
  shows "Remove (ce_key e) m = m\<lparr>cm_dead := filter (\<lambda>x. x \<noteq> e) (cm_dead m)\<rparr>"
proof -
  from assms(1) have d: "distinct (map ce_key (cm_dead m))" "ce_key e \<notin> ce_key ` set (cm_connections m)"
    using assms(3) by (auto simp: keys_of_def)
  from position_entry [OF d(1) assms(3)] obtain i
    where i: "Lookup_conn (ce_key e) (cm_dead m) = Some i" "i < length (cm_dead m)" "cm_dead m ! i = e"
    by (auto simp: Lookup_conn_def as_int_small [OF assms(2)])
  have "Lookup_conn (ce_key e) (cm_connections m) = None"
    using d(2) by (simp add: Lookup_conn_def as_int_small [OF assms(2)] position_None)
  moreover have "distinct (cm_dead m)" using d(1) by (simp add: distinct_map)
  ultimately show ?thesis using i erase_filter [of "cm_dead m" i] by (simp add: Remove_def)
qed

lemma leave_mgr: "\<not> cn_closed c \<Longrightarrow> cn_mgr (leave key c) = Remove key (CloseSocket key (cn_mgr c))"
  by (simp add: leave_def Close_def close_socket_def Let_def)

lemma closed_frame [simp]: "cn_closed (close_socket key c) = cn_closed c" "cn_closed (end_request c) = cn_closed c"
  "cm_connections (cn_mgr (close_socket key c)) = cm_connections (cn_mgr c)"
  "cm_dead (cn_mgr (close_socket key c)) = cm_dead (cn_mgr c)"
  "cm_connections (cn_mgr (end_request c)) = cm_connections (cn_mgr c)"
  "cm_dead (cn_mgr (end_request c)) = cm_dead (cn_mgr c)"
  "cm_open (cn_mgr (end_request c)) = cm_open (cn_mgr c)"
  "cm_open (cn_mgr (close_socket key c)) = cm_open (cn_mgr c) - {key}"
  by (simp_all add: close_socket_def CloseSocket_def end_request_def count_stats_def)

text \<open>The lists of the manager and the open sockets, when a connection ends that is dead already.\<close>

lemma leave_dead:
  assumes "\<not> cn_closed c" "distinct (keys_of (cn_mgr c))" "small_key (ce_key e)" "e \<in> set (cm_dead (cn_mgr c))"
  defines "m \<equiv> cn_mgr c" and "m' \<equiv> cn_mgr (leave (ce_key e) c)"
  shows "cm_connections m' = cm_connections m" "cm_dead m' = filter (\<lambda>x. x \<noteq> e) (cm_dead m)"
    "cm_open m' = cm_open m - {ce_key e}"
proof -
  let ?m = "CloseSocket (ce_key e) m"
  have "keys_of ?m = keys_of m" "cm_dead ?m = cm_dead m" by (simp_all add: CloseSocket_def keys_of_def)
  with assms have "m' = ?m\<lparr>cm_dead := filter (\<lambda>x. x \<noteq> e) (cm_dead ?m)\<rparr>"
    by (simp add: leave_mgr Remove_dead)
  then show "cm_connections m' = cm_connections m" "cm_dead m' = filter (\<lambda>x. x \<noteq> e) (cm_dead m)"
    "cm_open m' = cm_open m - {ce_key e}" by (simp_all add: CloseSocket_def)
qed

text \<open>
  C28: a connection whose time is over ends, in any state that the manager can be in while the keys of its connections are below \<open>2 ^ 31\<close>. The housekeeping closes its socket, whether it waits
  for a request or for the client to take a reply; the pending operation then fails, and with that
  the coroutine is finished and the manager has forgotten the connection. The connections whose
  time is not over keep their place in the list and their sockets.
\<close>

theorem idle_connection_ends:
  assumes "mgr_ok limit (cn_mgr c)" "\<forall>e \<in> set (cm_connections (cn_mgr c)). small_key (ce_key e)"
    and "e \<in> set (cm_connections (cn_mgr c))" "is_expired now e"
    and "cn_pc c \<in> {Reading, Writing, WritingBad}" "\<not> cn_closed c"
  shows "let c1 = c\<lparr>cn_mgr := RemoveExpieredConnections now (cn_mgr c)\<rparr>; c2 = wait_fails env (ce_key e) now1 now2 c1;
      live = filter (\<lambda>x. \<not> is_expired now x) (cm_connections (cn_mgr c)) in
    \<not> is_open (ce_key e) c1 \<and> cn_pc c2 = Finished \<and> \<not> is_open (ce_key e) c2 \<and>
    ce_key e \<notin> set (keys_of (cn_mgr c2)) \<and> cm_connections (cn_mgr c2) = live \<and>
    list_all (\<lambda>x. is_open (ce_key x) c2 = is_open (ce_key x) c) live"
proof -
  let ?m = "cn_mgr c"
  let ?m1 = "RemoveExpieredConnections now ?m"
  define c1 where "c1 = c\<lparr>cn_mgr := ?m1\<rparr>"
  define c2 where "c2 = wait_fails env (ce_key e) now1 now2 c1"
  have ok: "mgr_ok limit ?m1" using step_ok [OF step_housekeeping assms(1)] .
  note ex = expiry_entries [OF assms(1,2), of now]
  from assms(3,4) have dead: "e \<in> set (cm_dead ?m1)" and key: "ce_key e \<notin> cm_open ?m1" by (auto simp: ex(2,3))
  have small: "small_key (ce_key e)" using assms(2,3) by blast
  let ?d = "case cn_pc c of Reading \<Rightarrow> c1 | Writing \<Rightarrow> end_request c1 | _ \<Rightarrow> end_request (close_socket (ce_key e) c1)"
  have "\<not> is_open (ce_key e) c1" using key by (simp add: c1_def is_open_def)
  then have "c2 = leave (ce_key e) ?d"
    using assms(5) by (auto simp: c2_def c1_def wait_fails_def on_read_def on_written_def on_bad_written_def)
  moreover have "\<not> cn_closed ?d \<and> cm_connections (cn_mgr ?d) = cm_connections ?m1 \<and>
      cm_dead (cn_mgr ?d) = cm_dead ?m1 \<and> cm_open (cn_mgr ?d) - {ce_key e} = cm_open ?m1 - {ce_key e}"
    using assms(5,6) by (auto simp: c1_def)
  ultimately obtain d where d: "c2 = leave (ce_key e) d" "\<not> cn_closed d" "cm_connections (cn_mgr d) = cm_connections ?m1"
      "cm_dead (cn_mgr d) = cm_dead ?m1" "cm_open (cn_mgr d) - {ce_key e} = cm_open ?m1 - {ce_key e}" by blast
  have dist: "distinct (keys_of ?m1)" using ok by (simp add: mgr_ok_def)
  then have "distinct (keys_of (cn_mgr d))" by (simp add: keys_of_def d(3,4))
  from leave_dead [OF d(2) this small] dead d
  have m2: "cm_connections (cn_mgr c2) = cm_connections ?m1" "cm_dead (cn_mgr c2) = filter (\<lambda>x. x \<noteq> e) (cm_dead ?m1)"
    "cm_open (cn_mgr c2) = cm_open ?m1 - {ce_key e}" by simp_all
  have "ce_key e \<notin> set (keys_of (cn_mgr c2))"
    using dist dead by (auto simp: keys_of_def m2(1,2) distinct_map inj_on_def)
  moreover have "is_open (ce_key x) c2 = is_open (ce_key x) c" if "x \<in> set (cm_connections ?m1)" for x
  proof -
    have "ce_key x \<noteq> ce_key y" if "y \<in> set (cm_dead ?m1)" for y
      using dist \<open>x \<in> _\<close> that by (auto simp: keys_of_def)
    then show ?thesis using dead by (auto simp: is_open_def m2(3) ex(2,3))
  qed
  ultimately show ?thesis
    using key d(1) m2(1,3) ex(1) unfolding Let_def c1_def [symmetric] c2_def [symmetric]
    by (auto simp: is_open_def c1_def list_all_iff)
qed

theorem idle_connection_ends_witness:
  "let c1 = sample_start\<lparr>cn_mgr := RemoveExpieredConnections 103 (cn_mgr sample_start)\<rparr>;
      c2 = wait_fails sample_http_env 1 5 5 c1;
      live = filter (\<lambda>x. \<not> is_expired 103 x) (cm_connections (cn_mgr sample_start)) in
    \<not> is_open 1 c1 \<and> cn_pc c2 = Finished \<and> \<not> is_open 1 c2 \<and>
    1 \<notin> set (keys_of (cn_mgr c2)) \<and> cm_connections (cn_mgr c2) = live \<and>
    list_all (\<lambda>x. is_open (ce_key x) c2 = is_open (ce_key x) sample_start) live"
proof -
  have m: "cn_mgr sample_start = \<lparr>cm_connections = [\<lparr>ce_key = 1, ce_expire = 102\<rparr>], cm_dead = [], cm_open = {1},
      cm_next_key = 1, cm_stats = new_Statistics\<rparr>"
    by (simp add: sample_start sample_open sample_mgr_def CreateConnection_def new_mgr_def Let_def)
  have "mgr_ok 0 (cn_mgr sample_start)" by (simp add: m mgr_ok_def keys_of_def)
  moreover have "\<forall>e \<in> set (cm_connections (cn_mgr sample_start)). small_key (ce_key e)" by (simp add: m small_key_def)
  moreover have "\<lparr>ce_key = 1, ce_expire = 102\<rparr> \<in> set (cm_connections (cn_mgr sample_start))" by (simp add: m)
  ultimately show ?thesis
    using idle_connection_ends [of 0 sample_start "\<lparr>ce_key = 1, ce_expire = 102\<rparr>" 103 sample_http_env 5 5]
    by (simp add: is_expired_def sample_start sample_open)
qed
end
