(* ===== verification/HttpWorld.thy ===== *)
theory HttpWorld
  imports HttpConn HttpServer "HOL-Library.Multiset"
begin

text \<open>
  The HTTP server with all its connections: the accept loops, the managers of all workers and the
  coroutines of all connections (\<open>src/httpd/HttpDaemon.cpp\<close>) run together, in any order. It joins
  the steps of \<open>HttpConn\<close> and of \<open>HttpServer\<close>: where the one lets other connections change anything
  and the other lets a connection do anything, here each does what the other's code does.
\<close>

section \<open>What a coroutine does to the objects of its manager\<close>

definition same_objects :: "ConnectionMgr \<Rightarrow> ConnectionMgr \<Rightarrow> bool" where
  "same_objects m m' \<longleftrightarrow> cm_next_key m' = cm_next_key m \<and> keys_of m' = keys_of m \<and>
     (\<forall>limit. mgr_ok limit m \<longrightarrow> mgr_ok limit m')"

definition goes_on :: "connection \<Rightarrow> connection \<Rightarrow> bool" where
  "goes_on c c' \<longleftrightarrow> \<not> cn_closed c' \<and> same_objects (cn_mgr c) (cn_mgr c')"

definition has_left :: "u64 \<Rightarrow> connection \<Rightarrow> connection \<Rightarrow> bool" where
  "has_left key c c' \<longleftrightarrow> cn_closed c' \<and> cm_next_key (cn_mgr c') = cm_next_key (cn_mgr c) \<and>
     set (keys_of (cn_mgr c')) = set (keys_of (cn_mgr c)) - {key} \<and>
     (\<forall>limit. mgr_ok limit (cn_mgr c) \<longrightarrow> mgr_ok limit (cn_mgr c'))"

definition outcome :: "u64 \<Rightarrow> connection \<Rightarrow> connection \<Rightarrow> bool" where
  "outcome key c c' \<longleftrightarrow> (if cn_pc c' = Finished then has_left key c c' else goes_on c c')"

lemma outcome_pc: "cn_pc c' \<noteq> Finished \<Longrightarrow> outcome key c c' = goes_on c c'"
  by (simp add: outcome_def)

text \<open>Whatever leaves the manager, or its lists, as they were.\<close>

lemma goes_on_cong: "cn_closed d' = cn_closed d \<Longrightarrow> cn_mgr d' = cn_mgr d \<Longrightarrow> goes_on c d' = goes_on c d"
  by (simp add: goes_on_def)

lemma same_objects_refl [simp]: "same_objects m m"
  by (simp add: same_objects_def)

lemma same_objects_step:
  assumes "same_objects m m1" "cm_next_key m2 = cm_next_key m1" "keys_of m2 = keys_of m1"
    and "\<And>limit. mgr_ok limit m1 \<Longrightarrow> mgr_ok limit m2"
  shows "same_objects m m2"
  using assms by (auto simp: same_objects_def)

lemma goes_on_counted [simp]: "goes_on c (count_stats f d) = goes_on c d" "goes_on c (end_request d) = goes_on c d"
  by (simp_all add: goes_on_def same_objects_def count_stats_def end_request_def)

lemma CloseSocket_objects: "same_objects m m1 \<Longrightarrow> same_objects m (CloseSocket key m1)"
  by (erule same_objects_step) (auto simp: CloseSocket_def intro: step_ok [OF step_close, unfolded CloseSocket_def])

lemma goes_on_closed_socket [intro!]: "goes_on c d \<Longrightarrow> goes_on c (close_socket key d)"
  by (simp add: goes_on_def close_socket_def CloseSocket_objects)

lemma SetEndOfLife_objects: "same_objects m m1 \<Longrightarrow> same_objects m (SetEndOfLife key t m1)"
proof (erule same_objects_step)
  show "keys_of (SetEndOfLife key t m1) = keys_of m1"
  proof (cases "Lookup_conn key (cm_connections m1)")
    case (Some i)
    let ?es = "(cm_connections m1)[i := (cm_connections m1 ! i)\<lparr>ce_expire := t\<rparr>]"
    from Lookup_conn_Some [OF Some] have "map ce_key ?es = map ce_key (cm_connections m1)"
      by (metis ConnectionEntry.select_convs(1) ConnectionEntry.surjective ConnectionEntry.update_convs(2)
          list_update_id map_update)
    with Some show ?thesis by (simp add: SetEndOfLife_def keys_of_def)
  qed (simp add: SetEndOfLife_def)
qed (simp_all add: SetEndOfLife_ok, simp add: SetEndOfLife_def split: option.splits)

lemma Remove_keys:
  assumes "distinct (keys_of m)" "small_key key"
  shows "set (keys_of (Remove key m)) = set (keys_of m) - {key}" "cm_next_key (Remove key m) = cm_next_key m"
proof -
  have erased: "ce_key ` set (erase i es) = ce_key ` set es - {key}"
    if "Lookup_conn key es = Some i" "distinct (map ce_key es)" for es i
    using distinct_erase [OF that(2), of i] Lookup_conn_Some [OF that(1)] as_int_small [OF assms(2)]
    by (metis length_map list.set_map map_erase nth_map)
  have there: "(Lookup_conn key es = None) = (key \<notin> ce_key ` set es)" for es
    by (simp add: Lookup_conn_def as_int_small [OF assms(2)] position_None)
  from assms(1) have d: "distinct (map ce_key (cm_connections m))" "distinct (map ce_key (cm_dead m))"
    "ce_key ` set (cm_connections m) \<inter> ce_key ` set (cm_dead m) = {}" by (simp_all add: keys_of_def)
  show "set (keys_of (Remove key m)) = set (keys_of m) - {key}"
  proof (cases "Lookup_conn key (cm_connections m)")
    case (Some i)
    then have "key \<in> ce_key ` set (cm_connections m)" using there by force
    then have "key \<notin> ce_key ` set (cm_dead m)" using d(3) by blast
    with erased [OF Some d(1)] Some show ?thesis by (auto simp: Remove_def keys_of_def)
  next
    case none: None
    then have live: "key \<notin> ce_key ` set (cm_connections m)" using there by blast
    show ?thesis
    proof (cases "Lookup_conn key (cm_dead m)")
      case (Some i)
      with erased [OF Some d(2)] none live show ?thesis by (auto simp: Remove_def keys_of_def)
    next
      case None
      then have "key \<notin> ce_key ` set (cm_dead m)" using there by blast
      with none None live show ?thesis by (auto simp: Remove_def keys_of_def)
    qed
  qed
  show "cm_next_key (Remove key m) = cm_next_key m" by (simp add: Remove_def split: option.splits)
qed

lemma leave_leaves:
  assumes "goes_on c d" "distinct (keys_of (cn_mgr c))" "small_key key"
  shows "has_left key c (leave key d)"
proof -
  let ?m = "CloseSocket key (cn_mgr d)"
  have same: "same_objects (cn_mgr c) ?m" using assms(1) by (simp add: goes_on_def CloseSocket_objects)
  then have "distinct (keys_of ?m)" using assms(2) by (simp add: same_objects_def)
  note gone = Remove_keys [OF this assms(3)]
  have "cn_closed (leave key d) \<and> cn_mgr (leave key d) = Remove key ?m"
    using assms(1) by (simp add: goes_on_def leave_def Close_def close_socket_def Let_def)
  with gone same step_ok [OF step_remove] show ?thesis by (auto simp: has_left_def same_objects_def)
qed

lemma leave_outcome:
  assumes "goes_on c d" "distinct (keys_of (cn_mgr c))" "small_key key"
  shows "outcome key c (leave key d)"
  using leave_leaves [OF assms] by (simp add: outcome_def)

lemma error_goes_on [simp]: "goes_on c (reply_with_error env now code m x) = goes_on c x"
  by (simp add: reply_with_error_def goes_on_def split: prod.splits)

lemma goes_on_fields [simp]:
  "goes_on c (d\<lparr>cn_pc := p\<rparr>) = goes_on c d" "goes_on c (d\<lparr>cn_reply := r\<rparr>) = goes_on c d"
  "goes_on c (d\<lparr>cn_data := x\<rparr>) = goes_on c d" "goes_on c (d\<lparr>cn_date := b\<rparr>) = goes_on c d"
  "goes_on c (d\<lparr>cn_request_state := st\<rparr>) = goes_on c d" "goes_on c (d\<lparr>cn_parser := q\<rparr>) = goes_on c d"
  "goes_on c (d\<lparr>cn_req := q\<rparr>) = goes_on c d" "goes_on c (d\<lparr>cn_buffer := b\<rparr>) = goes_on c d"
  "goes_on c (d\<lparr>cn_request_bytes := n\<rparr>) = goes_on c d" "goes_on c (d\<lparr>cn_need_more := f\<rparr>) = goes_on c d"
  by (simp_all add: goes_on_def)

lemma goes_on_extended: "goes_on c d \<Longrightarrow> m = cn_mgr d \<Longrightarrow> goes_on c (d\<lparr>cn_mgr := SetEndOfLife key t m\<rparr>)"
  by (simp add: goes_on_def SetEndOfLife_objects)

lemma answer_request_outcome:
  assumes "goes_on c d" "distinct (keys_of (cn_mgr c))" "small_key key"
  shows "outcome key c (answer_request env key now1 now2 d)"
proof -
  have left: "outcome key c (leave key (close_socket key (end_request x)))" if "goes_on c x" for x
    using that assms(2,3) by (intro leave_outcome) auto
  have on: "outcome key c (x\<lparr>cn_pc := Writing\<rparr>)" "outcome key c (x\<lparr>cn_pc := Undefined\<rparr>)" if "goes_on c x" for x
    using that by (simp_all add: outcome_def)
  show ?thesis
    unfolding answer_request_def Let_def
    by (auto intro!: on left goes_on_extended simp: assms(1) split: sum.splits vhost_exn.splits host_exn.splits prod.splits)
qed

lemma process_outcome:
  assumes "goes_on c d" "distinct (keys_of (cn_mgr c))" "small_key key"
  shows "outcome key c (process env key now1 now2 d)"
proof -
  let ?d0 = "d\<lparr>cn_request_state := UNSET, cn_need_more := True\<rparr>"
  obtain result d1 where p: "ParseRequest env ?d0 = (result, d1)" by (cases "ParseRequest env ?d0")
  then have d1: "goes_on c d1" using assms(1)
    by (auto simp: ParseRequest_def Let_def split: prod.splits if_splits)
  have "outcome key c (leave key (end_request (d1\<lparr>cn_request_state := IGNORE\<rparr>)))"
    using d1 assms(2,3) by (intro leave_outcome) auto
  with answer_request_outcome [OF d1 assms(2,3)] d1 show ?thesis
    by (cases result) (auto simp: process_def p Let_def outcome_pc)
qed

lemma next_round_outcome:
  assumes "goes_on c d" "distinct (keys_of (cn_mgr c))" "small_key key"
  shows "outcome key c (next_round env key now1 now2 d)"
  using assms process_outcome [OF assms] leave_outcome [OF assms] by (simp add: next_round_def outcome_pc)

section \<open>The steps of a coroutine\<close>

text \<open>What wakes a coroutine: the read or the write it waits for is done.\<close>

inductive resumes :: "http_env \<Rightarrow> u64 \<Rightarrow> connection \<Rightarrow> conn_event list \<Rightarrow> connection \<Rightarrow> bool" for env key where
  resumes_read: "\<lbrakk> cn_pc c = Reading; data \<noteq> []; cn_request_bytes c + length data \<le> request_buffer_size \<rbrakk> \<Longrightarrow>
    resumes env key c [Received data] (on_read env key now1 now2 (Some data) c)"
| resumes_read_fails: "cn_pc c = Reading \<Longrightarrow> resumes env key c [] (on_read env key now1 now2 None c)"
| resumes_written: "cn_pc c = Writing \<Longrightarrow> resumes env key c
    (if kept_open key ok c
     then [Handled (take (unat (request_length (cn_req c))) (received_data c)) (cn_req c)] else [])
    (on_written env key now1 now2 ok c)"
| resumes_bad_written: "cn_pc c = WritingBad \<Longrightarrow> resumes env key c [] (on_bad_written key c)"

lemma resumes_conn_step: "resumes env key c es c' \<Longrightarrow> conn_step env key c es c'"
  by (auto elim!: resumes.cases intro: conn_step.intros)

lemma resumes_outcome:
  assumes "resumes env key c es c'" "\<not> cn_closed c" "distinct (keys_of (cn_mgr c))" "small_key key"
  shows "outcome key c c'"
proof -
  have on: "goes_on c c" using assms(2) by (simp add: goes_on_def)
  have consumed: "goes_on c (consume_request d) = goes_on c d" for d by (simp add: goes_on_def consume_request_def Let_def)
  note leaving = leave_outcome [OF _ assms(3,4)] and round = next_round_outcome [OF _ assms(3,4)]
  show ?thesis
    using assms(1)
  proof cases
    case (resumes_read data now1 now2)
    then show ?thesis using process_outcome [OF _ assms(3,4)] on by (simp add: on_read_def)
  next
    case (resumes_read_fails now1 now2)
    then show ?thesis using on by (auto simp: on_read_def intro!: leaving)
  next
    case (resumes_written ok now1 now2)
    then show ?thesis using on by (auto simp: on_written_def Let_def consumed intro!: leaving round)
  next
    case resumes_bad_written
    then show ?thesis using on by (auto simp: on_bad_written_def intro!: leaving)
  qed
qed

section \<open>The whole server\<close>

text \<open>
  A coroutine with the worker it runs on and the key of its connection. The date and the parser are local to a
  worker's thread; the hosts' data is shared by all threads.
\<close>

record coroutine =
  co_worker :: nat
  co_key :: u64
  co_conn :: connection

record http_world =
  hw_server :: http_server
  hw_data :: host_data
  hw_dates :: "bytes list"
  hw_parsers :: "HttpRequest list"
  hw_spawned :: "(nat \<times> u64) list"
  hw_coroutines :: "coroutine list"

definition new_world :: "nat \<Rightarrow> host_data \<Rightarrow> http_world" where
  "new_world threads data = \<lparr>hw_server = new_server threads, hw_data = data, hw_dates = replicate threads [],
     hw_parsers = replicate threads new_HttpRequest, hw_spawned = [], hw_coroutines = []\<rparr>"

definition mgr_at :: "nat \<Rightarrow> http_world \<Rightarrow> ConnectionMgr" where
  "mgr_at i w = (hs_workers (hw_server w) ! i)\<lparr>cm_next_key := hs_next_key (hw_server w)\<rparr>"

text \<open>A connection sees what its thread shares as it is now, and leaves it as it has changed it.\<close>

definition shared_view :: "nat \<Rightarrow> http_world \<Rightarrow> connection \<Rightarrow> connection" where
  "shared_view i w c = c\<lparr>cn_date := hw_dates w ! i, cn_parser := hw_parsers w ! i, cn_data := hw_data w, cn_mgr := mgr_at i w\<rparr>"

definition write_back :: "nat \<Rightarrow> connection \<Rightarrow> http_world \<Rightarrow> http_world" where
  "write_back i c w = w\<lparr>hw_server := at_worker i (\<lambda>_. cn_mgr c) (hw_server w), hw_data := cn_data c,
     hw_dates := (hw_dates w)[i := cn_date c], hw_parsers := (hw_parsers w)[i := cn_parser c]\<rparr>"

definition limit_of :: "http_env \<Rightarrow> nat" where
  "limit_of env = unat (max_connections (he_config env))"

text \<open>Accepts, the creation of a connection, the start of its coroutine, its steps, and the housekeeping.\<close>

inductive world_step :: "http_env \<Rightarrow> http_world \<Rightarrow> (u64 \<times> conn_event) list \<Rightarrow> http_world \<Rightarrow> bool" for env where
  world_accepts: "a < length (hs_workers (hw_server w)) \<Longrightarrow> i < length (hs_workers (hw_server w)) \<Longrightarrow>
    world_step env w [] (w\<lparr>hw_server := on_accept a i ok (hw_server w)\<rparr>)"
| world_creates: "\<lbrakk> hs_pending (hw_server w) = xs @ i # ys; i \<notin> set xs; hs_next_key (hw_server w) \<noteq> -1 \<rbrakk> \<Longrightarrow>
    world_step env w [] (w\<lparr>hw_server := OnNewConnection (limit_of env) now i ((hw_server w)\<lparr>hs_pending := xs @ ys\<rparr>),
      hw_spawned := hw_spawned w @ [(i, hs_next_key (hw_server w) + 1)]\<rparr>)"
| world_starts: "\<lbrakk> hw_spawned w = xs @ (i, key) # ys; length buffer = request_buffer_size;
      c = next_round env key now1 now2 (new_connection buffer (hw_dates w ! i) (hw_parsers w ! i) (hw_data w) (mgr_at i w)) \<rbrakk> \<Longrightarrow>
    world_step env w [] (write_back i c (w\<lparr>hw_spawned := xs @ ys,
      hw_coroutines := hw_coroutines w @ [\<lparr>co_worker = i, co_key = key, co_conn = c\<rparr>]\<rparr>))"
| world_resumes: "\<lbrakk> j < length (hw_coroutines w); hw_coroutines w ! j = k;
      resumes env (co_key k) (shared_view (co_worker k) w (co_conn k)) es c \<rbrakk> \<Longrightarrow>
    world_step env w (map (Pair (co_key k)) es)
      (write_back (co_worker k) c (w\<lparr>hw_coroutines := (hw_coroutines w)[j := k\<lparr>co_conn := c\<rparr>]\<rparr>))"
| world_housekeeps: "i < length (hs_workers (hw_server w)) \<Longrightarrow>
    world_step env w [] (w\<lparr>hw_server := Housekeeping now i (hw_server w)\<rparr>)"

inductive world_run :: "http_env \<Rightarrow> nat \<Rightarrow> host_data \<Rightarrow> (u64 \<times> conn_event) list \<Rightarrow> http_world \<Rightarrow> bool" for env threads data where
  world_new: "world_run env threads data [] (new_world threads data)"
| world_next: "world_run env threads data es w \<Longrightarrow> world_step env w es' w' \<Longrightarrow> world_run env threads data (es @ es') w'"

section \<open>Objects and coroutines\<close>

text \<open>The coroutines of a worker that have not ended, or not begun.\<close>

definition unfinished :: "http_world \<Rightarrow> (nat \<times> u64) list" where
  "unfinished w = hw_spawned w @ map (\<lambda>k. (co_worker k, co_key k)) (filter (\<lambda>k. cn_pc (co_conn k) \<noteq> Finished) (hw_coroutines w))"

definition keys_at :: "nat \<Rightarrow> http_world \<Rightarrow> u64 set" where
  "keys_at i w = {key. (i, key) \<in> set (unfinished w)}"

definition used_keys :: "http_world \<Rightarrow> u64 list" where
  "used_keys w = map snd (hw_spawned w) @ map co_key (hw_coroutines w)"

definition coroutines_ok :: "http_world \<Rightarrow> bool" where
  "coroutines_ok w \<longleftrightarrow> (let n = length (hs_workers (hw_server w)) in
     length (hw_dates w) = n \<and> length (hw_parsers w) = n \<and> distinct (used_keys w) \<and>
     list_all (\<lambda>key. key \<le> hs_next_key (hw_server w)) (used_keys w) \<and> list_all (\<lambda>(i, key). i < n) (hw_spawned w) \<and>
     list_all (\<lambda>k. co_worker k < n \<and> (cn_closed (co_conn k) \<longleftrightarrow> cn_pc (co_conn k) = Finished)) (hw_coroutines w))"

definition world_ok :: "nat \<Rightarrow> http_world \<Rightarrow> bool" where
  "world_ok limit w \<longleftrightarrow> server_ok limit (hw_server w) \<and> coroutines_ok w \<and>
     (\<forall>i < length (hs_workers (hw_server w)). set (keys_of (hs_workers (hw_server w) ! i)) = keys_at i w)"

lemma outcome_effect:
  assumes "outcome key c c'"
  shows "cm_next_key (cn_mgr c') = cm_next_key (cn_mgr c)" "mgr_ok limit (cn_mgr c) \<Longrightarrow> mgr_ok limit (cn_mgr c')"
    "set (keys_of (cn_mgr c')) = set (keys_of (cn_mgr c)) - (if cn_pc c' = Finished then {key} else {})"
    "cn_closed c' \<longleftrightarrow> cn_pc c' = Finished"
  using assms by (auto simp: outcome_def has_left_def goes_on_def same_objects_def split: if_splits)

lemma write_back_ok:
  fixes sp :: "(nat \<times> u64) list" and cs :: "coroutine list"
  defines "w1 \<equiv> \<lambda>w. w\<lparr>hw_spawned := sp, hw_coroutines := cs\<rparr>"
  assumes "world_ok limit w" "i < length (hs_workers (hw_server w))" "outcome key c c'" "cn_mgr c = mgr_at i w"
    and "coroutines_ok (w1 w)"
    and "\<And>i'. keys_at i' (w1 w) = keys_at i' w - (if i' = i \<and> cn_pc c' = Finished then {key} else {})"
  shows "world_ok limit (write_back i c' (w1 w))"
proof -
  let ?s = "hw_server w" and ?m = "cn_mgr c'"
  note eff = outcome_effect [OF assms(4)]
  have s: "server_ok limit ?s" using assms(2) by (simp add: world_ok_def)
  then have "mgr_ok limit (mgr_at i w)"
    using assms(3) by (simp add: server_ok_def list_all_length worker_ok_def mgr_at_def)
  then have m: "mgr_ok limit ?m" "keeps_keys (mgr_at i w) ?m" "cm_next_key ?m = hs_next_key ?s"
    "set (keys_of ?m) = set (keys_of (hs_workers ?s ! i)) - (if cn_pc c' = Finished then {key} else {})"
    using eff(1-3) assms(5) by (auto simp: keeps_keys_def mgr_at_def)
  from at_worker_ok [OF s assms(3) refl, of "\<lambda>_. ?m"] m(1,2) have server: "server_ok limit (at_worker i (\<lambda>_. ?m) ?s)"
    by (simp add: mgr_at_def)
  have "coroutines_ok (write_back i c' (w1 w))"
    using assms(6) m(3) by (simp add: coroutines_ok_def write_back_def used_keys_def w1_def at_worker_def Let_def)
  moreover have "set (keys_of (hs_workers (hw_server (write_back i c' (w1 w))) ! i')) = keys_at i' (write_back i c' (w1 w))"
    if "i' < length (hs_workers ?s)" for i'
  proof -
    have "set (keys_of (hs_workers ?s ! i')) = keys_at i' w" using assms(2) that by (simp add: world_ok_def)
    moreover have "keys_at i' (write_back i c' (w1 w)) = keys_at i' (w1 w)"
      by (simp add: keys_at_def unfinished_def write_back_def)
    ultimately show ?thesis
      using assms(3,7) m(4) that by (cases "i' = i") (simp_all add: write_back_def w1_def at_worker_def Let_def)
  qed
  ultimately show ?thesis using server by (simp add: world_ok_def write_back_def w1_def)
qed

lemma small_keys:
  assumes "world_ok limit w" "hs_next_key (hw_server w) < 2 ^ 31" "key \<in> set (used_keys w)"
  shows "small_key key"
proof -
  have "key \<le> hs_next_key (hw_server w)"
    using assms(1,3) unfolding world_ok_def coroutines_ok_def Let_def list_all_iff by blast
  from le_less_trans [OF this assms(2)] show ?thesis by (simp add: small_key_def)
qed

lemma distinct_mgr:
  assumes "world_ok limit w" "i < length (hs_workers (hw_server w))"
  shows "distinct (keys_of (mgr_at i w))"
proof -
  have "worker_ok limit (hs_next_key (hw_server w)) (hs_workers (hw_server w) ! i)"
    using assms by (simp add: world_ok_def server_ok_def list_all_length)
  then show ?thesis by (simp add: worker_ok_def mgr_ok_def mgr_at_def)
qed

lemma started_ok:
  assumes ok: "world_ok limit w" and next_key: "hs_next_key (hw_server w) < 2 ^ 31"
    and sp: "hw_spawned w = xs @ (i, key) # ys"
    and c: "c = next_round env key now1 now2 (new_connection buffer (hw_dates w ! i) (hw_parsers w ! i) (hw_data w) (mgr_at i w))"
  shows "world_ok limit (write_back i c (w\<lparr>hw_spawned := xs @ ys,
    hw_coroutines := hw_coroutines w @ [\<lparr>co_worker = i, co_key = key, co_conn = c\<rparr>]\<rparr>))"
proof -
  let ?c0 = "new_connection buffer (hw_dates w ! i) (hw_parsers w ! i) (hw_data w) (mgr_at i w)"
  from ok have co: "coroutines_ok w" by (simp add: world_ok_def)
  then have i: "i < length (hs_workers (hw_server w))" by (simp add: coroutines_ok_def sp Let_def)
  have "goes_on ?c0 ?c0" "distinct (keys_of (cn_mgr ?c0))"
    using distinct_mgr [OF ok i] by (simp_all add: goes_on_def new_connection_def)
  moreover have "small_key key" using small_keys [OF ok next_key, of key] by (simp add: used_keys_def sp)
  ultimately have out: "outcome key ?c0 c" unfolding c by (rule next_round_outcome)
  have "cn_mgr ?c0 = mgr_at i w" by (simp add: new_connection_def)
  note wb = write_back_ok [OF ok i out this]
  show ?thesis
  proof (rule wb)
    show "coroutines_ok (w\<lparr>hw_spawned := xs @ ys, hw_coroutines := hw_coroutines w @ [\<lparr>co_worker = i, co_key = key, co_conn = c\<rparr>]\<rparr>)"
      using co outcome_effect(4) [OF out] by (simp add: coroutines_ok_def used_keys_def sp Let_def)
  next
    fix i'
    have "distinct (used_keys w)" using co by (simp add: coroutines_ok_def Let_def)
    then have fresh: "key \<notin> co_key ` set (hw_coroutines w)" "key \<notin> snd ` set (xs @ ys)" by (auto simp: used_keys_def sp)
    have "(i', key) \<notin> set (map (\<lambda>k. (co_worker k, co_key k)) (hw_coroutines w))" "(i', key) \<notin> set (xs @ ys)"
      using fresh by force+
    then show "keys_at i' (w\<lparr>hw_spawned := xs @ ys, hw_coroutines := hw_coroutines w @ [\<lparr>co_worker = i, co_key = key, co_conn = c\<rparr>]\<rparr>) =
        keys_at i' w - (if i' = i \<and> cn_pc c = Finished then {key} else {})"
      by (auto simp: keys_at_def unfinished_def sp)
  qed
qed

lemma resumes_pc: "resumes env key c es c' \<Longrightarrow> cn_pc c \<noteq> Finished"
  by (auto elim: resumes.cases)

lemma shared_view_simps [simp]: "cn_pc (shared_view i w c) = cn_pc c" "cn_closed (shared_view i w c) = cn_closed c"
  "cn_mgr (shared_view i w c) = mgr_at i w"
  by (simp_all add: shared_view_def)

text \<open>A coroutine that is woken up, in whatever way, and has an outcome as shown above.\<close>

lemma woken_ok:
  assumes ok: "world_ok limit w" and next_key: "hs_next_key (hw_server w) < 2 ^ 31"
    and j: "j < length (hw_coroutines w)" "hw_coroutines w ! j = k"
    and pc: "cn_pc (co_conn k) \<noteq> Finished"
    and does: "\<not> cn_closed (co_conn k) \<Longrightarrow> distinct (keys_of (mgr_at (co_worker k) w)) \<Longrightarrow> small_key (co_key k) \<Longrightarrow>
      outcome (co_key k) (shared_view (co_worker k) w (co_conn k)) c"
  shows "world_ok limit (write_back (co_worker k) c (w\<lparr>hw_coroutines := (hw_coroutines w)[j := k\<lparr>co_conn := c\<rparr>]\<rparr>))"
proof -
  let ?i = "co_worker k" and ?cs = "(hw_coroutines w)[j := k\<lparr>co_conn := c\<rparr>]"
  from ok have co: "coroutines_ok w" by (simp add: world_ok_def)
  from j have k: "k \<in> set (hw_coroutines w)" by auto
  with co have i: "?i < length (hs_workers (hw_server w))"
    and shut: "cn_closed (co_conn k) \<longleftrightarrow> cn_pc (co_conn k) = Finished" by (auto simp: coroutines_ok_def list_all_iff Let_def)
  have "small_key (co_key k)" using small_keys [OF ok next_key, of "co_key k"] k by (simp add: used_keys_def)
  with does distinct_mgr [OF ok i] shut pc
  have out: "outcome (co_key k) (shared_view ?i w (co_conn k)) c" by simp
  have same: "w\<lparr>hw_coroutines := ?cs\<rparr> = w\<lparr>hw_spawned := hw_spawned w, hw_coroutines := ?cs\<rparr>" by simp
  show ?thesis
    unfolding same
  proof (rule write_back_ok [OF ok i out])
    have keys: "map co_key ?cs = map co_key (hw_coroutines w)"
      using j by (simp add: map_update) (metis list_update_id map_update)
    have "list_all (\<lambda>k. co_worker k < length (hs_workers (hw_server w)) \<and> (cn_closed (co_conn k) \<longleftrightarrow> cn_pc (co_conn k) = Finished)) ?cs"
      using co j i outcome_effect(4) [OF out] by (auto simp: coroutines_ok_def list_all_length nth_list_update Let_def)
    with keys co show "coroutines_ok (w\<lparr>hw_spawned := hw_spawned w, hw_coroutines := ?cs\<rparr>)"
      by (simp add: coroutines_ok_def used_keys_def Let_def)
  next
    fix i'
    have split: "hw_coroutines w = take j (hw_coroutines w) @ k # drop (Suc j) (hw_coroutines w)"
      "?cs = take j (hw_coroutines w) @ k\<lparr>co_conn := c\<rparr> # drop (Suc j) (hw_coroutines w)"
      using j id_take_nth_drop [of j "hw_coroutines w"] by (simp_all add: upd_conv_take_nth_drop)
    obtain xs ys where xs: "hw_coroutines w = xs @ k # ys" "?cs = xs @ k\<lparr>co_conn := c\<rparr> # ys" using split by blast
    have "distinct (used_keys w)" using co by (simp add: coroutines_ok_def Let_def)
    then have fresh: "co_key k \<notin> snd ` set (hw_spawned w)" "co_key k \<notin> co_key ` set (xs @ ys)" by (auto simp: used_keys_def xs(1))
    have "(i', co_key k) \<notin> set (hw_spawned w)"
        "(i', co_key k) \<notin> set (map (\<lambda>k. (co_worker k, co_key k)) (xs @ ys))"
      using fresh by force+
    then show "keys_at i' (w\<lparr>hw_spawned := hw_spawned w, hw_coroutines := ?cs\<rparr>) =
        keys_at i' w - (if i' = ?i \<and> cn_pc c = Finished then {co_key k} else {})"
      unfolding xs(2) using pc by (auto simp: keys_at_def unfinished_def xs(1))
  qed simp
qed

lemma resumed_ok:
  assumes ok: "world_ok limit w" and next_key: "hs_next_key (hw_server w) < 2 ^ 31"
    and j: "j < length (hw_coroutines w)" "hw_coroutines w ! j = k"
    and step: "resumes env (co_key k) (shared_view (co_worker k) w (co_conn k)) es c"
  shows "world_ok limit (write_back (co_worker k) c (w\<lparr>hw_coroutines := (hw_coroutines w)[j := k\<lparr>co_conn := c\<rparr>]\<rparr>))"
  using woken_ok [OF ok next_key j] resumes_pc [OF step] resumes_outcome [OF step] by simp

text \<open>The manager's own operations: what they do to the keys of its objects.\<close>

lemma Kill_same_keys: "i < length (cm_connections m) \<Longrightarrow> set (keys_of (Kill i m)) = set (keys_of m)"
proof -
  assume i: "i < length (cm_connections m)"
  then have "cm_connections m = take i (cm_connections m) @ cm_connections m ! i # drop (Suc i) (cm_connections m)"
    by (rule id_take_nth_drop)
  then have "set (cm_connections m) = insert (cm_connections m ! i) (set (erase i (cm_connections m)))"
    unfolding erase_def by (metis Un_insert_right list.simps(15) set_append)
  then show ?thesis by (auto simp: Kill_def keys_of_def Let_def)
qed

lemma RemoveConnections_same_keys: "set (keys_of (RemoveConnections keys m)) = set (keys_of m)"
proof (induction keys arbitrary: m)
  case (Cons key keys)
  show ?case
  proof (cases "Lookup_conn key (cm_connections m)")
    case (Some i)
    let ?m = "m\<lparr>cm_stats := (cm_stats m)\<lparr>overflow_dropped_connections := overflow_dropped_connections (cm_stats m) + 1\<rparr>\<rparr>"
    have "i < length (cm_connections ?m)" using Lookup_conn_Some [OF Some] by simp
    from Kill_same_keys [OF this] Cons [of "Kill i ?m"] Some show ?thesis by simp
  qed (use Cons in simp)
qed simp

lemma RemoveExpieredConnections_same_keys: "set (keys_of (RemoveExpieredConnections now m)) = set (keys_of m)"
  "cm_next_key (RemoveExpieredConnections now m) = cm_next_key m"
  by (simp_all add: RemoveExpieredConnections_def RemoveConnections_same_keys RemoveConnections_keys Let_def)

lemma CreateConnection_adds_key:
  "set (keys_of (snd (CreateConnection limit now m))) = insert (cm_next_key m + 1) (set (keys_of m))"
  "cm_next_key (snd (CreateConnection limit now m)) = cm_next_key m + 1"
proof -
  let ?m1 = "m\<lparr>cm_next_key := cm_next_key m + 1, cm_open := insert (cm_next_key m + 1) (cm_open m),
     cm_connections := cm_connections m @ [\<lparr>ce_key = cm_next_key m + 1, ce_expire = now + 3\<rparr>]\<rparr>"
  have m1: "set (keys_of ?m1) = insert (cm_next_key m + 1) (set (keys_of m))" by (auto simp: keys_of_def)
  have "snd (CreateConnection limit now m) = (if limit \<noteq> 0 \<and> limit < length (cm_connections ?m1) then Kill 0 ?m1 else ?m1)"
    by (simp add: CreateConnection_def Let_def)
  with m1 Kill_same_keys [of 0 ?m1] show "set (keys_of (snd (CreateConnection limit now m))) = insert (cm_next_key m + 1) (set (keys_of m))"
    "cm_next_key (snd (CreateConnection limit now m)) = cm_next_key m + 1" by (auto simp: Kill_def Let_def)
qed

text \<open>A step of the managers that adds no coroutine and takes none away.\<close>

lemma server_only_ok:
  assumes "world_ok limit w" "server_ok limit s" "length (hs_workers s) = length (hs_workers (hw_server w))"
    and "hs_next_key s = hs_next_key (hw_server w)"
    and "\<And>i. i < length (hs_workers s) \<Longrightarrow> set (keys_of (hs_workers s ! i)) = set (keys_of (hs_workers (hw_server w) ! i))"
  shows "world_ok limit (w\<lparr>hw_server := s\<rparr>)"
  using assms by (simp add: world_ok_def coroutines_ok_def used_keys_def keys_at_def unfinished_def Let_def)

lemma at_worker_keys:
  assumes "\<And>m. set (keys_of (f m)) = set (keys_of m)" "\<And>m. cm_next_key (f m) = cm_next_key m"
  shows "i < length (hs_workers s) \<Longrightarrow> set (keys_of (hs_workers (at_worker j f s) ! i)) = set (keys_of (hs_workers s ! i))"
    "hs_next_key (at_worker j f s) = hs_next_key s"
  using assms(1) [of "(hs_workers s ! j)\<lparr>cm_next_key := hs_next_key s\<rparr>"] assms(2)
  by (cases "i = j"; simp add: at_worker_def Let_def)+

lemma counting_keys: "set (keys_of (count_at f m)) = set (keys_of m)" "cm_next_key (count_at f m) = cm_next_key m"
  by (simp_all add: count_at_def)

lemma accepted_ok:
  assumes "world_ok limit w" "a < length (hs_workers (hw_server w))" "i < length (hs_workers (hw_server w))"
  shows "world_ok limit (w\<lparr>hw_server := on_accept a i ok (hw_server w)\<rparr>)"
proof (rule server_only_ok [OF assms(1)])
  show "server_ok limit (on_accept a i ok (hw_server w))"
    using assms by (intro on_accept_ok) (simp_all add: world_ok_def)
qed (cases ok; simp add: on_accept_def at_worker_keys counting_keys)+

lemma housekept_ok:
  assumes "world_ok limit w" "i < length (hs_workers (hw_server w))"
  shows "world_ok limit (w\<lparr>hw_server := Housekeeping now i (hw_server w)\<rparr>)"
proof (rule server_only_ok [OF assms(1)])
  show "server_ok limit (Housekeeping now i (hw_server w))"
    using assms server_step_ok [OF server_housekeeps] by (simp add: world_ok_def)
qed (simp_all add: Housekeeping_def UpdateStats_http_def at_worker_keys counting_keys RemoveExpieredConnections_same_keys)

lemma created_ok:
  assumes ok: "world_ok (limit_of env) w" and p: "hs_pending (hw_server w) = xs @ i # ys" "i \<notin> set xs" "hs_next_key (hw_server w) \<noteq> -1"
  shows "world_ok (limit_of env) (w\<lparr>hw_server := OnNewConnection (limit_of env) now i ((hw_server w)\<lparr>hs_pending := xs @ ys\<rparr>),
      hw_spawned := hw_spawned w @ [(i, hs_next_key (hw_server w) + 1)]\<rparr>)"
proof -
  let ?s = "hw_server w" and ?key = "hs_next_key (hw_server w) + 1"
  let ?s' = "OnNewConnection (limit_of env) now i (?s\<lparr>hs_pending := xs @ ys\<rparr>)"
  let ?w' = "w\<lparr>hw_server := ?s', hw_spawned := hw_spawned w @ [(i, ?key)]\<rparr>"
  from ok have server: "server_ok (limit_of env) ?s" and co: "coroutines_ok w"
    and keys: "\<And>i'. i' < length (hs_workers ?s) \<Longrightarrow> set (keys_of (hs_workers ?s ! i')) = keys_at i' w"
    by (simp_all add: world_ok_def)
  from server_step_ok [OF server_creates [OF p] server] have "server_ok (limit_of env) ?s'" by simp
  moreover have i: "i < length (hs_workers ?s)" using server p(1) by (simp add: server_ok_def)
  moreover have up: "hs_next_key ?s < ?key" using next_key_up [of "mgr_at i w"] p(3) by (simp add: mgr_at_def)
  have next_key: "hs_next_key ?s' = ?key"
    by (simp add: OnNewConnection_def at_worker_def CreateConnection_adds_key Let_def)
  have "coroutines_ok ?w'"
  proof -
    from co have le: "list_all (\<lambda>key. key \<le> hs_next_key ?s) (used_keys w)" by (simp add: coroutines_ok_def Let_def)
    then have "?key \<notin> set (used_keys w)" using up by (auto simp: list_all_iff)
    moreover have "list_all (\<lambda>key. key \<le> ?key) (used_keys w)" using le up by (auto simp: list_all_iff)
    ultimately show ?thesis using co i next_key
      by (simp add: coroutines_ok_def used_keys_def OnNewConnection_def Let_def)
  qed
  moreover have "set (keys_of (hs_workers ?s' ! i')) = keys_at i' ?w'" if "i' < length (hs_workers ?s)" for i'
  proof -
    have "keys_at i' ?w' = (if i' = i then insert ?key (keys_at i' w) else keys_at i' w)"
      by (auto simp: keys_at_def unfinished_def)
    with keys [OF that] that show ?thesis
      by (cases "i' = i") (simp_all add: OnNewConnection_def at_worker_def CreateConnection_adds_key Let_def)
  qed
  ultimately show ?thesis by (simp add: world_ok_def OnNewConnection_def)
qed

text \<open>A coroutine takes no key.\<close>

lemma no_key_taken [simp]:
  "cm_next_key (cn_mgr (close_socket key c)) = cm_next_key (cn_mgr c)" "cm_next_key (cn_mgr (end_request c)) = cm_next_key (cn_mgr c)"
  "cm_next_key (cn_mgr (count_stats f c)) = cm_next_key (cn_mgr c)" "cm_next_key (SetEndOfLife key t m) = cm_next_key m"
  "cm_next_key (Remove key m) = cm_next_key m" "cn_mgr (consume_request c) = cn_mgr c"
  by (simp_all add: close_socket_def CloseSocket_def end_request_def count_stats_def SetEndOfLife_def Remove_def
      consume_request_def Let_def split: option.splits)

lemma leave_takes_no_key [simp]: "cm_next_key (cn_mgr (leave key c)) = cm_next_key (cn_mgr c)"
  by (simp add: leave_def Close_def Let_def)

lemma process_takes_no_key [simp]: "cm_next_key (cn_mgr (process env key now1 now2 c)) = cm_next_key (cn_mgr c)"
proof -
  have answer: "cm_next_key (cn_mgr (answer_request env key now1 now2 d)) = cm_next_key (cn_mgr d)" for d
    by (auto simp: answer_request_def Let_def split: sum.splits vhost_exn.splits host_exn.splits prod.splits)
  let ?c0 = "c\<lparr>cn_request_state := UNSET, cn_need_more := True\<rparr>"
  obtain result c1 where p: "ParseRequest env ?c0 = (result, c1)" by (cases "ParseRequest env ?c0")
  then have "cn_mgr c1 = cn_mgr c" by (auto simp: ParseRequest_def Let_def split: prod.splits if_splits)
  with p answer show ?thesis by (cases result) (simp_all add: process_def Let_def)
qed

lemma next_round_takes_no_key [simp]: "cm_next_key (cn_mgr (next_round env key now1 now2 c)) = cm_next_key (cn_mgr c)"
  by (simp add: next_round_def)

lemma resumes_takes_no_key: "resumes env key c es c' \<Longrightarrow> cm_next_key (cn_mgr c') = cm_next_key (cn_mgr c)"
  by (erule resumes.cases) (simp_all add: on_read_def on_written_def on_bad_written_def Let_def split: option.splits)

lemma world_step_next_key:
  assumes "world_step env w es w'"
  shows "hs_next_key (hw_server w) \<le> hs_next_key (hw_server w')"
  using assms
proof cases
  case (world_accepts a i ok)
  then show ?thesis by (simp add: on_accept_def at_worker_keys counting_keys)
next
  case (world_creates xs i ys now)
  then show ?thesis using next_key_up [of "mgr_at i w"]
    by (simp add: OnNewConnection_def at_worker_def CreateConnection_adds_key mgr_at_def Let_def)
next
  case (world_starts xs i key ys buffer c now1 now2)
  then show ?thesis by (simp add: write_back_def at_worker_def Let_def mgr_at_def new_connection_def)
next
  case (world_resumes j k es c)
  then show ?thesis by (simp add: write_back_def at_worker_def Let_def resumes_takes_no_key mgr_at_def)
next
  case (world_housekeeps i now)
  then show ?thesis
    by (simp add: Housekeeping_def UpdateStats_http_def at_worker_keys counting_keys RemoveExpieredConnections_same_keys)
qed

lemma world_step_ok:
  assumes "world_step env w es w'" "world_ok (limit_of env) w" "hs_next_key (hw_server w) < 2 ^ 31"
  shows "world_ok (limit_of env) w'"
  using assms(1)
proof cases
  case (world_accepts a i ok)
  with accepted_ok [OF assms(2)] show ?thesis by simp
next
  case (world_creates xs i ys now)
  with created_ok [OF assms(2)] show ?thesis by simp
next
  case (world_starts xs i key ys buffer c now1 now2)
  with started_ok [OF assms(2,3)] show ?thesis by simp
next
  case (world_resumes j k es c)
  with resumed_ok [OF assms(2,3)] show ?thesis by simp
next
  case (world_housekeeps i now)
  with housekept_ok [OF assms(2)] show ?thesis by simp
qed

lemma world_run_ok:
  assumes "world_run env threads data es w" "hs_next_key (hw_server w) < 2 ^ 31"
  shows "world_ok (limit_of env) w \<and> length (hs_workers (hw_server w)) = threads"
  using assms
proof induction
  case world_new
  have "server_ok (limit_of env) (new_server threads)" using server_run_ok [OF server_start] by blast
  moreover have "keys_of (replicate threads new_mgr ! i) = []" if "i < threads" for i
    using that by (simp add: new_mgr_def keys_of_def)
  ultimately show ?case
    by (simp add: world_ok_def new_world_def new_server_def coroutines_ok_def used_keys_def keys_at_def unfinished_def Let_def)
next
  case (world_next es w es' w')
  from world_step_next_key [OF world_next.hyps(2)] world_next.prems have small: "hs_next_key (hw_server w) < 2 ^ 31"
    by (rule le_less_trans)
  moreover have "length (hs_workers (hw_server w')) = length (hs_workers (hw_server w))"
    using world_next.hyps(2)
    by (cases rule: world_step.cases) (simp_all add: on_accept_def OnNewConnection_def Housekeeping_def UpdateStats_http_def write_back_def)
  ultimately show ?case using world_step_ok [OF world_next.hyps(2)] world_next.IH by simp
qed

section \<open>Each connection for itself\<close>

definition events_of :: "u64 \<Rightarrow> (u64 \<times> conn_event) list \<Rightarrow> conn_event list" where
  "events_of key es = map snd (filter (\<lambda>e. fst e = key) es)"

lemma events_of_append [simp]: "events_of key (es @ es') = events_of key es @ events_of key es'"
  by (simp add: events_of_def)

lemma events_of_own [simp]: "events_of key (map (Pair key') es) = (if key' = key then es else [])"
  by (induction es) (auto simp: events_of_def)

definition traced :: "http_env \<Rightarrow> (u64 \<times> conn_event) list \<Rightarrow> http_world \<Rightarrow> bool" where
  "traced env es w \<longleftrightarrow> (\<forall>k \<in> set (hw_coroutines w). conn_run env (co_key k) (events_of (co_key k) es) (co_conn k)) \<and>
     fst ` set es \<subseteq> co_key ` set (hw_coroutines w)"

lemma view_run: "conn_run env key es c \<Longrightarrow> conn_run env key es (shared_view i w c)"
  using conn_next [of env key es c "[]"] step_others by (fastforce simp: shared_view_def)

lemma world_step_traced:
  assumes "world_step env w es' w'" "traced env es w" "world_ok limit w"
  shows "traced env (es @ es') w'"
  using assms(1)
proof cases
  case (world_starts xs i key ys buffer c now1 now2)
  have "distinct (used_keys w)" using assms(3) by (simp add: world_ok_def coroutines_ok_def Let_def)
  then have "key \<notin> co_key ` set (hw_coroutines w)" by (auto simp: used_keys_def world_starts(3))
  then have "key \<notin> fst ` set es" using assms(2) by (auto simp: traced_def)
  then have "events_of key es = []" by (force simp: events_of_def filter_empty_conv)
  moreover have "conn_run env key [] c" unfolding world_starts(5) using world_starts(4) by (rule conn_start)
  ultimately show ?thesis using assms(2) world_starts(1,2) by (auto simp: traced_def write_back_def)
next
  case (world_resumes j k es1 c)
  have k: "k \<in> set (hw_coroutines w)" using world_resumes(3,4) by auto
  then have "conn_run env (co_key k) (events_of (co_key k) es) (shared_view (co_worker k) w (co_conn k))"
    using assms(2) view_run by (auto simp: traced_def)
  from conn_next [OF this resumes_conn_step [OF world_resumes(5)]]
  have own: "conn_run env (co_key k) (events_of (co_key k) es @ es1) c" .
  let ?cs = "(hw_coroutines w)[j := k\<lparr>co_conn := c\<rparr>]"
  have keys: "map co_key ?cs = map co_key (hw_coroutines w)"
    using world_resumes(3,4) by (simp add: map_update) (metis list_update_id map_update)
  have d: "distinct (map co_key (hw_coroutines w))"
    using assms(3) by (simp add: world_ok_def coroutines_ok_def used_keys_def Let_def)
  have "conn_run env (co_key x) (events_of (co_key x) (es @ map (Pair (co_key k)) es1)) (co_conn x)" if "x \<in> set ?cs" for x
  proof -
    from that obtain i where i: "i < length (hw_coroutines w)" "x = ?cs ! i" by (auto simp: in_set_conv_nth)
    show ?thesis
    proof (cases "i = j")
      case True
      with i own world_resumes(4) show ?thesis by simp
    next
      case False
      then have "co_key x \<noteq> co_key k" using d i world_resumes(3,4) by (metis length_map nth_eq_iff_index_eq nth_list_update_neq nth_map)
      with assms(2) i False show ?thesis by (auto simp: traced_def)
    qed
  qed
  moreover have "co_key ` set ?cs = co_key ` set (hw_coroutines w)" using keys by (metis list.set_map)
  ultimately show ?thesis using assms(2) k world_resumes(1,2) by (auto simp: traced_def write_back_def)
qed (use assms(2) in \<open>simp_all add: traced_def\<close>)

lemma world_run_traced:
  assumes "world_run env threads data es w" "hs_next_key (hw_server w) < 2 ^ 31"
  shows "traced env es w"
  using assms
proof induction
  case world_new
  show ?case by (simp add: traced_def new_world_def)
next
  case (world_next es w es' w')
  from world_step_next_key [OF world_next.hyps(2)] world_next.prems have "hs_next_key (hw_server w) < 2 ^ 31"
    by (rule le_less_trans)
  with world_run_ok [OF world_next.hyps(1)] world_next.IH world_step_traced [OF world_next.hyps(2)] show ?case by blast
qed

text \<open>
  C10: objects and coroutines of the whole server. Whatever the coroutines of all connections, the
  accept loops and the housekeeping of all workers do in any order, as long as less than \<open>2 ^ 31\<close> connections have been
  made: a worker's manager holds exactly one connection
  object for each of the worker's coroutines that has not ended, so no coroutine uses an object that has been
  destroyed, also when the manager has dropped the connection, and no object is left behind. Sockets are
  open for such coroutines only. Where a limit is set, neither the connections that the manager has not dropped nor the
  open sockets of the worker are more than it.
\<close>

theorem objects_outlive_coroutines:
  assumes "world_run env threads data es w" "hs_next_key (hw_server w) < 2 ^ 31" "i < threads"
  shows "mset (keys_of (hs_workers (hw_server w) ! i)) = mset (map snd (filter (\<lambda>x. fst x = i) (unfinished w))) \<and>
    distinct (map snd (unfinished w)) \<and> cm_open (hs_workers (hw_server w) ! i) \<subseteq> keys_at i w \<and>
    (limit_of env = 0 \<or> length (cm_connections (hs_workers (hw_server w) ! i)) \<le> limit_of env \<and>
       card (cm_open (hs_workers (hw_server w) ! i)) \<le> limit_of env)"
proof -
  let ?m = "hs_workers (hw_server w) ! i"
  from world_run_ok [OF assms(1,2)] assms(3) have ok: "world_ok (limit_of env) w" and i: "i < length (hs_workers (hw_server w))"
    by simp_all
  then have keys: "set (keys_of ?m) = keys_at i w" and m: "worker_ok (limit_of env) (hs_next_key (hw_server w)) ?m"
    by (simp_all add: world_ok_def server_ok_def list_all_length)
  from ok have "distinct (used_keys w)" by (simp add: world_ok_def coroutines_ok_def Let_def)
  then have d: "distinct (map snd (unfinished w))"
    by (auto simp: used_keys_def unfinished_def comp_def distinct_map_filter)
  then have "distinct (map snd (filter (\<lambda>x. fst x = i) (unfinished w)))" by (rule distinct_map_filter)
  moreover have "set (map snd (filter (\<lambda>x. fst x = i) (unfinished w))) = keys_at i w" by (force simp: keys_at_def)
  moreover have "distinct (keys_of ?m)" using m by (simp add: worker_ok_def mgr_ok_def)
  ultimately have "mset (keys_of ?m) = mset (map snd (filter (\<lambda>x. fst x = i) (unfinished w)))"
    using keys set_eq_iff_mset_eq_distinct by metis
  moreover have "cm_open ?m \<subseteq> set (keys_of ?m)" using m by (auto simp: worker_ok_def mgr_ok_def keys_of_def)
  moreover have "card (cm_open ?m) \<le> length (cm_connections ?m)"
  proof -
    from m have "cm_open ?m \<subseteq> set (map ce_key (cm_connections ?m))" by (simp add: worker_ok_def mgr_ok_def)
    then have "card (cm_open ?m) \<le> card (set (map ce_key (cm_connections ?m)))" by (intro card_mono) simp_all
    also have "\<dots> \<le> length (cm_connections ?m)" using card_length [of "map ce_key (cm_connections ?m)"] by simp
    finally show ?thesis .
  qed
  ultimately show ?thesis using d keys m by (auto simp: worker_ok_def mgr_ok_def)
qed

text \<open>
  C11: the connections of the server do not disturb each other, as long as less than \<open>2 ^ 31\<close> have been made and the
  parser takes at least a byte and no more than it was given. The events of each connection, taken out of the events of
  all, are a run of the steps of one connection, into which the others come only as changes of what they share, the
  date, the parser's request, the hits and the manager: never of its buffer, its place in its code, its request or its
  reply. So everything shown of one connection in such surroundings holds of each of them; in particular
  the bytes it has received are those of the requests it has handled, in order, and of its buffer.
\<close>

theorem connections_independent:
  assumes "world_run env threads data es w" "hs_next_key (hw_server w) < 2 ^ 31" "parser_ok env"
  shows "list_all (\<lambda>k. conn_run env (co_key k) (events_of (co_key k) es) (co_conn k) \<and>
      received (events_of (co_key k) es) = concat (map fst (handled (events_of (co_key k) es))) @ received_data (co_conn k))
    (hw_coroutines w)"
  using world_run_traced [OF assms(1,2)] conn_run_ok [OF _ assms(3)] by (auto simp: list_all_iff traced_def)

section \<open>A sample run\<close>

definition sample_started :: http_world where
  "sample_started = (let w = new_world 1 sample_data; s = (on_accept 0 0 True (new_server 1))\<lparr>hs_pending := []\<rparr>;
     w2 = w\<lparr>hw_server := OnNewConnection 0 99 0 s, hw_spawned := [(0, 1)]\<rparr>;
     c = next_round sample_http_env 1 5 5 (new_connection (replicate request_buffer_size 0) [] new_HttpRequest sample_data (mgr_at 0 w2))
   in write_back 0 c (w2\<lparr>hw_spawned := [], hw_coroutines := [\<lparr>co_worker = 0, co_key = 1, co_conn = c\<rparr>]\<rparr>))"

lemma sample_limit: "limit_of sample_http_env = 0"
  by (simp add: limit_of_def sample_http_env_def sample_config_def default_config_def)

lemma sample_started_run: "world_run sample_http_env 1 sample_data [] sample_started"
proof -
  let ?env = sample_http_env
  let ?w0 = "new_world 1 sample_data"
  let ?w1 = "?w0\<lparr>hw_server := on_accept 0 0 True (new_server 1)\<rparr>"
  let ?s = "(on_accept 0 0 True (new_server 1))\<lparr>hs_pending := []\<rparr>"
  let ?w2 = "?w0\<lparr>hw_server := OnNewConnection 0 99 0 ?s, hw_spawned := [(0, 1)]\<rparr>"
  have "world_step ?env ?w0 [] ?w1"
    using world_accepts [of 0 ?w0 0 ?env True] by (simp add: new_world_def new_server_def)
  with world_new have "world_run ?env 1 sample_data [] ?w1" using world_next by fastforce
  moreover have "world_step ?env ?w1 [] ?w2"
    using world_creates [of ?w1 "[]" 0 "[]" ?env 99] sample_limit
    by (simp add: new_world_def on_accept_def new_server_def at_worker_def count_at_def new_mgr_def Let_def)
  ultimately have "world_run ?env 1 sample_data [] ?w2" using world_next by fastforce
  moreover have "world_step ?env ?w2 [] sample_started"
    unfolding sample_started_def Let_def
    using world_starts [of ?w2 "[]" 0 1 "[]" "replicate request_buffer_size 0" _ ?env 5 5, OF _ _ refl]
    by (simp add: new_world_def)
  ultimately show ?thesis using world_next by fastforce
qed

lemma sample_started_values:
  "hs_next_key (hw_server sample_started) = 1"
  "map (\<lambda>k. (co_worker k, co_key k, cn_pc (co_conn k), cn_request_bytes (co_conn k))) (hw_coroutines sample_started) = [(0, 1, Reading, 0)]"
  "hw_spawned sample_started = []"
  by (simp_all add: sample_started_def Let_def write_back_def at_worker_def mgr_at_def new_world_def OnNewConnection_def
      CreateConnection_def on_accept_def new_server_def new_mgr_def count_at_def next_round_def new_connection_def is_open_def)

theorem objects_outlive_coroutines_witness:
  "mset (keys_of (hs_workers (hw_server sample_started) ! 0)) = {#1#} \<and>
   cm_open (hs_workers (hw_server sample_started) ! 0) \<subseteq> {1}"
proof -
  have u: "unfinished sample_started = [(0, 1)]"
    using sample_started_values(2,3) by (auto simp: unfinished_def)
  have "hs_next_key (hw_server sample_started) < 2 ^ 31" using sample_started_values(1) by simp
  from objects_outlive_coroutines [OF sample_started_run this, of 0] show ?thesis
    by (simp add: u keys_at_def)
qed

theorem connections_independent_witness:
  "\<exists>w k. world_run sample_http_env 1 sample_data [(1, Received [71])] w \<and> hw_coroutines w = [k] \<and>
     conn_run sample_http_env 1 [Received [71]] (co_conn k) \<and> received_data (co_conn k) = [71]"
proof -
  obtain k where k: "hw_coroutines sample_started = [k]" "co_key k = 1" "cn_pc (co_conn k) = Reading" "cn_request_bytes (co_conn k) = 0"
    using sample_started_values(2) by auto
  let ?c = "on_read sample_http_env 1 5 5 (Some [71]) (shared_view (co_worker k) sample_started (co_conn k))"
  let ?w = "write_back (co_worker k) ?c (sample_started\<lparr>hw_coroutines := [k\<lparr>co_conn := ?c\<rparr>]\<rparr>)"
  have "resumes sample_http_env 1 (shared_view (co_worker k) sample_started (co_conn k)) [Received [71]] ?c"
    using k by (intro resumes_read) (simp_all add: shared_view_def request_buffer_size_def)
  then have "world_step sample_http_env sample_started [(1, Received [71])] ?w"
    using world_resumes [of 0 sample_started k sample_http_env "[Received [71]]" ?c] k(1,2) by simp
  from world_next [OF sample_started_run this] have run: "world_run sample_http_env 1 sample_data [(1, Received [71])] ?w" by simp
  have "hs_next_key (hw_server ?w) < 2 ^ 31"
    using sample_started_values(1) by (simp add: write_back_def at_worker_def mgr_at_def on_read_def Let_def)
  from connections_independent [OF run this sample_parser_ok] run k(2) show ?thesis
    by (auto simp: write_back_def events_of_def intro!: exI [of _ ?w])
qed
end
