(* ===== verification/HttpShutdown.thy ===== *)
theory HttpShutdown
  imports HttpWorld
begin

text \<open>
  The end of the HTTP server. When the thread pool closes, some coroutines are unwound on the thread of their worker;
  the others are unwound by \<open>main\<close>, after it has destroyed the server, when the pool and its queues go. What the
  objects \<open>my_cleaner\<close> and \<open>request_stats\<close> of \<open>ProcessRequests\<close> do then (\<open>src/httpd/HttpDaemon.cpp\<close>).
\<close>

section \<open>One coroutine\<close>

text \<open>
  Coroutines are unwound in two stages: while the pool closes, each of them on its worker's thread; and by the main
  thread, when the threads of the workers have ended and the server has been destroyed, with its managers and connections.
\<close>

datatype stage = Pool_closing | Server_gone

datatype thread = Worker nat | Main

definition this_thread :: "stage \<Rightarrow> nat \<Rightarrow> thread" where
  "this_thread st i = (case st of Pool_closing \<Rightarrow> Worker i | Server_gone \<Rightarrow> Main)"

text \<open>
  The locals of a coroutine that waits are destroyed, inside the loop first: \<open>request_stats\<close> where a reply is under
  way, then \<open>my_cleaner\<close>. \<open>request_stats\<close> makes no test: it counts, by a reference to a variable of the
  worker's thread, which is gone when that thread has ended.
\<close>

definition unwind_request :: "stage \<Rightarrow> connection \<Rightarrow> connection" where
  "unwind_request st c =
     (if cn_pc c = Writing \<or> cn_pc c = WritingBad then
        (if st = Pool_closing then end_request c
         else if cn_request_state c = IGNORE then c else c\<lparr>cn_pc := Undefined\<rparr>)
      else c)"

text \<open>
  \<open>connection_.Close()\<close>: with the server the connection and its manager are gone, and a call of
  their functions is undefined.
\<close>

definition close_connection :: "stage \<Rightarrow> u64 \<Rightarrow> connection \<Rightarrow> connection" where
  "close_connection st key c = (if st = Server_gone then c\<lparr>cn_pc := Undefined\<rparr> else leave key c)"

text \<open>\<open>started\<close> is \<open>thread_id_\<close>, the thread that the coroutine started on, and \<open>me\<close> the one that runs the destructor.\<close>

definition unwind_cleanup :: "stage \<Rightarrow> thread \<Rightarrow> thread \<Rightarrow> u64 \<Rightarrow> connection \<Rightarrow> connection" where
  "unwind_cleanup st started me key c =
     (if started \<noteq> me then c\<lparr>cn_pc := Finished\<rparr> else close_connection st key c)"

definition unwind :: "stage \<Rightarrow> thread \<Rightarrow> thread \<Rightarrow> u64 \<Rightarrow> connection \<Rightarrow> connection" where
  "unwind st started me key c =
     (let c1 = unwind_request st c
      in if cn_pc c1 = Undefined then c1 else unwind_cleanup st started me key c1)"

text \<open>A coroutine waits at a read or at a write; what has ended has nothing to unwind.\<close>

definition waits :: "connection \<Rightarrow> bool" where
  "waits c \<longleftrightarrow> cn_pc c \<in> {Reading, Writing, WritingBad}"

lemma unwind_outcome:
  assumes "waits c" "\<not> cn_closed c" "distinct (keys_of (cn_mgr c))" "small_key key"
  shows "outcome key c (unwind Pool_closing t t key c)"
proof -
  have "goes_on c (unwind_request Pool_closing c)"
    using assms(2) by (simp add: unwind_request_def goes_on_def same_objects_def end_request_def count_stats_def)
  from leave_outcome [OF this assms(3,4)] assms(1) show ?thesis
    by (auto simp: waits_def unwind_def unwind_cleanup_def close_connection_def unwind_request_def Let_def end_request_def count_stats_def)
qed

text \<open>While a reply is written the outcome of its request is one that is counted.\<close>

definition reply_counts :: "connection \<Rightarrow> bool" where
  "reply_counts c \<longleftrightarrow> cn_pc c \<in> {Writing, WritingBad} \<longrightarrow> cn_request_state c \<noteq> IGNORE"

lemma process_reply_counts [simp]: "reply_counts (process env key now1 now2 c)"
  by (auto simp: reply_counts_def process_def answer_request_def reply_with_error_def ParseRequest_def Let_def leave_def Close_def
      close_socket_def end_request_def count_stats_def
      split: prod.splits sum.splits vhost_exn.splits host_exn.splits ParseResult.splits if_splits)

lemma leave_reply_counts [simp]: "reply_counts (leave key c)"
  by (simp add: reply_counts_def leave_def)

lemma next_round_reply_counts [simp]: "reply_counts (next_round env key now1 now2 c)"
  by (simp add: next_round_def) (simp add: reply_counts_def)

lemma conn_run_reply_counts:
  assumes "conn_run env key es c"
  shows "reply_counts c"
  using assms
proof induction
  case (conn_next es c es' c')
  from conn_next.hyps(2) show ?case
  proof cases
    case (step_read data now1 now2)
    then show ?thesis by (simp add: on_read_def)
  next
    case (step_written ok now1 now2)
    then show ?thesis by (simp add: on_written_def Let_def)
  qed (use conn_next.IH in \<open>auto simp: on_read_def on_bad_written_def Let_def reply_counts_def leave_def\<close>)
qed simp

section \<open>All of them\<close>

text \<open>A coroutine finds what its thread shares as it is, and what its destructors change of it stays changed.\<close>

definition unwind_at :: "stage \<Rightarrow> nat \<Rightarrow> http_world \<Rightarrow> http_world" where
  "unwind_at st j w =
     (let k = hw_coroutines w ! j; i = co_worker k;
          c = unwind st (Worker i) (this_thread st i) (co_key k) (shared_view i w (co_conn k))
      in if waits (co_conn k) then write_back i c (w\<lparr>hw_coroutines := (hw_coroutines w)[j := k\<lparr>co_conn := c\<rparr>]\<rparr>) else w)"

fun unwind_all :: "stage \<Rightarrow> nat list \<Rightarrow> http_world \<Rightarrow> http_world" where
  "unwind_all st [] w = w"
| "unwind_all st (j # js) w = unwind_all st js (unwind_at st j w)"

text \<open>The destructor of the server: connections go with the entries that own them, and a socket closes with its connection.\<close>

definition destroy_managers :: "http_world \<Rightarrow> http_world" where
  "destroy_managers w = w\<lparr>hw_server := (hw_server w)\<lparr>hs_workers :=
     map (\<lambda>m. m\<lparr>cm_connections := [], cm_dead := [], cm_open := {}\<rparr>) (hs_workers (hw_server w))\<rparr>\<rparr>"

text \<open>The order in \<open>main\<close>: the threads of the pool end, the server is destroyed, and then the pool.\<close>

definition close_down :: "nat list \<Rightarrow> nat list \<Rightarrow> http_world \<Rightarrow> http_world" where
  "close_down here there w = unwind_all Server_gone there (destroy_managers (unwind_all Pool_closing here w))"

definition pc_after :: "stage \<Rightarrow> conn_pc \<Rightarrow> conn_pc" where
  "pc_after st pc = (if pc = Undefined \<or> (st = Server_gone \<and> (pc = Writing \<or> pc = WritingBad)) then Undefined else Finished)"

lemma unwind_pc:
  "reply_counts c \<Longrightarrow> waits c \<Longrightarrow> cn_pc (unwind st (Worker i) (this_thread st i) key c) = pc_after st (cn_pc c)"
  by (cases "cn_pc c"; cases st) (auto simp: waits_def unwind_def unwind_request_def unwind_cleanup_def close_connection_def this_thread_def leave_def pc_after_def reply_counts_def
      end_request_def count_stats_def Let_def)

abbreviation pcs :: "http_world \<Rightarrow> conn_pc list" where
  "pcs w \<equiv> map (\<lambda>k. cn_pc (co_conn k)) (hw_coroutines w)"

definition all_count :: "http_world \<Rightarrow> bool" where
  "all_count w \<longleftrightarrow> (\<forall>k \<in> set (hw_coroutines w). reply_counts (co_conn k))"

lemma unwind_at_pcs:
  assumes "all_count w" "j < length (hw_coroutines w)"
  shows "pcs (unwind_at st j w) = (pcs w)[j := pc_after st (pcs w ! j)]" "all_count (unwind_at st j w)"
proof -
  let ?k = "hw_coroutines w ! j"
  let ?c = "shared_view (co_worker ?k) w (co_conn ?k)"
  have "pcs (unwind_at st j w) = (pcs w)[j := pc_after st (pcs w ! j)] \<and> all_count (unwind_at st j w)"
  proof (cases "waits (co_conn ?k)")
    case True
    have "reply_counts (co_conn ?k)" using assms by (simp add: all_count_def)
    then have c: "reply_counts ?c" "waits ?c" using True by (simp_all add: reply_counts_def shared_view_def waits_def)
    let ?u = "unwind st (Worker (co_worker ?k)) (this_thread st (co_worker ?k)) (co_key ?k) ?c"
    from c have pc: "cn_pc ?u = pc_after st (cn_pc (co_conn ?k))" by (simp add: unwind_pc)
    then have "reply_counts ?u" by (simp add: reply_counts_def pc_after_def)
    with assms pc True show ?thesis
      by (auto simp: unwind_at_def write_back_def map_update all_count_def Let_def dest: set_update_subset_insert [THEN subsetD])
  next
    case False
    then have "pc_after st (cn_pc (co_conn ?k)) = cn_pc (co_conn ?k)"
      by (cases "cn_pc (co_conn ?k)") (auto simp: waits_def pc_after_def)
    then have "(pcs w)[j := pc_after st (pcs w ! j)] = pcs w" using assms(2) by (metis list_update_id nth_map)
    with assms(1) False show ?thesis by (simp add: unwind_at_def Let_def)
  qed
  then show "pcs (unwind_at st j w) = (pcs w)[j := pc_after st (pcs w ! j)]" "all_count (unwind_at st j w)" by simp_all
qed

lemma unwind_at_same [simp]:
  "length (hw_coroutines (unwind_at st j w)) = length (hw_coroutines w)" "hw_spawned (unwind_at st j w) = hw_spawned w"
  "length (hs_workers (hw_server (unwind_at st j w))) = length (hs_workers (hw_server w))"
  by (simp_all add: unwind_at_def write_back_def Let_def)

lemma unwind_at_owner: "map (\<lambda>k. (co_worker k, co_key k)) (hw_coroutines (unwind_at st j w)) = map (\<lambda>k. (co_worker k, co_key k)) (hw_coroutines w)"
proof (cases "j < length (hw_coroutines w)")
  case True
  then show ?thesis
    by (auto simp: unwind_at_def write_back_def map_update Let_def) (metis (no_types, lifting) list_update_id nth_map)+
qed (simp add: unwind_at_def write_back_def Let_def list_update_beyond)

lemma unwind_all_owner: "map (\<lambda>k. (co_worker k, co_key k)) (hw_coroutines (unwind_all st js w)) = map (\<lambda>k. (co_worker k, co_key k)) (hw_coroutines w)"
  by (induction js arbitrary: w) (simp_all add: unwind_at_owner)

lemma unwind_all_pcs:
  assumes "all_count w" "list_all (\<lambda>j. j < length (hw_coroutines w)) js"
  shows "all_count (unwind_all st js w) \<and> hw_spawned (unwind_all st js w) = hw_spawned w \<and>
    length (hw_coroutines (unwind_all st js w)) = length (hw_coroutines w) \<and>
    (\<forall>i < length (hw_coroutines w). cn_pc (co_conn (hw_coroutines (unwind_all st js w) ! i)) =
       (if i \<in> set js then pc_after st (cn_pc (co_conn (hw_coroutines w ! i))) else cn_pc (co_conn (hw_coroutines w ! i))))"
  using assms
proof (induction js arbitrary: w)
  case (Cons j js)
  have j: "j < length (hw_coroutines w)" using Cons.prems by simp
  note at = unwind_at_pcs [OF Cons.prems(1) j, of st]
  have pc: "cn_pc (co_conn (hw_coroutines (unwind_at st j w) ! i)) =
      (if i = j then pc_after st (cn_pc (co_conn (hw_coroutines w ! j))) else cn_pc (co_conn (hw_coroutines w ! i)))"
    if "i < length (hw_coroutines w)" for i
    using that j arg_cong [OF at(1), of "\<lambda>xs. xs ! i"] by (simp add: nth_list_update)
  have twice: "pc_after st (pc_after st pc) = pc_after st pc" for pc by (simp add: pc_after_def)
  from Cons.IH [OF at(2)] Cons.prems(2) pc twice show ?case by auto
qed simp

lemma unwind_here_ok:
  assumes "world_ok limit w" "hs_next_key (hw_server w) < 2 ^ 31" "j < length (hw_coroutines w)"
  shows "world_ok limit (unwind_at Pool_closing j w) \<and> hs_next_key (hw_server (unwind_at Pool_closing j w)) = hs_next_key (hw_server w)"
proof -
  let ?k = "hw_coroutines w ! j"
  let ?v = "shared_view (co_worker ?k) w (co_conn ?k)"
  let ?c = "unwind Pool_closing (Worker (co_worker ?k)) (Worker (co_worker ?k)) (co_key ?k) ?v"
  have next_key: "cm_next_key (cn_mgr ?c) = cm_next_key (cn_mgr ?v)"
    by (simp add: unwind_def unwind_request_def unwind_cleanup_def close_connection_def Let_def)
  then have same: "hs_next_key (hw_server (unwind_at Pool_closing j w)) = hs_next_key (hw_server w)"
    by (simp add: unwind_at_def this_thread_def write_back_def at_worker_def mgr_at_def Let_def)
  show ?thesis
  proof (cases "waits (co_conn ?k)")
    case True
    then have pc: "cn_pc (co_conn ?k) \<noteq> Finished" by (auto simp: waits_def)
    have "outcome (co_key ?k) ?v ?c"
      if "\<not> cn_closed (co_conn ?k)" "distinct (keys_of (mgr_at (co_worker ?k) w))" "small_key (co_key ?k)"
      using unwind_outcome [of ?v "co_key ?k" "Worker (co_worker ?k)"] True that by (simp add: waits_def)
    from woken_ok [OF assms(1,2,3) refl pc this] same True show ?thesis by (simp add: unwind_at_def this_thread_def Let_def)
  qed (use assms(1) in \<open>simp add: unwind_at_def Let_def\<close>)
qed

lemma unwind_all_here_ok:
  assumes "world_ok limit w" "hs_next_key (hw_server w) < 2 ^ 31" "list_all (\<lambda>j. j < length (hw_coroutines w)) js"
  shows "world_ok limit (unwind_all Pool_closing js w) \<and> length (hs_workers (hw_server (unwind_all Pool_closing js w))) = length (hs_workers (hw_server w))"
  using assms
proof (induction js arbitrary: w)
  case (Cons j js)
  then have j: "j < length (hw_coroutines w)" by simp
  from unwind_here_ok [OF Cons.prems(1,2) j] Cons.IH [of "unwind_at Pool_closing j w"] Cons.prems(2,3) show ?case by simp
qed simp

text \<open>What the connections share, where the counter of keys is read as the one that all managers share.\<close>

definition same_server :: "http_world \<Rightarrow> http_world \<Rightarrow> bool" where
  "same_server w w' \<longleftrightarrow> (\<forall>i. mgr_at i w' = mgr_at i w) \<and> hs_next_key (hw_server w') = hs_next_key (hw_server w) \<and>
     hs_pending (hw_server w') = hs_pending (hw_server w) \<and> hs_reported (hw_server w') = hs_reported (hw_server w) \<and>
     hw_data w' = hw_data w \<and> hw_dates w' = hw_dates w \<and> hw_parsers w' = hw_parsers w"

lemma unwind_gone_shared:
  "let c' = unwind Server_gone (Worker i) Main key c
   in cn_mgr c' = cn_mgr c \<and> cn_data c' = cn_data c \<and> cn_date c' = cn_date c \<and> cn_parser c' = cn_parser c"
  by (simp add: unwind_def unwind_request_def unwind_cleanup_def Let_def)

lemma unwind_at_gone: "same_server w (unwind_at Server_gone j w)"
proof -
  let ?k = "hw_coroutines w ! j"
  let ?i = "co_worker ?k"
  let ?c = "unwind Server_gone (Worker ?i) Main (co_key ?k) (shared_view ?i w (co_conn ?k))"
  have "cn_mgr ?c = mgr_at ?i w" "cn_data ?c = hw_data w" "cn_date ?c = hw_dates w ! ?i" "cn_parser ?c = hw_parsers w ! ?i"
    using unwind_gone_shared [of ?i "co_key ?k" "shared_view ?i w (co_conn ?k)"] by (simp_all add: shared_view_def Let_def)
  moreover have "mgr_at i (write_back ?i ?c w') = mgr_at i w" if "hw_server w' = hw_server w" "cn_mgr ?c = mgr_at ?i w" for i w'
    using that by (cases "?i < length (hs_workers (hw_server w))"; cases "i = ?i")
      (simp_all add: write_back_def mgr_at_def at_worker_def Let_def list_update_beyond)
  ultimately show ?thesis
    by (simp add: same_server_def unwind_at_def this_thread_def Let_def) (simp add: write_back_def at_worker_def mgr_at_def Let_def)
qed

lemma same_server_trans: "same_server u v \<Longrightarrow> same_server v w \<Longrightarrow> same_server u w"
  by (simp add: same_server_def)

lemma unwind_gone_server: "same_server w (unwind_all Server_gone js w)"
proof (induction js arbitrary: w)
  case (Cons j js)
  from same_server_trans [OF unwind_at_gone Cons] show ?case by simp
qed (simp add: same_server_def)

text \<open>The requests that are counted: each reply that is under way on the worker, where its own thread unwinds it.\<close>

definition requests_counted :: "Statistics \<Rightarrow> u64" where
  "requests_counted st = ok_requests st + failed_requests st + bad_requests st"

abbreviation counted_at :: "nat \<Rightarrow> http_world \<Rightarrow> u64" where
  "counted_at i w \<equiv> requests_counted (cm_stats (hs_workers (hw_server w) ! i))"

abbreviation replying :: "nat \<Rightarrow> http_world \<Rightarrow> nat set" where
  "replying i w \<equiv> {j. j < length (hw_coroutines w) \<and> co_worker (hw_coroutines w ! j) = i \<and> cn_pc (co_conn (hw_coroutines w ! j)) \<in> {Writing, WritingBad}}"

lemma leave_stats [simp]: "cm_stats (cn_mgr (leave key c)) = cm_stats (cn_mgr c)"
  by (simp add: leave_def Close_def close_socket_def CloseSocket_def Remove_def Let_def split: option.splits)

lemma unwind_counts:
  assumes "reply_counts c" "waits c"
  shows "requests_counted (cm_stats (cn_mgr (unwind Pool_closing t t key c))) =
    requests_counted (cm_stats (cn_mgr c)) + (if cn_pc c \<in> {Writing, WritingBad} then 1 else 0)"
  using assms by (cases "cn_request_state c")
    (auto simp: waits_def unwind_def unwind_request_def unwind_cleanup_def close_connection_def reply_counts_def
      end_request_def count_stats_def requests_counted_def Let_def)

lemma unwind_at_counted:
  assumes "all_count w" "j < length (hw_coroutines w)" "i < length (hs_workers (hw_server w))"
  shows "counted_at i (unwind_at Pool_closing j w) = counted_at i w + (if j \<in> replying i w then 1 else 0)"
    "replying i (unwind_at Pool_closing j w) = replying i w - {j}"
proof -
  let ?k = "hw_coroutines w ! j" and ?w = "unwind_at Pool_closing j w"
  let ?v = "shared_view (co_worker ?k) w (co_conn ?k)"
  let ?c = "unwind Pool_closing (Worker (co_worker ?k)) (Worker (co_worker ?k)) (co_key ?k) ?v"
  have "reply_counts ?v" using assms(1,2) by (simp add: all_count_def reply_counts_def shared_view_def)
  then have one: "requests_counted (cm_stats (cn_mgr ?c)) = requests_counted (cm_stats (cn_mgr ?v)) +
      (if cn_pc (co_conn ?k) \<in> {Writing, WritingBad} then 1 else 0)" if "waits (co_conn ?k)"
    using unwind_counts [of ?v] that by (simp add: waits_def shared_view_def)
  have there: "counted_at i ?w = (if waits (co_conn ?k) \<and> co_worker ?k = i then requests_counted (cm_stats (cn_mgr ?c)) else counted_at i w)"
    using assms(3) by (auto simp: unwind_at_def this_thread_def write_back_def at_worker_def nth_list_update Let_def)
  have stats: "cm_stats (cn_mgr ?v) = cm_stats (hs_workers (hw_server w) ! co_worker ?k)" by (simp add: shared_view_def mgr_at_def)
  show "counted_at i ?w = counted_at i w + (if j \<in> replying i w then 1 else 0)"
  proof (cases "waits (co_conn ?k)")
    case True
    with one [OF True] there stats assms(2) show ?thesis by (cases "co_worker ?k = i") simp_all
  next
    case False
    then have "cn_pc (co_conn ?k) \<notin> {Writing, WritingBad}" by (auto simp: waits_def)
    with False there show ?thesis by simp
  qed
  have "co_worker (hw_coroutines ?w ! i') = co_worker (hw_coroutines w ! i')" if "i' < length (hw_coroutines w)" for i'
    using that arg_cong [OF unwind_at_owner [of Pool_closing j w], of "\<lambda>xs. xs ! i'"] by simp
  moreover have "cn_pc (co_conn (hw_coroutines ?w ! i')) = ((pcs w)[j := pc_after Pool_closing (pcs w ! j)]) ! i'"
    if "i' < length (hw_coroutines w)" for i'
    using that arg_cong [OF unwind_at_pcs(1) [OF assms(1,2), of Pool_closing], of "\<lambda>xs. xs ! i'"] by simp
  ultimately show "replying i ?w = replying i w - {j}"
    using assms(2) by (auto simp: nth_list_update pc_after_def split: if_splits)
qed

lemma unwind_all_counted:
  assumes "all_count w" "list_all (\<lambda>j. j < length (hw_coroutines w)) js" "i < length (hs_workers (hw_server w))"
  shows "counted_at i (unwind_all Pool_closing js w) = counted_at i w + of_nat (card (replying i w \<inter> set js))"
  using assms
proof (induction js arbitrary: w)
  case (Cons j js)
  have j: "j < length (hw_coroutines w)" using Cons.prems by simp
  note one = unwind_at_counted [OF Cons.prems(1) j Cons.prems(3)]
  let ?R = "replying i w"
  have "card (?R \<inter> set (j # js)) = (if j \<in> ?R then Suc (card ((?R - {j}) \<inter> set js)) else card ((?R - {j}) \<inter> set js))"
  proof (cases "j \<in> ?R")
    case True
    then have "?R \<inter> set (j # js) = insert j ((?R - {j}) \<inter> set js)" by auto
    then have "card (?R \<inter> set (j # js)) = card (insert j ((?R - {j}) \<inter> set js))" by simp
    also have "\<dots> = Suc (card ((?R - {j}) \<inter> set js))" by (rule card_insert_disjoint) simp_all
    finally show ?thesis using True by simp
  next
    case False
    then have "?R \<inter> set (j # js) = (?R - {j}) \<inter> set js" by auto
    with False show ?thesis by simp
  qed
  then have card: "of_nat (card (?R \<inter> set (j # js))) = (if j \<in> ?R then 1 else 0) + (of_nat (card ((?R - {j}) \<inter> set js)) :: u64)"
    by simp
  have "all_count (unwind_at Pool_closing j w)" by (rule unwind_at_pcs(2) [OF Cons.prems(1) j])
  from Cons.IH [OF this] Cons.prems(2,3) one card show ?case by simp
qed simp

text \<open>The connections of worker \<open>i\<close> that are left when the coroutines \<open>here\<close> have been unwound on their own threads.\<close>

definition left_behind :: "nat list \<Rightarrow> nat \<Rightarrow> http_world \<Rightarrow> u64 list" where
  "left_behind here i w = map snd (filter (\<lambda>x. fst x = i) (hw_spawned w)) @
     map (\<lambda>j. co_key (hw_coroutines w ! j))
       (filter (\<lambda>j. co_worker (hw_coroutines w ! j) = i \<and> (if j \<in> set here then pcs w ! j = Undefined else pcs w ! j \<noteq> Finished))
         [0..<length (hw_coroutines w)])"

lemma left_behind_keys:
  assumes "all_count w" "list_all (\<lambda>j. j < length (hw_coroutines w)) here"
  shows "keys_at i (unwind_all Pool_closing here w) = set (left_behind here i w)"
proof -
  let ?w = "unwind_all Pool_closing here w" and ?n = "length (hw_coroutines w)"
  from unwind_all_pcs [OF assms] have same: "hw_spawned ?w = hw_spawned w" "length (hw_coroutines ?w) = ?n"
    and pc: "\<And>j. j < ?n \<Longrightarrow> cn_pc (co_conn (hw_coroutines ?w ! j)) =
      (if j \<in> set here then pc_after Pool_closing (pcs w ! j) else pcs w ! j)" by simp_all
  have owner: "co_worker (hw_coroutines ?w ! j) = co_worker (hw_coroutines w ! j) \<and> co_key (hw_coroutines ?w ! j) = co_key (hw_coroutines w ! j)"
    if "j < ?n" for j
    using that same(2) arg_cong [OF unwind_all_owner [of Pool_closing here w], of "\<lambda>xs. xs ! j"] by simp
  let ?left = "\<lambda>j. if j \<in> set here then pcs w ! j = Undefined else pcs w ! j \<noteq> Finished"
  have stays: "cn_pc (co_conn (hw_coroutines ?w ! j)) \<noteq> Finished \<longleftrightarrow> ?left j" if "j < ?n" for j
    using pc [OF that] that by (auto simp: pc_after_def)
  have "filter (\<lambda>k. cn_pc (co_conn k) \<noteq> Finished) (hw_coroutines ?w) = map (\<lambda>j. hw_coroutines ?w ! j) (filter ?left [0..<?n])"
  proof -
    have "filter (\<lambda>k. cn_pc (co_conn k) \<noteq> Finished) (map (\<lambda>j. hw_coroutines ?w ! j) [0..<?n]) =
        map (\<lambda>j. hw_coroutines ?w ! j) (filter (\<lambda>j. cn_pc (co_conn (hw_coroutines ?w ! j)) \<noteq> Finished) [0..<?n])"
      by (simp add: filter_map comp_def)
    moreover have "map (\<lambda>j. hw_coroutines ?w ! j) [0..<?n] = hw_coroutines ?w" using same(2) map_nth by metis
    moreover have "filter (\<lambda>j. cn_pc (co_conn (hw_coroutines ?w ! j)) \<noteq> Finished) [0..<?n] = filter ?left [0..<?n]"
      using stays by (intro filter_cong) simp_all
    ultimately show ?thesis by simp
  qed
  then have "unfinished ?w = hw_spawned w @ map (\<lambda>j. (co_worker (hw_coroutines w ! j), co_key (hw_coroutines w ! j))) (filter ?left [0..<?n])"
    using owner by (simp add: unfinished_def same(1))
  then show ?thesis by (force simp: keys_at_def left_behind_def)
qed

text \<open>
  C12: how the HTTP server closes down. Whatever it was doing when it was closed, with less than \<open>2 ^ 31\<close> connections so
  far, and in whatever order its coroutines are unwound: those that are unwound on their own threads end, with the
  request counted whose reply is under way, and each worker's manager then holds exactly the connections of the other coroutines, of
  which alone the sockets can still be open. Those that the main thread unwinds after the server has been destroyed
  call nothing of a connection or a manager that is gone, change nothing that they shared, and end where they wait for a request; but where a
  reply was under way, the counting of its request goes to a variable that is gone.
\<close>

theorem server_closes_down:
  assumes "world_run env threads data es w" "hs_next_key (hw_server w) < 2 ^ 31" "i < threads"
    and "list_all (\<lambda>j. j < length (hw_coroutines w)) (here @ there)"
  shows "set (keys_of (hs_workers (hw_server (unwind_all Pool_closing here w)) ! i)) = set (left_behind here i w) \<and>
    cm_open (hs_workers (hw_server (unwind_all Pool_closing here w)) ! i) \<subseteq> set (left_behind here i w) \<and>
    counted_at i (unwind_all Pool_closing here w) = counted_at i w + of_nat (card (replying i w \<inter> set here)) \<and>
    same_server (destroy_managers (unwind_all Pool_closing here w)) (close_down here there w) \<and>
    pcs (close_down here there w) = map (\<lambda>j. if j \<in> set here then pc_after Pool_closing (pcs w ! j)
      else if j \<in> set there then pc_after Server_gone (pcs w ! j) else pcs w ! j) [0..<length (hw_coroutines w)]"
proof -
  let ?w1 = "unwind_all Pool_closing here w"
  let ?w2 = "destroy_managers ?w1"
  from world_run_ok [OF assms(1,2)] have ok: "world_ok (limit_of env) w" and n: "length (hs_workers (hw_server w)) = threads" by simp_all
  from world_run_traced [OF assms(1,2)] have counts: "all_count w" by (auto simp: all_count_def traced_def dest: conn_run_reply_counts)
  from assms(4) have here: "list_all (\<lambda>j. j < length (hw_coroutines w)) here"
    and there: "list_all (\<lambda>j. j < length (hw_coroutines w)) there" by simp_all
  from unwind_all_here_ok [OF ok assms(2) here] n assms(3)
  have ok1: "world_ok (limit_of env) ?w1" and i: "i < length (hs_workers (hw_server ?w1))" by simp_all
  then have "worker_ok (limit_of env) (hs_next_key (hw_server ?w1)) (hs_workers (hw_server ?w1) ! i)"
    by (simp add: world_ok_def server_ok_def list_all_length)
  then have "cm_open (hs_workers (hw_server ?w1) ! i) \<subseteq> set (keys_of (hs_workers (hw_server ?w1) ! i))"
    by (auto simp: worker_ok_def mgr_ok_def keys_of_def)
  moreover have "set (keys_of (hs_workers (hw_server ?w1) ! i)) = set (left_behind here i w)"
    using ok1 i left_behind_keys [OF counts here] by (simp add: world_ok_def)
  moreover have "counted_at i ?w1 = counted_at i w + of_nat (card (replying i w \<inter> set here))"
    using unwind_all_counted [OF counts here] n assms(3) by simp
  moreover have "same_server ?w2 (close_down here there w)" by (simp add: close_down_def unwind_gone_server)
  moreover have "pcs (close_down here there w) = map (\<lambda>j. if j \<in> set here then pc_after Pool_closing (pcs w ! j)
      else if j \<in> set there then pc_after Server_gone (pcs w ! j) else pcs w ! j) [0..<length (hw_coroutines w)]"
  proof -
    note one = unwind_all_pcs [OF counts here, of Pool_closing]
    have "all_count ?w2" "hw_coroutines ?w2 = hw_coroutines ?w1" using one by (simp_all add: all_count_def destroy_managers_def)
    with one there unwind_all_pcs [of ?w2 there Server_gone] show ?thesis
      by (intro nth_equalityI) (auto simp: close_down_def pc_after_def)
  qed
  ultimately show ?thesis by simp
qed

section \<open>A sample\<close>

text \<open>A connection that has filled the buffer without a request, so that the reply to a bad request is under way.\<close>

lemma sample_full:
  assumes "received_data c = replicate n 65" "cn_request_bytes c = request_buffer_size - 1"
  shows "fst (ParseRequest sample_http_env c) = PARSE_BAD"
proof -
  have "find (crlf @ crlf) (replicate n 65) = None" by (induction n) (simp_all add: crlf_def)
  then have "he_spirit sample_http_env (replicate n 65) r = (False, r, 0)" for r by (simp add: sample_http_env_def sample_spirit_def)
  with assms show ?thesis by (simp add: ParseRequest_def ParseHttpRequest_def Parse_def Let_def)
qed

lemma sample_busy: "\<exists>w k. world_run sample_http_env 1 sample_data [(1, Received (replicate (request_buffer_size - 1) 65))] w \<and>
    hs_next_key (hw_server w) = 1 \<and> hw_spawned w = [] \<and> hw_coroutines w = [k] \<and> co_worker k = 0 \<and> co_key k = 1 \<and>
    cn_pc (co_conn k) = WritingBad"
proof -
  let ?data = "replicate (request_buffer_size - 1) 65 :: bytes"
  obtain k where k: "hw_coroutines sample_started = [k]" "co_worker k = 0" "co_key k = 1" "cn_pc (co_conn k) = Reading" "cn_request_bytes (co_conn k) = 0"
    using sample_started_values(2) by auto
  let ?v = "shared_view 0 sample_started (co_conn k)"
  let ?c = "on_read sample_http_env 1 5 5 (Some ?data) ?v"
  let ?w = "write_back 0 ?c (sample_started\<lparr>hw_coroutines := [k\<lparr>co_conn := ?c\<rparr>]\<rparr>)"
  have v: "cn_request_bytes ?v = 0" using k(5) by (simp add: shared_view_def)
  have "resumes sample_http_env 1 ?v [Received ?data] ?c"
    using k(4) v by (intro resumes_read) (simp_all add: request_buffer_size_def)
  then have "world_step sample_http_env sample_started [(1, Received ?data)] ?w"
    using world_resumes [of 0 sample_started k sample_http_env "[Received ?data]" ?c] k(1-3) by simp
  from world_next [OF sample_started_run this] have run: "world_run sample_http_env 1 sample_data [(1, Received ?data)] ?w" by simp
  have pc: "cn_pc ?c = WritingBad"
  proof -
    let ?d = "count_stats (\<lambda>s. s\<lparr>bytes_received := bytes_received s + of_nat (length ?data)\<rparr>)
       (?v\<lparr>cn_buffer := put_at (cn_buffer ?v) 0 ?data, cn_request_bytes := length ?data\<rparr>)"
    let ?e = "?d\<lparr>cn_request_state := UNSET, cn_need_more := True\<rparr>"
    have data: "received_data ?e = ?data" by (simp add: received_data_def put_at_def count_stats_def)
    have "fst (ParseRequest sample_http_env ?e) = PARSE_BAD" by (rule sample_full [OF data]) (simp add: count_stats_def)
    then show ?thesis using v by (auto simp: on_read_def process_def split: prod.splits ParseResult.splits)
  qed
  have next_key: "hs_next_key (hw_server ?w) = 1"
    using sample_started_values(1) by (simp add: write_back_def at_worker_def mgr_at_def on_read_def Let_def)
  have "hw_coroutines ?w = [k\<lparr>co_conn := ?c\<rparr>]" "hw_spawned ?w = []"
    using sample_started_values(3) by (simp_all add: write_back_def)
  with run next_key pc k(2,3) show ?thesis by (intro exI [of _ ?w] exI [of _ "k\<lparr>co_conn := ?c\<rparr>"]) simp
qed

theorem server_closes_down_witness:
  "\<exists>w. pcs w = [WritingBad] \<and> hw_spawned w = [] \<and> keys_of (hs_workers (hw_server (unwind_all Pool_closing [0] w)) ! 0) = [] \<and>
     pcs (close_down [0] [] w) = [Finished] \<and> set (keys_of (hs_workers (hw_server (unwind_all Pool_closing [] w)) ! 0)) = {1} \<and>
     pcs (close_down [] [0] w) = [Undefined]"
proof -
  obtain w k where w: "world_run sample_http_env 1 sample_data [(1, Received (replicate (request_buffer_size - 1) 65))] w"
      "hs_next_key (hw_server w) = 1" "hw_spawned w = []" "hw_coroutines w = [k]" "co_worker k = 0" "co_key k = 1" "cn_pc (co_conn k) = WritingBad"
    using sample_busy by blast
  then have small: "hs_next_key (hw_server w) < 2 ^ 31" by simp
  have n: "list_all (\<lambda>j. j < length (hw_coroutines w)) ([0] @ [])" "list_all (\<lambda>j. j < length (hw_coroutines w)) ([] @ [0])"
    using w(4) by simp_all
  have left: "left_behind [0] 0 w = []" "left_behind [] 0 w = [1]" using w(3-7) by (simp_all add: left_behind_def)
  from server_closes_down [OF w(1) small _ n(1), of 0] server_closes_down [OF w(1) small _ n(2), of 0] w(3,4,7) left
  show ?thesis by (intro exI [of _ w]) (simp add: pc_after_def)
qed

end
