(* ===== verification/StatsReport.thy ===== *)
theory StatsReport
  imports Stats HttpReply "HOL-Library.Sublist"
begin

text \<open>
  The periodic report of \<open>src/daemon/StatisticsManager.cpp\<close>: \<open>ScheduleLogUpdate\<close>, the lines it logs, and a reader
  of these lines, as one who looks into the log.
\<close>

section \<open>The lines\<close>

definition stat_names :: "bytes list" where
  "stat_names = [bytes_of ''HTTP'', bytes_of ''DNS'']"

definition printed :: "u64 \<Rightarrow> bytes" where
  "printed w = decimal (unat w)"

definition stat_line :: "bytes \<Rightarrow> Statistics \<Rightarrow> bytes" where
  "stat_line name s = bytes_of ''Statistics '' @ name @ bytes_of '':''
     @ bytes_of '' connections='' @ printed (connections s)
     @ bytes_of '', failed_connections='' @ printed (failed_connections s)
     @ bytes_of '', ok_requests='' @ printed (ok_requests s)
     @ bytes_of '', failed_requests='' @ printed (failed_requests s)
     @ bytes_of '', bad_requests='' @ printed (bad_requests s)
     @ bytes_of '', timeout_dropped_connections='' @ printed (timeout_dropped_connections s)
     @ bytes_of '', overflow_dropped_connections='' @ printed (overflow_dropped_connections s)
     @ bytes_of '', bytes_received='' @ printed (bytes_received s)
     @ bytes_of '', bytes_sent='' @ printed (bytes_sent s)
     @ bytes_of '', unknown_names='' @ printed (unknown_names s)"

text \<open>The loop over the types.\<close>

definition stat_lines :: "stats_system \<Rightarrow> bytes list" where
  "stat_lines s = map (\<lambda>i. stat_line (stat_names ! i) (sy_stats s ! i)) [0..<length (sy_stats s)]"

section \<open>The timer\<close>

text \<open>
  The manager with the log and the time, in milliseconds, that its timer is set to. The product is one of
  the type \<open>int\<close>: beyond its range it is undefined.
\<close>

record reporter =
  rp_system :: stats_system
  rp_interval :: int
  rp_timer :: "int option"
  rp_log :: "bytes list list"

definition ScheduleLogUpdate :: "reporter \<Rightarrow> reporter res" where
  "ScheduleLogUpdate m =
     (let ms = rp_interval m * 1000 in
      if ms < 2 ^ 31 then Inr (m\<lparr>rp_timer := Some ms\<rparr>) else Inl UndefinedBehaviour)"

definition new_reporter :: "int \<Rightarrow> StatType list \<Rightarrow> reporter res" where
  "new_reporter interval workers =
     (let m = \<lparr>rp_system = new_system workers, rp_interval = interval, rp_timer = None, rp_log = []\<rparr>
      in if 0 < interval then ScheduleLogUpdate m else Inr m)"

text \<open>The task that the timer posts.\<close>

definition LogUpdate :: "reporter \<Rightarrow> reporter res" where
  "LogUpdate m = ScheduleLogUpdate (m\<lparr>rp_log := rp_log m @ [stat_lines (rp_system m)], rp_timer := None\<rparr>)"

text \<open>Workers count and report and the manager adds up, and at times the timer fires.\<close>

inductive reporter_run :: "int \<Rightarrow> StatType list \<Rightarrow> stats_event list \<Rightarrow> reporter \<Rightarrow> bool" for interval workers where
  rep_new: "new_reporter interval workers = Inr m \<Longrightarrow> reporter_run interval workers [] m"
| rep_counts: "\<lbrakk> reporter_run interval workers es m; stats_run (rp_system m) es' s \<rbrakk> \<Longrightarrow>
    reporter_run interval workers (es' @ es) (m\<lparr>rp_system := s\<rparr>)"
| rep_fires: "\<lbrakk> reporter_run interval workers es m; rp_timer m = Some t; LogUpdate m = Inr m' \<rbrakk> \<Longrightarrow> reporter_run interval workers es m'"

section \<open>Reading a line\<close>

text \<open>The parts of a text between the bytes \<open>d\<close>.\<close>

fun parts :: "byte \<Rightarrow> bytes \<Rightarrow> bytes list" where
  "parts d [] = [[]]"
| "parts d (c # cs) = (if c = d then [] # parts d cs else (c # hd (parts d cs)) # tl (parts d cs))"

text \<open>A field is a name after a blank, the sign of equality and a number.\<close>

definition read_field :: "bytes \<Rightarrow> bytes \<times> nat" where
  "read_field t = (takeWhile (\<lambda>c. c \<noteq> 61) (tl t), number 0 (tl (dropWhile (\<lambda>c. c \<noteq> 61) t)))"

definition read_stat_line :: "bytes \<Rightarrow> bytes \<times> (bytes \<times> nat) list" where
  "read_stat_line t = (takeWhile (\<lambda>c. c \<noteq> 58) (drop 11 t), map read_field (parts 44 (tl (dropWhile (\<lambda>c. c \<noteq> 58) t))))"

definition logged :: "bytes list \<Rightarrow> bytes \<Rightarrow> bytes \<Rightarrow> nat option" where
  "logged ls name field = Option.bind (map_of (map read_stat_line ls) name) (\<lambda>fs. map_of fs field)"

fun counter_name :: "counter \<Rightarrow> bytes" where
  "counter_name Connections = bytes_of ''connections''"
| "counter_name FailedConnections = bytes_of ''failed_connections''"
| "counter_name OkRequests = bytes_of ''ok_requests''"
| "counter_name FailedRequests = bytes_of ''failed_requests''"
| "counter_name BadRequests = bytes_of ''bad_requests''"
| "counter_name TimeoutDropped = bytes_of ''timeout_dropped_connections''"
| "counter_name OverflowDropped = bytes_of ''overflow_dropped_connections''"
| "counter_name BytesReceived = bytes_of ''bytes_received''"
| "counter_name BytesSent = bytes_of ''bytes_sent''"
| "counter_name UnknownNames = bytes_of ''unknown_names''"

lemma parts_step: "d \<notin> set x \<Longrightarrow> parts d (x @ d # rest) = x # parts d rest"
  by (induction x) auto

lemma parts_last: "d \<notin> set x \<Longrightarrow> parts d x = [x]"
  by (induction x) auto

lemma decimal_digits: "\<forall>c \<in> set (decimal n). 48 \<le> c \<and> c \<le> 57"
proof (induction n rule: decimal.induct)
  case (1 n)
  have "48 \<le> digit k \<and> digit k \<le> 57" if "k < 10" for k
  proof -
    have "unat (digit k) = 48 + k" using that by (simp add: digit_def unat_word_ariths unat_of_nat take_bit_eq_mod)
    with that show ?thesis by (simp add: word_le_nat_alt)
  qed
  with 1 show ?case by (subst decimal.simps) auto
qed

lemma printed_other: "c < 48 \<or> 57 < c \<Longrightarrow> c \<notin> set (printed w)"
  using decimal_digits [of "unat w"] unfolding printed_def by force

text \<open>The line as its fields, the order of the counters.\<close>

definition field :: "bytes \<Rightarrow> u64 \<Rightarrow> bytes" where
  "field name w = 32 # name @ 61 # printed w"

definition counters :: "counter list" where
  "counters = [Connections, FailedConnections, OkRequests, FailedRequests, BadRequests,
     TimeoutDropped, OverflowDropped, BytesReceived, BytesSent, UnknownNames]"

fun commas :: "bytes list \<Rightarrow> bytes" where
  "commas [] = []"
| "commas [x] = x"
| "commas (x # xs) = x @ 44 # commas xs"

lemma stat_line_fields:
  "stat_line name s = bytes_of ''Statistics '' @ name @ 58 # commas (map (\<lambda>c. field (counter_name c) (count c s)) counters)"
  by (simp add: stat_line_def counters_def field_def bytes_of_def)

lemma counter_name_ok: "61 \<notin> set (counter_name c)" "44 \<notin> set (counter_name c)"
  by (cases c; simp add: bytes_of_def)+

lemma read_field_field: "61 \<notin> set name \<Longrightarrow> read_field (field name w) = (name, unat w)"
proof -
  assume n: "61 \<notin> set name"
  have "takeWhile (\<lambda>c. c \<noteq> 61) (name @ 61 # printed w) = name" using n by (subst takeWhile_append2) auto
  moreover have "dropWhile (\<lambda>c. c \<noteq> 61) (name @ 61 # printed w) = 61 # printed w" using n by (subst dropWhile_append2) auto
  ultimately show ?thesis by (simp add: read_field_def field_def printed_def number_decimal)
qed

lemma parts_commas: "xs \<noteq> [] \<Longrightarrow> \<forall>x \<in> set xs. 44 \<notin> set x \<Longrightarrow> parts 44 (commas xs) = xs"
  by (induction xs rule: commas.induct) (simp_all add: parts_step parts_last)

lemma read_stat_line:
  assumes "58 \<notin> set name"
  shows "read_stat_line (stat_line name s) = (name, map (\<lambda>c. (counter_name c, unat (count c s))) counters)"
proof -
  let ?fs = "map (\<lambda>c. field (counter_name c) (count c s)) counters"
  have "\<forall>x \<in> set ?fs. 44 \<notin> set x" using counter_name_ok(2) printed_other [of 44] by (auto simp: field_def)
  then have "parts 44 (commas ?fs) = ?fs" by (intro parts_commas) (simp_all add: counters_def)
  moreover have "58 \<notin> set (bytes_of ''Statistics '' @ name)" using assms by (simp add: bytes_of_def)
  then have "dropWhile (\<lambda>c. c \<noteq> 58) ((bytes_of ''Statistics '' @ name) @ 58 # commas ?fs) = 58 # commas ?fs"
    by (subst dropWhile_append2) auto
  moreover have "takeWhile (\<lambda>c. c \<noteq> 58) (name @ 58 # commas ?fs) = name" using assms by (subst takeWhile_append2) auto
  moreover have "drop 11 (stat_line name s) = name @ 58 # commas ?fs" by (simp add: stat_line_fields bytes_of_def)
  ultimately show ?thesis
    using counter_name_ok(1) by (simp add: read_stat_line_def stat_line_fields read_field_field)
qed

lemma counter_name_inj: "inj counter_name"
proof -
  have "distinct (map counter_name counters)" by code_simp
  moreover have "set counters = UNIV" by (auto simp: counters_def) (metis counter.exhaust)
  ultimately show ?thesis by (metis distinct_map)
qed

lemma logged_lines:
  assumes "length (sy_stats s) = 2"
  shows "logged (stat_lines s) (stat_names ! Ix ty) (counter_name c) = Some (unat (count c (GetStats ty s)))"
proof -
  have names: "58 \<notin> set (stat_names ! i)" if "i < 2" for i
    using that by (auto simp: stat_names_def bytes_of_def less_2_cases_iff)
  have differ: "stat_names ! 0 \<noteq> stat_names ! 1" by code_simp
  have "[0..<length (sy_stats s)] = [0, 1]" using assms by (simp add: upt_rec)
  then have "map read_stat_line (stat_lines s) =
      map (\<lambda>i. (stat_names ! i, map (\<lambda>c. (counter_name c, unat (count c (sy_stats s ! i)))) counters)) [0, 1]"
    by (simp add: stat_lines_def read_stat_line names)
  moreover have "map_of (map (\<lambda>c. (counter_name c, unat (count c st))) cs) (counter_name c) =
      (if c \<in> set cs then Some (unat (count c st)) else None)" for st cs
    by (induction cs) (auto simp: inj_eq [OF counter_name_inj])
  moreover have "c \<in> set counters" by (cases c) (simp_all add: counters_def)
  ultimately show ?thesis using differ by (cases ty) (simp_all add: logged_def GetStats_def)
qed

section \<open>What the log tells\<close>

definition report_of :: "StatType list \<Rightarrow> stats_event list \<Rightarrow> bytes list \<Rightarrow> bool" where
  "report_of workers es r \<longleftrightarrow> (\<exists>es0 s. suffix es0 es \<and> stats_run (new_system workers) es0 s \<and> r = stat_lines s)"

lemma report_of_later: "report_of workers es r \<Longrightarrow> report_of workers (es' @ es) r"
  unfolding report_of_def using suffix_appendI by blast

definition timer_ok :: "int \<Rightarrow> reporter \<Rightarrow> bool" where
  "timer_ok interval m \<longleftrightarrow> rp_interval m = interval \<and> interval * 1000 < 2 ^ 31 \<and>
     rp_timer m = (if 0 < interval then Some (interval * 1000) else None)"

lemma new_reporter_Inr:
  "new_reporter interval workers = Inr m \<Longrightarrow> timer_ok interval m \<and> rp_system m = new_system workers \<and> rp_log m = []"
  by (auto simp: new_reporter_def ScheduleLogUpdate_def timer_ok_def Let_def split: if_splits)

lemma new_reporter_defined: "(\<exists>m. new_reporter interval workers = Inr m) \<longleftrightarrow> interval \<le> 2147483"
  by (auto simp: new_reporter_def ScheduleLogUpdate_def Let_def)

lemma reporter_run_ok:
  assumes "reporter_run interval workers es m"
  shows "timer_ok interval m \<and> stats_run (new_system workers) es (rp_system m) \<and> list_all (report_of workers es) (rp_log m)"
  using assms
proof induction
  case (rep_new m)
  then show ?case using new_reporter_Inr run_start by auto
next
  case (rep_counts es m es' s)
  then show ?case by (auto simp: timer_ok_def list_all_iff intro: stats_run_append report_of_later)
next
  case (rep_fires es m t m')
  then have "report_of workers es (stat_lines (rp_system m))" by (auto simp: report_of_def)
  with rep_fires show ?case
    by (auto simp: timer_ok_def LogUpdate_def ScheduleLogUpdate_def Let_def split: if_splits)
qed

definition outstanding :: "StatType \<Rightarrow> counter \<Rightarrow> stats_system \<Rightarrow> u64" where
  "outstanding ty c s = sum_list (map (share ty c) (sy_tasks s)) + sum_list (map (share ty c) (sy_thread s))"

text \<open>
  C31: what the log tells of the statistics. Whenever the timer fires the next report is scheduled, without end, and
  each report in the log, read again, gives for each counter of each server the
  number that had been counted by then, save what workers had not yet reported; for every counter but the connections dropped by
  time-out.
\<close>

theorem reports_tell_counts:
  assumes "reporter_run interval workers es m" "c \<noteq> TimeoutDropped"
  shows "(\<exists>m'. LogUpdate m = Inr m' \<and> rp_timer m' = Some (interval * 1000)) \<and>
    rp_timer m = (if 0 < interval then Some (interval * 1000) else None) \<and>
    list_all (\<lambda>r. \<exists>es0 s n. suffix es0 es \<and> stats_run (new_system workers) es0 s \<and>
      logged r (stat_names ! Ix ty) (counter_name c) = Some n \<and>
      of_nat n + outstanding ty c s = counted ty c es0) (rp_log m)"
proof -
  from reporter_run_ok [OF assms(1)] have timer: "timer_ok interval m" and log: "list_all (report_of workers es) (rp_log m)" by simp_all
  have "\<exists>es0 s n. suffix es0 es \<and> stats_run (new_system workers) es0 s \<and>
      logged r (stat_names ! Ix ty) (counter_name c) = Some n \<and> of_nat n + outstanding ty c s = counted ty c es0"
    if "report_of workers es r" for r
  proof -
    from that obtain es0 s where s: "suffix es0 es" "stats_run (new_system workers) es0 s" "r = stat_lines s"
      by (auto simp: report_of_def)
    from stats_run_held [OF s(2) assms(2), of ty] have "length (sy_stats s) = 2" and held: "held ty c s = counted ty c es0" by simp_all
    from logged_lines [OF this(1)] held s show ?thesis by (auto simp: held_def outstanding_def add.assoc)
  qed
  with log have "list_all (\<lambda>r. \<exists>es0 s n. suffix es0 es \<and> stats_run (new_system workers) es0 s \<and>
      logged r (stat_names ! Ix ty) (counter_name c) = Some n \<and>
      of_nat n + outstanding ty c s = counted ty c es0) (rp_log m)" by (simp add: list_all_iff)
  with timer show ?thesis by (simp add: timer_ok_def LogUpdate_def ScheduleLogUpdate_def)
qed

text \<open>A worker counts a request, reports it, the manager adds it up, and the timer fires.\<close>

theorem reports_tell_counts_witness:
  "\<exists>m r. reporter_run 60 [DNS] [(DNS, OkRequests, 1)] m \<and> rp_timer m = Some 60000 \<and> rp_log m = [r] \<and>
     logged r (stat_names ! Ix DNS) (counter_name OkRequests) = Some 1"
proof -
  let ?st = "bump OkRequests 1 new_Statistics"
  let ?s0 = "new_system [DNS]"
  let ?s1 = "?s0\<lparr>sy_thread := [(DNS, ?st)]\<rparr>"
  let ?s2 = "?s0\<lparr>sy_tasks := [(DNS, ?st)], sy_thread := [(DNS, new_Statistics)]\<rparr>"
  let ?s3 = "?s0\<lparr>sy_stats := [new_Statistics, ?st], sy_thread := [(DNS, new_Statistics)]\<rparr>"
  have "stats_run ?s0 [(DNS, OkRequests, 1)] ?s1"
    using run_count [OF run_start, of 0 ?s0 DNS new_Statistics OkRequests 1] by (simp add: new_system_def)
  from run_housekeeping [OF this, of 0] have "stats_run ?s0 [(DNS, OkRequests, 1)] ?s2"
    by (simp add: new_system_def UpdateStats_def AddStat_def Reset_stats_def new_Statistics_def)
  from run_task [OF this] have counted: "stats_run ?s0 [(DNS, OkRequests, 1)] ?s3"
    by (simp add: new_system_def run_AddStat_def add_assign_def new_Statistics_def)
  let ?m0 = "\<lparr>rp_system = ?s0, rp_interval = 60, rp_timer = Some 60000, rp_log = []\<rparr>"
  have "new_reporter 60 [DNS] = Inr ?m0" by (simp add: new_reporter_def ScheduleLogUpdate_def)
  from rep_counts [OF rep_new [OF this], of "[(DNS, OkRequests, 1)]" ?s3] counted
  have "reporter_run 60 [DNS] [(DNS, OkRequests, 1)] (?m0\<lparr>rp_system := ?s3\<rparr>)" by simp
  from rep_fires [OF this, of 60000] have run: "reporter_run 60 [DNS] [(DNS, OkRequests, 1)] (?m0\<lparr>rp_system := ?s3, rp_log := [stat_lines ?s3]\<rparr>)"
    by (simp add: LogUpdate_def ScheduleLogUpdate_def)
  have "logged (stat_lines ?s3) (stat_names ! Ix DNS) (counter_name OkRequests) = Some 1"
    using logged_lines [of ?s3 DNS OkRequests] by (simp add: GetStats_def new_system_def new_Statistics_def)
  with run show ?thesis using reports_tell_counts [OF run, of OkRequests DNS]
    by (intro exI [of _ "?m0\<lparr>rp_system := ?s3, rp_log := [stat_lines ?s3]\<rparr>"] exI [of _ "stat_lines ?s3"]) simp
qed

end
