(* ===== verification/DebugOutput.thy ===== *)
theory DebugOutput
  imports DnsZone HttpReply HttpLexer
begin

text \<open>
  What objects look like in the log: \<open>Zone::Print\<close> (\<open>src/dnsd/Zone.h\<close>), the output operators for sockets and
  requests (\<open>src/httpd/HttpDaemon.cpp\<close>, \<open>src/dnsd/DnsDaemon.cpp\<close>, \<open>src/httpd/HttpRequest.cpp\<close>) and
  \<open>DebugLexer\<close> (\<open>src/httpd/HttpRequestParser.h\<close>).
\<close>

section \<open>Zones\<close>

text \<open>One character after \<open>setw(n)\<close>: blanks before it up to the width.\<close>

definition put_char :: "nat \<Rightarrow> byte \<Rightarrow> bytes" where
  "put_char n c = replicate (n - 1) 32 @ [c]"

definition endl :: bytes where
  "endl = [10]"

fun Print_zone :: "nat \<Rightarrow> zone \<Rightarrow> bytes" where
  "Print_zone level (Zone label a ns mx cname soa children auth) =
     put_char (level * 2) 123 @ put_char 0 34 @ label @ put_char 0 34 @ endl @
     concat (map (Print_zone (level + 1)) children) @ put_char (level * 2) 125 @ endl"

text \<open>A reader: the lines, the brackets that they open and close, and the tree of labels that these make.\<close>

datatype label_tree = Label_tree bytes "label_tree list"

fun labels_of :: "zone \<Rightarrow> label_tree" where
  "labels_of (Zone label a ns mx cname soa children auth) = Label_tree label (map labels_of children)"

datatype bracket = Opens bytes | Closes

definition read_bracket :: "bytes \<Rightarrow> bracket" where
  "read_bracket t = (let u = dropWhile (\<lambda>c. c = 32) t in if u = [125] then Closes else Opens (butlast (drop 2 u)))"

fun print_lines :: "bytes \<Rightarrow> bytes \<Rightarrow> bytes list" where
  "print_lines acc [] = (if acc = [] then [] else [acc])"
| "print_lines acc (c # cs) = (if c = 10 then acc # print_lines [] cs else print_lines (acc @ [c]) cs)"

fun nest :: "bracket list \<Rightarrow> (bytes \<times> label_tree list) list \<Rightarrow> label_tree list \<Rightarrow> label_tree list option" where
  "nest [] [] ts = Some ts"
| "nest [] (_ # _) ts = None"
| "nest (Opens l # bs) outer ts = nest bs ((l, ts) # outer) []"
| "nest (Closes # bs) [] ts = None"
| "nest (Closes # bs) ((l, us) # outer) ts = nest bs outer (us @ [Label_tree l ts])"

definition read_zones :: "bytes \<Rightarrow> label_tree list option" where
  "read_zones t = nest (map read_bracket (print_lines [] t)) [] []"

fun brackets :: "zone \<Rightarrow> bracket list" where
  "brackets (Zone label a ns mx cname soa children auth) = Opens label # concat (map brackets children) @ [Closes]"

fun on_one_line :: "zone \<Rightarrow> bool" where
  "on_one_line (Zone label a ns mx cname soa children auth) \<longleftrightarrow> 10 \<notin> set label \<and> list_all on_one_line children"

lemma print_lines_line: "10 \<notin> set t \<Longrightarrow> print_lines acc (t @ 10 # rest) = (acc @ t) # print_lines [] rest"
  by (induction t arbitrary: acc) auto

lemma read_open: "read_bracket (replicate n 32 @ 123 # 34 # label @ [34]) = Opens label"
proof -
  have "dropWhile (\<lambda>c. c = 32) (replicate n 32 @ 123 # 34 # label @ [34 :: byte]) = 123 # 34 # label @ [34]"
    by (induction n) simp_all
  then show ?thesis by (simp add: read_bracket_def)
qed

lemma read_close: "read_bracket (replicate n 32 @ [125]) = Closes"
  by (induction n) (simp_all add: read_bracket_def)

lemma Print_brackets:
  "on_one_line z \<Longrightarrow> map read_bracket (print_lines [] (Print_zone level z @ rest)) = brackets z @ map read_bracket (print_lines [] rest)"
proof (induction z arbitrary: level rest)
  case (Zone label a ns mx cname soa children auth)
  have kids: "map read_bracket (print_lines [] (concat (map (Print_zone k) zs) @ rest)) =
      concat (map brackets zs) @ map read_bracket (print_lines [] rest)"
    if "set zs \<subseteq> set children" for zs k rest
    using that
  proof (induction zs)
    case (Cons z zs)
    then have "on_one_line z" using Zone.prems by (auto simp: list_all_iff)
    with Zone.IH [of z k "concat (map (Print_zone k) zs) @ rest"] Cons show ?case by simp
  qed simp
  let ?n = "level * 2 - 1"
  have close: "map read_bracket (print_lines [] (replicate ?n 32 @ 125 # 10 # rest)) = Closes # map read_bracket (print_lines [] rest)"
    using print_lines_line [of "replicate ?n 32 @ [125]" "[]" rest] read_close [of ?n] by simp
  have "10 \<notin> set (replicate ?n 32 @ 123 # 34 # label @ [34])" using Zone.prems by auto
  from print_lines_line [OF this, of "[]"] read_open [of ?n label] show ?case
    using kids [of children "level + 1" "replicate ?n 32 @ 125 # 10 # rest"] close
    by (simp add: put_char_def endl_def)
qed

lemma nest_brackets: "nest (brackets z @ bs) outer ts = nest bs outer (ts @ [labels_of z])"
proof (induction z arbitrary: bs outer ts)
  case (Zone label a ns mx cname soa children auth)
  have "nest (concat (map brackets zs) @ bs) outer ts = nest bs outer (ts @ map labels_of zs)"
    if "set zs \<subseteq> set children" for zs bs outer ts
    using that by (induction zs arbitrary: ts) (auto simp: Zone.IH)
  from this [of children] show ?case by simp
qed

text \<open>
  The log shows a tree of zones as it is. What \<open>AddRootZone\<close> logs of a zone reads back as the labels of the
  zone and of all the zones below it, each in its place, whatever bytes but the end of a line are in the labels, quotes and brackets too.
\<close>

theorem printed_zone_readable:
  assumes "on_one_line z"
  shows "read_zones (Print_zone 0 z) = Some [labels_of z]"
  using Print_brackets [OF assms, of 0 "[]"] nest_brackets [of z "[]" "[]" "[]"] by (simp add: read_zones_def)

definition sample_printed :: zone where
  "sample_printed = Zone (bytes_of ''com'') [] [] [] [] None
     [Zone (bytes_of ''a\"{'') [] [] [] [] None [Zone [] [] [] [] [] None [] True] True, Zone (bytes_of ''b'') [] [] [] [] None [] False] True"

theorem printed_zone_readable_witness:
  "read_zones (Print_zone 0 sample_printed) = Some [Label_tree (bytes_of ''com'')
     [Label_tree (bytes_of ''a\"{'') [Label_tree [] []], Label_tree (bytes_of ''b'') []]]"
  using printed_zone_readable [of sample_printed] by (simp add: sample_printed_def bytes_of_def)

section \<open>Sockets\<close>

text \<open>An \<open>int\<close>; \<open>native_handle\<close> of a closed socket is below zero.\<close>

definition printed_int :: "int \<Rightarrow> bytes" where
  "printed_int i = (if i < 0 then 45 # decimal (nat (- i)) else decimal (nat i))"

definition show_socket :: "int \<Rightarrow> bytes" where
  "show_socket sck = bytes_of ''{ socket '' @ printed_int sck @ bytes_of '' }''"

section \<open>Requests\<close>

text \<open>\<open>esc\<close> is \<open>log::Esc\<close>, which is not in the repository.\<close>

definition show_request :: "(bytes \<Rightarrow> bytes) \<Rightarrow> HttpRequest \<Rightarrow> bytes" where
  "show_request esc v = bytes_of ''{ '' @ GetHttpVersionName v @ bytes_of '' '' @ GetMethodName v @
     bytes_of '' host: '' @ esc (host v) @ bytes_of '' port: '' @ decimal (unat (port v)) @
     bytes_of '' uri: '' @ esc (uri v) @ bytes_of '' }''"

section \<open>Tokens\<close>

text \<open>\<open>shown\<close> is Spirit's operator for tokens; the function succeeds where the tokens make up the input.\<close>

definition DebugLexer :: "(token \<Rightarrow> bytes) \<Rightarrow> token_ids \<Rightarrow> bytes \<Rightarrow> bool \<times> bytes" where
  "DebugLexer shown ids input =
     (let ts = HeaderLexer ids input
      in (concat (map snd ts) = input, concat (map (\<lambda>t. bytes_of ''Token: '' @ shown t @ [10]) ts)))"

end
