(* ===== verification/Spec2Isabelle.thy ===== *)
theory Spec2Isabelle
  imports HttpStarted DnsDebug HttpExpiry HttpShutdown StatsReport DebugOutput
begin

text \<open>
  vUbercool is a DNS server and an HTTP server in one process, for very many small sites. This
  development models both, from the bytes received to the bytes sent, and proves them against
  specifications that mention neither buffers nor tables. The sources are under \<open>src/\<close> and
  \<open>include/\<close>; file names below are relative to \<open>src/\<close>.

  \<^bold>\<open>The DNS server.\<close> A datagram is received into a buffer of 512 bytes, its header and
  its questions are parsed, the names are looked up in a tree of zones, and records are appended to
  a reply of at most 512 bytes, with compressed names; then the header is written over the first
  12 bytes and the reply is sent.

    \<^item> \<open>DnsHeader\<close>: \<open>MessageHeader\<close> (\<open>dnsd/Message.h\<close>), the twelve bytes, every flag and the round trip.
    \<^item> \<open>DnsFragments\<close>: \<open>ToFraments\<close>, dotted names and lists of labels.
    \<^item> \<open>DnsLabels\<close>: \<open>LabelHeader\<close> and \<open>Question\<close>, names and questions of a query. A label
      is a pair of an offset into the query and a length; a read outside the buffer is the error
      \<open>UndefinedBehaviour\<close>, which no code raises. Shown: exactly which names are
      accepted, and that the loop ends.
    \<^item> \<open>DnsCompress\<close>: the label table of \<open>AnswerBase\<close>, \<open>ReverseCompare\<close> and
      \<open>WriteDomainName\<close>. Shown: a name written with compression reads back as it was.
    \<^item> \<open>DnsAnswer\<close>: \<open>AnswerBase\<close> and the five classes of records; \<open>DnsReply\<close>: a reader of
      records after RFC 1035, and that it reads what they write.
    \<^item> \<open>DnsZone\<close>: \<open>Zone\<close> and \<open>ZoneMgr\<close> (\<open>dnsd/Zone.h\<close>). A pointer to a zone is the
      path from it to its root, with the index of each zone among its siblings, so parent
      pointers need no store. Shown: what a lookup finds, wildcards included.
    \<^item> \<open>DnsDaemon\<close>: \<open>ProcesssQuerey\<close> and all it calls, the exceptions and their handlers, and one
      round of the loop that receives (\<open>dnsd/DnsDaemon.cpp\<close>). The reply under construction
      is a record that is passed along; an exception keeps the state it was thrown in.
    \<^item> \<open>DnsSpec\<close>, \<open>DnsSound\<close>, \<open>DnsServer\<close>: the answer to a question as a list of records, the
      simulation of it by the code, and the theorems about whole datagrams: what is answered, that nothing fails,
      and the query that the server never comes back from.
    \<^item> \<open>DnsForget\<close>: the query buffer is used again for each datagram; no answer depends on what
      is left in it. Two buffers that agree on the datagram are followed through the parser.
    \<^item> \<open>DnsEndpoints\<close>: \<open>StartReceivingUdpAt\<close>, the coroutines of all endpoints as steps
      between their receives and sends, the housekeeping and the statistics of the workers. Shown for every run:
      replies go to the peers that asked, in order, and every request is counted once.
    \<^item> \<open>DnsDebug\<close>: \<open>GetNameFromOffset\<close>, the names in the log.

  \<^bold>\<open>The HTTP server.\<close> A coroutine accepts sockets; a task on the socket's worker creates the
  connection and starts its coroutine, which reads into a buffer of 8192 bytes, parses, asks the
  virtual host for a page, writes the reply and goes on with what is left in the buffer.

    \<^item> \<open>HttpRequest\<close>: the request and its parser's entry (\<open>httpd/HttpRequest.h\<close>).
    \<^item> \<open>HttpGrammar\<close>, \<open>HttpLexer\<close>: \<open>RequestGrammar\<close> and \<open>HeaderLexer\<close>
      (\<open>httpd/HttpRequestParser.h\<close>). The rules are functions that may change the request although
      they fail, as the semantic actions do. Shown: they accept what an inductive
      grammar derives, with its effect; and a request as a client writes it is understood.
      The locale \<open>token_source\<close> is what the grammar needs of a lexer.
    \<^item> \<open>HttpReply\<close>: \<open>CurrentReply\<close> (\<open>httpd/HttpDaemon.cpp\<close>). Shown: a client reads the reply
      back, and what follows it.
    \<^item> \<open>Hosts\<close>, \<open>Vhost\<close>: \<open>DefaultHost\<close>, \<open>StaticPageHost\<close>, the hit counters, the data file and
      the choice of the host (\<open>hosts/\<close>, \<open>daemon/VhostManager.cpp\<close>, \<open>Hosts.h\<close>, \<open>vUbercool.h\<close>).
    \<^item> \<open>ConnMgr\<close>: \<open>ConnectionMgr\<close>, the connections of a worker and their expiry. An open
      socket is a key in a set.
    \<^item> \<open>HttpConn\<close>: \<open>Connection::ProcessRequests\<close>, cut at its reads and writes into steps. One
      step is anything other connections of the thread do to what they share. Shown: no byte is lost
      or read twice, the buffer stays in its bounds, every request is answered, and a connection that ends
      is forgotten.
    \<^item> \<open>HttpService\<close>: connection, grammar and lexer together. \<open>HttpPipeline\<close>: requests sent in one
      piece are all answered, in order; it asks that Spirit leaves its position where the tokens taken end.
    \<^item> \<open>HttpExpiry\<close>: from the housekeeping to the end of the coroutine of an idle connection.
    \<^item> \<open>HttpServer\<close>: \<open>HttpDaemonImpl\<close>, all workers with the counter that they share. \<open>HttpWorld\<close>: the
      server with the coroutines of all its connections. Shown: a connection object lives exactly as long as
      its coroutine, and each connection of the server runs as one alone does.
    \<^item> \<open>HttpShutdown\<close>: how the coroutines are unwound when the pool closes, on their own threads or by \<open>main\<close>
      after it has destroyed the server. Shown: which connections are left, and where memory that is gone is written to.

  \<^bold>\<open>Both.\<close> \<open>Stats\<close>: \<open>Statistics\<close>, \<open>RequestStats\<close> and the manager they are reported
  to (\<open>Statistics.h\<close>, \<open>daemon/StatisticsManager.cpp\<close>); \<open>StatsReport\<close>: the periodic report, and that its
  lines tell what was counted. \<open>DebugOutput\<close>: how zones, sockets, requests and tokens are logged. \<open>Config\<close>: how the property trees become
  zones and the configuration of the hosts (\<open>dnsd/DnsDaemon.cpp\<close>, \<open>daemon/main.cpp\<close>).
  \<open>Startup\<close>: the command line and \<open>main\<close> (\<open>daemon/main.cpp\<close>), up to the answers that the
  started server gives; \<open>DnsConfigured\<close>: from the tree of a file to the answer to a query;
  \<open>HttpStarted\<close>: from the data file to the pages, over a restart.
  \<open>Prelude\<close>: words, bytes, exceptions as values of a sum, and shared lemmas.

  \<^bold>\<open>Conventions.\<close> Integers have their width, as words, where they are stored in one or could
  wrap around; sizes and offsets in a buffer are natural numbers. Strings and buffers are lists of
  bytes. An exception is the left side of a sum. The macro \<open>WAR_ASSERT\<close> is taken to be empty;
  two of its uses would not compile otherwise. There is no fuel: the loop over labels ends because a label lies behind
  the one before it and a pointer leads to a known one, the repetitions of the grammar and the
  lexer because each round takes something, and the recursion of \<open>ReverseCompare\<close>, which in
  itself may not end, is partial and proved to end on every buffer that the server builds.

  \<^bold>\<open>Parameters.\<close> What is not in the repository is an argument: the regular expression on
  labels and the comparison without regard to case (whose laws are the locale
  \<open>label_equality\<close>, interpreted on ASCII), the byte order of the machine, the compressors, the
  formatting of the date and \<open>lexical_cast\<close>, the files, the property trees' and the options' conversions, the
  numbers Spirit gives to tokens and how far it has read its input, the time, and the worker that the
  thread pool chooses. The operators of Spirit's grammars and its rule of the longest match are
  part of the language the parser is written in and are defined as documented.

  \<^bold>\<open>Assumptions.\<close> Keys of connections are counted up to wrapping around at 2 to the 64;
  the theorems on expiry and on the end of a connection ask for keys below 2 to the 31, and one shows what
  happens above. The end-to-end theorems on DNS ask that the zone of the question can be written and
  has an SOA record or a parent that has one, where it is no root (\<open>DnsServer\<close> shows that the server
  hangs for others, of which the configuration that comes with it has some), that all zones are so where every datagram is to be answered, and for a query that leaves
  a byte of its buffer free; \<open>DnsLabels\<close> shows why. Those on whole HTTP requests ask for headers in the forms of \<open>good_header\<close>.

  \<^bold>\<open>Not modelled.\<close> The inside of the thread pool and of the resolver, \<open>daemon()\<close>, how a signal closes
  the pool (which coroutines it unwinds, and where, is a choice of the model), and log lines other than those above, with what their operands may throw.
  The errors of sockets and the times at which timers fire are choices of the steps. The mutexes of the hit counters make
  their update one step.
\<close>

end
